(* ===== verification/Go_Base.thy ===== *)
theory Go_Base
  imports Main "HOL-Library.Word"
begin

text \<open>
  The prelude of the development: what the sources use of the Go language and of its standard
  library, and the lemmas every component shares.

  \<^item> A byte is an \<open>8 word\<close>, a byte slice that is only read is a list of bytes.  A Go string
    constant is written \<open>str ''...''\<close>.
  \<^item> \<open>int\<close> and \<open>int64\<close> are 64 bits wide on every platform the program is built for; the model
    computes on \<open>int\<close> and writes the wrap-around out with \<open>wrap64\<close>.  A slice length or an offset
    that the code has checked against the length of a slice is a \<open>nat\<close>.
  \<^item> \<open>bytes.Index\<close>, \<open>bytes.IndexByte\<close>, \<open>bytes.HasPrefix\<close>, \<open>bytes.TrimSpace\<close> and
    \<open>bytes.EqualFold\<close> are the functions of those names below; an index of \<open>-1\<close> is \<open>None\<close>.
  \<^item> An error value is a value of \<open>go_error\<close>; a run-time panic is the value \<open>Panic\<close> of \<open>outcome\<close>,
    and a loop whose end depends on code outside the repository runs on fuel, \<open>NoFuel\<close> being the
    outcome of a run that was given too little.
\<close>

unbundle bit_operations_syntax

named_theorems bytes_simps \<open>facts on searching and slicing byte lists\<close>
named_theorems go_int \<open>facts on Go's fixed-width integers\<close>

type_synonym byte = "8 word"
type_synonym bytes = "8 word list"

section \<open>Errors and panics\<close>

text \<open>
  The error values the code compares or returns.  \<open>Errorf s\<close> is an error made by
  \<open>fmt.Errorf\<close> or \<open>errors.New\<close> with a constant text, \<open>IOError n\<close> any error of a connection or
  of a library, told apart by a number.
\<close>

datatype go_error =
    ErrSyntax
  | ErrRange
  | EOF
  | ErrUnexpectedEOF
  | ErrHijacked
  | Canceled
  | Errorf string
  | IOError nat

datatype 'a outcome = Return 'a | Panic | NoFuel

fun bind_outcome :: "'a outcome \<Rightarrow> ('a \<Rightarrow> 'b outcome) \<Rightarrow> 'b outcome" where
  "bind_outcome (Return x) f = f x"
| "bind_outcome Panic f = Panic"
| "bind_outcome NoFuel f = NoFuel"

lemma bind_outcome_assoc: "bind_outcome (bind_outcome m f) g = bind_outcome m (\<lambda>x. bind_outcome (f x) g)"
  by (cases m) simp_all

lemma bind_outcome_Return:
  "bind_outcome m f = Return y \<longleftrightarrow> (\<exists>x. m = Return x \<and> f x = Return y)"
  by (cases m) auto

section \<open>Integers\<close>

definition maxInt :: int where
  "maxInt = 2 ^ 63 - 1"

definition wrap64 :: "int \<Rightarrow> int" where
  "wrap64 i = (i + 2 ^ 63) mod 2 ^ 64 - 2 ^ 63"

definition int64_range :: "int \<Rightarrow> bool" where
  "int64_range i \<longleftrightarrow> - (2 ^ 63) \<le> i \<and> i \<le> maxInt"

lemma wrap64_id [go_int]: "int64_range i \<Longrightarrow> wrap64 i = i"
  by (simp add: int64_range_def wrap64_def maxInt_def)

lemma wrap64_range [go_int]: "int64_range (wrap64 i)"
proof -
  have "0 \<le> (i + 2 ^ 63) mod 2 ^ 64" "(i + 2 ^ 63) mod 2 ^ 64 < 2 ^ 64"
    by simp_all
  then show ?thesis
    by (simp add: int64_range_def wrap64_def maxInt_def)
qed

text \<open>A sum of two non-negative values that passes the largest integer comes out negative.\<close>

lemma wrap64_overflow [go_int]:
  assumes "maxInt < i" "i \<le> 2 * maxInt + 1"
  shows "wrap64 i = i - 2 ^ 64"
proof -
  have "(i + 2 ^ 63) mod 2 ^ 64 = (i + 2 ^ 63 - 2 ^ 64) mod 2 ^ 64"
    by (rule minus_mod_self2 [symmetric])
  also have "\<dots> = i + 2 ^ 63 - 2 ^ 64"
    using assms by (intro mod_pos_pos_trivial) (simp_all add: maxInt_def)
  finally show ?thesis
    by (simp add: wrap64_def)
qed

section \<open>Strings and characters\<close>

definition str :: "string \<Rightarrow> bytes" where
  "str s = map of_char s"

definition crlf :: bytes where
  "crlf = [13, 10]"

definition headerEnd :: bytes where
  "headerEnd = [13, 10, 13, 10]"

lemma length_crlf [simp]: "length crlf = 2"
  by (simp add: crlf_def)

lemma length_headerEnd [simp]: "length headerEnd = 4"
  by (simp add: headerEnd_def)

lemma crlf_not_Nil [simp]: "crlf \<noteq> []"
  by (simp add: crlf_def)

lemma headerEnd_not_Nil [simp]: "headerEnd \<noteq> []"
  by (simp add: headerEnd_def)

lemma headerEnd_crlf: "headerEnd = crlf @ crlf"
  by (simp add: headerEnd_def crlf_def)

definition lower :: "byte \<Rightarrow> byte" where
  "lower c = (if 65 \<le> c \<and> c \<le> 90 then c + 32 else c)"

section \<open>Searching\<close>

fun HasPrefix :: "bytes \<Rightarrow> bytes \<Rightarrow> bool" where
  "HasPrefix s [] = True"
| "HasPrefix [] (p # ps) = False"
| "HasPrefix (x # xs) (p # ps) = (x = p \<and> HasPrefix xs ps)"

fun Index :: "bytes \<Rightarrow> bytes \<Rightarrow> nat option" where
  "Index [] sep = (if sep = [] then Some 0 else None)"
| "Index (x # xs) sep =
     (if HasPrefix (x # xs) sep then Some 0 else map_option Suc (Index xs sep))"

definition IndexByte :: "bytes \<Rightarrow> byte \<Rightarrow> nat option" where
  "IndexByte s c = Index s [c]"

lemma HasPrefix_take: "HasPrefix s p \<longleftrightarrow> take (length p) s = p"
  by (induction s p rule: HasPrefix.induct) auto

lemma HasPrefix_length [bytes_simps]: "HasPrefix s p \<Longrightarrow> length p \<le> length s"
  by (induction s p rule: HasPrefix.induct) auto

lemma HasPrefix_append [simp]: "HasPrefix (p @ s) p"
  by (simp add: HasPrefix_take)

lemma HasPrefix_cong:
  "take (length p) s = take (length p) t \<Longrightarrow> HasPrefix s p = HasPrefix t p"
  by (simp add: HasPrefix_take)

text \<open>\<open>Index\<close> is the least position at which the separator stands.\<close>

lemma Index_Some:
  "Index s sep = Some i \<longleftrightarrow>
     i \<le> length s \<and> HasPrefix (drop i s) sep \<and> (\<forall>j < i. \<not> HasPrefix (drop j s) sep)"
proof (induction s arbitrary: i)
  case Nil
  then show ?case by (cases sep) auto
next
  case (Cons x xs)
  show ?case
  proof (cases i)
    case 0
    then show ?thesis by auto
  next
    case (Suc k)
    have "(\<forall>j < Suc k. \<not> HasPrefix (drop j (x # xs)) sep) \<longleftrightarrow>
        \<not> HasPrefix (x # xs) sep \<and> (\<forall>j < k. \<not> HasPrefix (drop j xs) sep)"
      by (subst All_less_Suc2) simp
    with Suc Cons.IH [of k] show ?thesis by auto
  qed
qed

lemma Index_None: "Index s sep = None \<longleftrightarrow> (\<forall>j \<le> length s. \<not> HasPrefix (drop j s) sep)"
proof (induction s)
  case Nil
  then show ?case by (cases sep) auto
next
  case (Cons x xs)
  have "(\<forall>j \<le> length (x # xs). \<not> HasPrefix (drop j (x # xs)) sep) \<longleftrightarrow>
      \<not> HasPrefix (x # xs) sep \<and> (\<forall>j \<le> length xs. \<not> HasPrefix (drop j xs) sep)"
    by (simp only: less_Suc_eq_le [symmetric] length_Cons, subst All_less_Suc2) simp
  with Cons.IH show ?case by auto
qed

lemma Index_bound [bytes_simps]: "Index s sep = Some i \<Longrightarrow> i + length sep \<le> length s"
  by (auto simp: Index_Some dest!: HasPrefix_length)

lemma Index_take_drop:
  "Index s sep = Some i \<Longrightarrow> s = take i s @ sep @ drop (i + length sep) s"
  by (metis Index_Some HasPrefix_take append_take_drop_id drop_drop add.commute)

text \<open>The position found depends only on the bytes up to the end of the separator.\<close>

lemma Index_cong:
  assumes "Index s sep = Some i" and "take (i + length sep) t = take (i + length sep) s"
  shows "Index t sep = Some i"
proof -
  have len: "i + length sep \<le> length t"
    using assms Index_bound [OF assms(1)] by (metis length_take min.absorb2 min.cobounded1)
  have same: "HasPrefix (drop j t) sep = HasPrefix (drop j s) sep" if "j \<le> i" for j
  proof (rule HasPrefix_cong)
    have "take (length sep) (drop j u) = drop j (take (j + length sep) (take (i + length sep) u))"
      for u :: bytes
      using that by (simp add: drop_take min_def)
    then show "take (length sep) (drop j t) = take (length sep) (drop j s)"
      by (metis assms(2))
  qed
  with assms(1) len show ?thesis
    by (auto simp: Index_Some)
qed

lemma Index_append: "Index s sep = Some i \<Longrightarrow> Index (s @ t) sep = Some i"
  by (rule Index_cong, assumption) (simp add: Index_bound)

lemma Index_take:
  "Index s sep = Some i \<Longrightarrow> i + length sep \<le> n \<Longrightarrow> Index (take n s) sep = Some i"
  by (rule Index_cong, assumption) (simp add: min_def)

text \<open>Lists that agree up to a position.\<close>

lemma take_drop_agree:
  "take m t = take m s \<Longrightarrow> a + b \<le> m \<Longrightarrow> take b (drop a t) = take b (drop a s)"
  by (metis add.commute min.absorb1 take_drop take_take)

lemma take_agree_length: "take m t = take m s \<Longrightarrow> m \<le> length s \<Longrightarrow> m \<le> length t"
  by (metis length_take min.absorb2 min.cobounded1)

lemma take_agree_nth: "take m t = take m s \<Longrightarrow> i < m \<Longrightarrow> t ! i = s ! i"
  by (metis nth_take)

lemma take_agree_less: "take m t = take m s \<Longrightarrow> k \<le> m \<Longrightarrow> take k t = take k s"
  by (metis min.absorb1 take_take)

lemma drop_past: "drop a xs = ys @ zs \<Longrightarrow> drop (a + length ys) xs = zs"
  by (metis append_eq_conv_conj drop_drop add.commute)

text \<open>A search skips what cannot begin the separator.\<close>

lemma Index_skip:
  "c \<notin> set a \<Longrightarrow> Index (a @ b) (c # sep) = map_option (\<lambda>k. length a + k) (Index b (c # sep))"
proof (induction a)
  case Nil
  then show ?case by (cases "Index b (c # sep)") simp_all
next
  case (Cons x a)
  then show ?case by (cases "Index b (c # sep)") auto
qed

lemma Index_here: "HasPrefix b sep \<Longrightarrow> Index b sep = Some 0"
  by (cases b; cases sep) auto

lemma Index_absent: "c \<notin> set a \<Longrightarrow> Index a (c # sep) = None"
  using Index_skip [of c a "[]" sep] by simp

lemma Index_crlf: "13 \<notin> set a \<Longrightarrow> Index (a @ crlf @ b) crlf = Some (length a)"
  using Index_skip [of 13 a "crlf @ b" "[10]"] Index_here [of "crlf @ b" crlf]
  by (simp add: crlf_def)

lemma Index_headerEnd: "13 \<notin> set a \<Longrightarrow> Index (a @ headerEnd @ b) headerEnd = Some (length a)"
  using Index_skip [of 13 a "headerEnd @ b" "[10, 13, 10]"] Index_here [of "headerEnd @ b" headerEnd]
  by (simp add: headerEnd_def)

lemma Index_headerEnd_line:
  assumes "\<not> HasPrefix b crlf"
  shows "Index (crlf @ b) headerEnd = map_option (\<lambda>k. 2 + k) (Index b headerEnd)"
proof -
  have "HasPrefix (crlf @ b) headerEnd = HasPrefix b crlf"
    by (simp add: crlf_def headerEnd_def)
  with assms show ?thesis
    by (cases "Index b headerEnd") (simp_all add: crlf_def headerEnd_def)
qed

section \<open>Case folding and trimming\<close>

text \<open>
  \<open>bytes.EqualFold(s, t)\<close> and \<open>strings.EqualFold(s, t)\<close> compare UTF-8 text under simple Unicode
  case folding.  Every call in the sources has an ASCII constant as \<open>t\<close>.  The code points that
  fold to an ASCII character are the ASCII letters, the Kelvin sign U+212A (bytes E2 84 AA, which
  folds to \<open>k\<close>) and the long s U+017F (bytes C5 BF, which folds to \<open>s\<close>).
\<close>

fun EqualFold :: "bytes \<Rightarrow> bytes \<Rightarrow> bool" where
  "EqualFold [] [] = True"
| "EqualFold [] (c # t) = False"
| "EqualFold (x # xs) [] = False"
| "EqualFold (x # xs) (c # t) =
     (if x < 128 then lower x = lower c \<and> EqualFold xs t
      else if lower c = 107 \<and> HasPrefix (x # xs) [226, 132, 170] then EqualFold (drop 2 xs) t
      else if lower c = 115 \<and> HasPrefix (x # xs) [197, 191] then EqualFold (drop 1 xs) t
      else False)"

text \<open>
  \<open>bytes.TrimSpace\<close> and \<open>strings.TrimSpace\<close> strip the code points of Unicode's White\_Space
  property, given here by their UTF-8 encodings.
\<close>

definition space_encodings :: "bytes list" where
  "space_encodings =
     [[32], [9], [10], [11], [12], [13], [194, 133], [194, 160], [225, 154, 128],
      [226, 128, 128], [226, 128, 129], [226, 128, 130], [226, 128, 131], [226, 128, 132],
      [226, 128, 133], [226, 128, 134], [226, 128, 135], [226, 128, 136], [226, 128, 137],
      [226, 128, 138], [226, 128, 168], [226, 128, 169], [226, 128, 175], [226, 129, 159],
      [227, 128, 128]]"

function trim_left :: "bytes list \<Rightarrow> bytes \<Rightarrow> bytes" where
  "trim_left es s =
     (case find (\<lambda>e. e \<noteq> [] \<and> HasPrefix s e) es of
        None \<Rightarrow> s
      | Some e \<Rightarrow> trim_left es (drop (length e) s))"
  by pat_completeness auto
termination
  by (relation "measure (length \<circ> snd)")
    (auto simp: find_Some_iff intro!: diff_less dest!: HasPrefix_length)

declare trim_left.simps [simp del]

definition TrimSpace :: "bytes \<Rightarrow> bytes" where
  "TrimSpace s = rev (trim_left (map rev space_encodings) (rev (trim_left space_encodings s)))"

lemma trim_left_suffix: "\<exists>k. trim_left es s = drop k s"
proof (induction es s rule: trim_left.induct)
  case (1 es s)
  show ?case
  proof (cases "find (\<lambda>e. e \<noteq> [] \<and> HasPrefix s e) es")
    case None
    then show ?thesis by (auto simp: trim_left.simps [of es s] intro: exI [of _ 0])
  next
    case (Some e)
    from 1 [OF this] obtain k where "trim_left es (drop (length e) s) = drop k (drop (length e) s)"
      by blast
    with Some show ?thesis by (auto simp: trim_left.simps [of es s])
  qed
qed

lemma length_trim_left [simp]: "length (trim_left es s) \<le> length s"
  using trim_left_suffix [of es s] by auto

lemma length_TrimSpace [simp]: "length (TrimSpace s) \<le> length s"
  unfolding TrimSpace_def using length_trim_left order_trans
  by (metis length_rev)

text \<open>A non-empty slice that begins and ends with a printable ASCII byte is not changed.\<close>

definition printable :: "byte \<Rightarrow> bool" where
  "printable c \<longleftrightarrow> 33 \<le> c \<and> c \<le> 126"

lemma trim_left_printable:
  assumes "s \<noteq> []" "printable (hd s)" "\<forall>e \<in> set es. e \<noteq> [] \<longrightarrow> \<not> printable (hd e)"
  shows "trim_left es s = s"
proof -
  obtain x xs where s: "s = x # xs" using assms(1) by (cases s) auto
  have "\<not> (e \<noteq> [] \<and> HasPrefix s e)" if "e \<in> set es" for e
    using assms(2,3) that unfolding s by (cases e) auto
  then have "find (\<lambda>e. e \<noteq> [] \<and> HasPrefix s e) es = None"
    by (auto simp: find_None_iff)
  then show ?thesis by (simp add: trim_left.simps)
qed

lemma space_encodings_hd: "e \<in> set space_encodings \<Longrightarrow> \<not> printable (hd e) \<and> \<not> printable (last e)"
  by (auto simp: space_encodings_def printable_def)

lemma TrimSpace_printable [simp]:
  assumes "s \<noteq> []" "printable (hd s)" "printable (last s)"
  shows "TrimSpace s = s"
proof -
  have "trim_left space_encodings s = s"
    using assms(1,2) by (rule trim_left_printable) (auto dest: space_encodings_hd)
  moreover have "trim_left (map rev space_encodings) (rev s) = rev s"
    using assms by (intro trim_left_printable) (auto simp: hd_rev dest: space_encodings_hd)
  ultimately show ?thesis
    by (simp add: TrimSpace_def)
qed

section \<open>Header lines\<close>

text \<open>
  The loop \<open>for len(cur) > 0\<close> that takes one line off \<open>cur\<close> at a time, up to the next CRLF or to
  the end; the parser, the engine and the client handshake all contain it.  \<open>header_lines\<close> is the
  list of the lines it visits.
\<close>

function header_lines :: "bytes \<Rightarrow> bytes list" where
  "header_lines cur =
     (if cur = [] then []
      else case Index cur crlf of
             Some idx \<Rightarrow> take idx cur # header_lines (drop (idx + 2) cur)
           | None \<Rightarrow> [cur])"
  by pat_completeness auto
termination
  by (relation "measure length") (auto dest!: Index_bound)

declare header_lines.simps [simp del]

lemma header_lines_Nil [simp]: "header_lines [] = []"
  by (simp add: header_lines.simps)

lemma header_lines_last: "cur \<noteq> [] \<Longrightarrow> Index cur crlf = None \<Longrightarrow> header_lines cur = [cur]"
  by (simp add: header_lines.simps)

end
