(* ===== verification/Payload_Pool.thy ===== *)
theory Payload_Pool
  imports Go_Base "HOL-Library.Multiset"
begin

text \<open>
  The bucketed buffer pool of \<open>src/pkg/websocket/pool.go\<close> and its \<open>PooledWriter\<close>.

  A byte slice that is written to is a \<open>slice\<close>: the address of its array, the array from the start
  of the slice on (its length is the capacity) and the length of the slice.  The pools hold
  arrays by address, so that handing the same array out twice, or putting it back twice, is
  visible in the model.  A \<open>sync.Pool\<close> may return any stored array or a new one: \<open>pool_get\<close>
  takes the first one stored, and every theorem is about all states of the pools.

  The locale \<open>buffer_pool\<close> is what the assembler, the compressor and the writer rely on.
\<close>

section \<open>Slices\<close>

record slice =
  addr :: nat
  backing :: bytes
  slen :: nat

definition scap :: "slice \<Rightarrow> nat" where
  "scap s = length (backing s)"

definition content :: "slice \<Rightarrow> bytes" where
  "content s = take (slen s) (backing s)"

text \<open>\<open>s[:n]\<close> panics unless \<open>0 \<le> n \<le> cap(s)\<close>.\<close>

definition reslice :: "slice \<Rightarrow> int \<Rightarrow> slice outcome" where
  "reslice s n = (if 0 \<le> n \<and> n \<le> int (scap s) then Return (s\<lparr>slen := nat n\<rparr>) else Panic)"

text \<open>\<open>copy(s[off:], src)\<close>: as many bytes as both sides have.\<close>

definition copy_at :: "slice \<Rightarrow> nat \<Rightarrow> bytes \<Rightarrow> slice" where
  "copy_at s off src =
     (let m = min (slen s - off) (length src)
      in s\<lparr>backing := take off (backing s) @ take m src @ drop (off + m) (backing s)\<rparr>)"

definition slice_ok :: "slice \<Rightarrow> bool" where
  "slice_ok s \<longleftrightarrow> slen s \<le> scap s"

lemma length_content [simp]: "slice_ok s \<Longrightarrow> length (content s) = slen s"
  by (simp add: slice_ok_def content_def scap_def)

lemma copy_at_fields [simp]:
  "addr (copy_at s off src) = addr s" "slen (copy_at s off src) = slen s"
  by (simp_all add: copy_at_def Let_def)

lemma scap_copy_at [simp]: "slice_ok s \<Longrightarrow> off \<le> slen s \<Longrightarrow> scap (copy_at s off src) = scap s"
  by (auto simp: copy_at_def Let_def scap_def slice_ok_def min_def)

lemma scap_slen [simp]: "scap (s\<lparr>slen := n\<rparr>) = scap s"
  by (simp add: scap_def)

lemma slice_ok_copy_at [simp]: "slice_ok s \<Longrightarrow> off \<le> slen s \<Longrightarrow> slice_ok (copy_at s off src)"
  by (simp add: slice_ok_def [of "copy_at s off src"] slice_ok_def [of s])

text \<open>Growing a slice within its capacity and copying data behind what it held appends the data.\<close>

lemma content_append_in_place:
  assumes "slice_ok s" "slen s + length p \<le> scap s"
  shows "content (copy_at (s\<lparr>slen := slen s + length p\<rparr>) (slen s) p) = content s @ p"
proof -
  have "length (take (slen s) (backing s)) = slen s"
    using assms(1) by (simp add: slice_ok_def scap_def)
  then show ?thesis by (simp add: content_def copy_at_def Let_def)
qed

text \<open>Copying into a new buffer and cutting it to the old length keeps the content.\<close>

lemma content_copy_grow:
  assumes "slice_ok s" "slice_ok nb" "slen s \<le> slen nb"
  shows "content ((copy_at nb 0 (content s))\<lparr>slen := slen s\<rparr>) = content s"
  using assms by (simp add: content_def copy_at_def slice_ok_def scap_def min_def Let_def)

section \<open>The pools\<close>

text \<open>The four pools of the package, by the size of their arrays.\<close>

datatype bucket = Pool512b | Pool4k | Pool16k | Pool64k

fun bucketSize :: "bucket \<Rightarrow> nat" where
  "bucketSize Pool512b = 512"
| "bucketSize Pool4k = 4096"
| "bucketSize Pool16k = 16 * 1024"
| "bucketSize Pool64k = 64 * 1024"

type_synonym array = "nat \<times> bytes"

record pools =
  stock :: "bucket \<Rightarrow> array list"
  next_addr :: nat

definition slice_of :: "array \<Rightarrow> slice" where
  "slice_of a = \<lparr>addr = fst a, backing = snd a, slen = length (snd a)\<rparr>"

text \<open>\<open>Get\<close> of a pool whose \<open>New\<close> makes arrays of \<open>n\<close> bytes: an array and what is left.\<close>

definition pool_get :: "nat \<Rightarrow> array list \<Rightarrow> nat \<Rightarrow> array \<times> array list \<times> nat" where
  "pool_get n arrays nxt =
     (case arrays of [] \<Rightarrow> ((nxt, replicate n 0), [], Suc nxt) | a # rest \<Rightarrow> (a, rest, nxt))"

definition bucketFor :: "int \<Rightarrow> bucket option" where
  "bucketFor sz =
     (if sz \<le> 512 then Some Pool512b
      else if sz \<le> 4096 then Some Pool4k
      else if sz \<le> 16 * 1024 then Some Pool16k
      else if sz \<le> 64 * 1024 then Some Pool64k
      else None)"

definition getPayloadBuffer :: "int \<Rightarrow> pools \<Rightarrow> (slice \<times> pools) outcome" where
  "getPayloadBuffer sz ps =
     (case bucketFor sz of
        Some b \<Rightarrow>
          let (a, rest, nxt) = pool_get (bucketSize b) (stock ps b) (next_addr ps) in
          bind_outcome (reslice (slice_of a) sz)
            (\<lambda>s. Return (s, ps\<lparr>stock := (stock ps)(b := rest), next_addr := nxt\<rparr>))
      | None \<Rightarrow>
          Return (slice_of (next_addr ps, replicate (nat sz) 0),
            ps\<lparr>next_addr := Suc (next_addr ps)\<rparr>))"

definition bucketOfCap :: "nat \<Rightarrow> bucket option" where
  "bucketOfCap c =
     (if c = 512 then Some Pool512b
      else if c = 4096 then Some Pool4k
      else if c = 16 * 1024 then Some Pool16k
      else if c = 64 * 1024 then Some Pool64k
      else None)"

definition putPayloadBuffer :: "slice \<Rightarrow> pools \<Rightarrow> pools" where
  "putPayloadBuffer buf ps =
     (case bucketOfCap (scap buf) of
        Some b \<Rightarrow> ps\<lparr>stock := (stock ps)(b := (addr buf, backing buf) # stock ps b)\<rparr>
      | None \<Rightarrow> ps)"

section \<open>The contract of a buffer pool\<close>

text \<open>
  \<open>wf p\<close> says that the pool is in order and \<open>held p s\<close> that the array of \<open>s\<close> is out of it and
  belongs to whoever holds \<open>s\<close>.
\<close>

locale buffer_pool =
  fixes get :: "int \<Rightarrow> 'p \<Rightarrow> (slice \<times> 'p) outcome"
    and put :: "slice \<Rightarrow> 'p \<Rightarrow> 'p"
    and wf :: "'p \<Rightarrow> bool"
    and held :: "'p \<Rightarrow> slice \<Rightarrow> bool"
  assumes get_negative: "n < 0 \<Longrightarrow> get n p = Panic"
    and get_buffer: "wf p \<Longrightarrow> 0 \<le> n \<Longrightarrow>
      \<exists>s p'. get n p = Return (s, p') \<and> wf p' \<and> held p' s \<and> slice_ok s \<and> slen s = nat n \<and>
        (\<forall>t. held p t \<longrightarrow> held p' t \<and> addr t \<noteq> addr s)"
    and put_wf: "wf p \<Longrightarrow> held p s \<Longrightarrow> wf (put s p)"
    and put_held: "held p t \<Longrightarrow> addr t \<noteq> addr s \<Longrightarrow> held (put s p) t"
    and held_addr: "held p s \<Longrightarrow> addr t = addr s \<Longrightarrow> held p t"
begin

text \<open>
  The growth step of the assembler and of \<open>PooledWriter\<close>: take a larger buffer, copy, put
  the old one back, cut the new one to the old length.  Nobody else's buffer is touched.
\<close>

lemma grow:
  assumes "wf p" "held p old" "slice_ok old" "slen old \<le> n"
  obtains nb p' where "get (int n) p = Return (nb, p')"
    and "wf (put old p')" and "held (put old p') nb" and "slice_ok nb" and "slen nb = n"
    and "content ((copy_at nb 0 (content old))\<lparr>slen := slen old\<rparr>) = content old"
    and "\<And>t. held p t \<Longrightarrow> addr t \<noteq> addr old \<Longrightarrow> held (put old p') t \<and> addr t \<noteq> addr nb"
proof -
  obtain nb p' where nb: "get (int n) p = Return (nb, p')" "wf p'" "held p' nb" "slice_ok nb"
    "slen nb = n" and other: "\<And>t. held p t \<Longrightarrow> held p' t \<and> addr t \<noteq> addr nb"
    using get_buffer [OF assms(1), of "int n"] by auto
  have "held p' old" "addr old \<noteq> addr nb" using other [OF assms(2)] by auto
  show thesis
  proof
    show "wf (put old p')" using nb(2) \<open>held p' old\<close> by (rule put_wf)
    show "held (put old p') nb" using nb(3) \<open>addr old \<noteq> addr nb\<close> by (intro put_held) simp_all
    show "content ((copy_at nb 0 (content old))\<lparr>slen := slen old\<rparr>) = content old"
      using assms nb by (intro content_copy_grow) simp_all
    show "held (put old p') t \<and> addr t \<noteq> addr nb" if "held p t" "addr t \<noteq> addr old" for t
      using other [OF that(1)] that(2) by (simp add: put_held)
  qed (use nb in simp_all)
qed

end

section \<open>The pools keep the contract\<close>

definition pooled :: "pools \<Rightarrow> array list" where
  "pooled ps = stock ps Pool512b @ stock ps Pool4k @ stock ps Pool16k @ stock ps Pool64k"

definition sizes_ok :: "pools \<Rightarrow> bool" where
  "sizes_ok ps \<longleftrightarrow>
     list_all (\<lambda>b. list_all (\<lambda>a. length (snd a) = bucketSize b) (stock ps b))
       [Pool512b, Pool4k, Pool16k, Pool64k]"

text \<open>
  Every bucket holds arrays of its size, no array is in the pools twice, and addresses still to be
  given out are new.
\<close>

definition pools_wf :: "pools \<Rightarrow> bool" where
  "pools_wf ps \<longleftrightarrow> sizes_ok ps \<and> distinct (map fst (pooled ps)) \<and>
     list_all (\<lambda>a. fst a < next_addr ps) (pooled ps)"

definition pool_held :: "pools \<Rightarrow> slice \<Rightarrow> bool" where
  "pool_held ps s \<longleftrightarrow> addr s < next_addr ps \<and> addr s \<notin> set (map fst (pooled ps))"

definition with_stock :: "pools \<Rightarrow> bucket \<Rightarrow> array list \<Rightarrow> nat \<Rightarrow> pools" where
  "with_stock ps b arrays nxt = ps\<lparr>stock := (stock ps)(b := arrays), next_addr := nxt\<rparr>"

lemma sizes_ok_iff: "sizes_ok ps \<longleftrightarrow> (\<forall>b. \<forall>a \<in> set (stock ps b). length (snd a) = bucketSize b)"
proof -
  have "(\<forall>b. P b) \<longleftrightarrow> P Pool512b \<and> P Pool4k \<and> P Pool16k \<and> P Pool64k" for P
    by (metis bucket.exhaust)
  then show ?thesis by (simp add: sizes_ok_def list_all_iff)
qed

lemma with_stock_same: "with_stock ps b (stock ps b) (next_addr ps) = ps"
  by (simp add: with_stock_def)

lemma pooled_Cons: "mset (pooled (with_stock ps b (a # arrays) n)) =
    add_mset a (mset (pooled (with_stock ps b arrays n)))"
  by (cases b) (simp_all add: pooled_def with_stock_def)

lemma pooled_set_Cons: "set (pooled (with_stock ps b (a # arrays) n)) =
    insert a (set (pooled (with_stock ps b arrays n)))"
  using pooled_Cons by (metis set_mset_mset set_mset_add_mset_insert)

text \<open>Moving one array out of a bucket, or into it.\<close>

lemma pools_wf_Cons:
  "pools_wf (with_stock ps b (a # arrays) n) \<longleftrightarrow>
     pools_wf (with_stock ps b arrays n) \<and> length (snd a) = bucketSize b \<and> fst a < n \<and>
     fst a \<notin> set (map fst (pooled (with_stock ps b arrays n)))"
proof -
  let ?new = "pooled (with_stock ps b (a # arrays) n)" and ?old = "pooled (with_stock ps b arrays n)"
  have "mset (map fst ?new) = mset (map fst (a # ?old))"
    using pooled_Cons [of ps b a arrays n] by (metis mset.simps(2) mset_map)
  then have "distinct (map fst ?new) \<longleftrightarrow> fst a \<notin> set (map fst ?old) \<and> distinct (map fst ?old)"
    by (metis mset_eq_imp_distinct_iff distinct.simps(2) list.simps(9))
  moreover have "list_all (\<lambda>a. fst a < n) ?new \<longleftrightarrow> fst a < n \<and> list_all (\<lambda>a. fst a < n) ?old"
    by (simp add: list_all_iff pooled_set_Cons)
  moreover have "sizes_ok (with_stock ps b (a # arrays) n) \<longleftrightarrow>
      length (snd a) = bucketSize b \<and> sizes_ok (with_stock ps b arrays n)"
    by (auto simp: sizes_ok_iff with_stock_def)
  ultimately show ?thesis
    by (auto simp: pools_wf_def with_stock_def)
qed

lemma pools_wf_next: "pools_wf ps \<Longrightarrow> n \<ge> next_addr ps \<Longrightarrow> pools_wf (ps\<lparr>next_addr := n\<rparr>)"
proof -
  assume "pools_wf ps" "n \<ge> next_addr ps"
  moreover have "pooled (ps\<lparr>next_addr := n\<rparr>) = pooled ps" "sizes_ok (ps\<lparr>next_addr := n\<rparr>) = sizes_ok ps"
    by (simp_all add: pooled_def sizes_ok_def)
  ultimately show ?thesis
    by (auto simp: pools_wf_def list_all_iff intro: less_le_trans)
qed

lemma bucketFor_size: "bucketFor n = Some b \<Longrightarrow> n \<le> int (bucketSize b)"
  by (auto simp: bucketFor_def split: if_splits)

lemma bucketOfCap_size: "bucketOfCap c = Some b \<Longrightarrow> c = bucketSize b"
  by (auto simp: bucketOfCap_def split: if_splits)

lemma reslice_slice_of [simp]:
  "reslice (slice_of a) n =
     (if 0 \<le> n \<and> n \<le> int (length (snd a)) then Return ((slice_of a)\<lparr>slen := nat n\<rparr>) else Panic)"
  by (simp add: reslice_def scap_def slice_of_def)

lemma slice_of_fields [simp]:
  "addr (slice_of a) = fst a" "backing (slice_of a) = snd a" "slen (slice_of a) = length (snd a)"
  by (simp_all add: slice_of_def)

lemma getPayloadBuffer_negative: "n < 0 \<Longrightarrow> getPayloadBuffer n ps = Panic"
  by (simp add: getPayloadBuffer_def bucketFor_def split: prod.split)

text \<open>Taking an array: it comes from the pools or it is new, and the pools are without it after.\<close>

lemma getPayloadBuffer_Return:
  assumes wf: "pools_wf ps" and n: "0 \<le> n"
  obtains a ps' where "getPayloadBuffer n ps = Return ((slice_of a)\<lparr>slen := nat n\<rparr>, ps')"
    and "nat n \<le> length (snd a)" and "pools_wf ps'" and "next_addr ps \<le> next_addr ps'"
    and "fst a < next_addr ps'" and "fst a \<notin> set (map fst (pooled ps'))"
    and "fst a = next_addr ps \<or> fst a \<in> set (map fst (pooled ps))"
    and "set (pooled ps') \<subseteq> set (pooled ps)"
proof (cases "bucketFor n")
  case None
  have new: "next_addr ps \<notin> set (map fst (pooled ps))"
    using wf by (auto simp: pools_wf_def list_all_iff)
  show thesis
  proof (rule that [of "(next_addr ps, replicate (nat n) 0)" "ps\<lparr>next_addr := Suc (next_addr ps)\<rparr>"])
    show "pools_wf (ps\<lparr>next_addr := Suc (next_addr ps)\<rparr>)"
      using wf by (rule pools_wf_next) simp
  qed (use None new in \<open>simp_all add: getPayloadBuffer_def pooled_def slice_of_def\<close>)
next
  case (Some b)
  note size = bucketFor_size [OF Some]
  show thesis
  proof (cases "stock ps b")
    case Nil
    let ?ps' = "ps\<lparr>next_addr := Suc (next_addr ps)\<rparr>"
    have new: "next_addr ps \<notin> set (map fst (pooled ps))"
      using wf by (auto simp: pools_wf_def list_all_iff)
    have stock: "(stock ps)(b := []) = stock ps" using Nil by auto
    show thesis
    proof (rule that [of "(next_addr ps, replicate (bucketSize b) 0)" ?ps'])
      show "pools_wf ?ps'" using wf by (rule pools_wf_next) simp
    qed (use Some Nil new size n stock in
        \<open>simp_all add: getPayloadBuffer_def pool_get_def pooled_def\<close>)
  next
    case (Cons a rest)
    let ?ps' = "with_stock ps b rest (next_addr ps)"
    have "pools_wf (with_stock ps b (a # rest) (next_addr ps))"
      using wf with_stock_same [of ps b] Cons by simp
    then have wf': "pools_wf ?ps'" "length (snd a) = bucketSize b" "fst a < next_addr ps"
      "fst a \<notin> set (map fst (pooled ?ps'))"
      by (simp_all add: pools_wf_Cons)
    have set: "set (pooled ps) = insert a (set (pooled ?ps'))"
      using pooled_set_Cons [of ps b a rest "next_addr ps"] with_stock_same [of ps b] Cons by simp
    show thesis
    proof (rule that [of a ?ps'])
      show "getPayloadBuffer n ps = Return ((slice_of a)\<lparr>slen := nat n\<rparr>, ?ps')"
        using Some Cons size n wf'(2) by (simp add: getPayloadBuffer_def pool_get_def with_stock_def)
    qed (use wf' set size n in \<open>auto simp: with_stock_def\<close>)
  qed
qed

interpretation payload: buffer_pool getPayloadBuffer putPayloadBuffer pools_wf pool_held
proof unfold_locales
  show "getPayloadBuffer n ps = Panic" if "n < 0" for n ps
    using that by (rule getPayloadBuffer_negative)
  show "\<exists>s p'. getPayloadBuffer n p = Return (s, p') \<and> pools_wf p' \<and> pool_held p' s \<and>
      slice_ok s \<and> slen s = nat n \<and> (\<forall>t. pool_held p t \<longrightarrow> pool_held p' t \<and> addr t \<noteq> addr s)"
    if "pools_wf p" "0 \<le> n" for p n
    using that
  proof (rule getPayloadBuffer_Return)
    fix a p'
    assume "getPayloadBuffer n p = Return ((slice_of a)\<lparr>slen := nat n\<rparr>, p')"
      "nat n \<le> length (snd a)" "pools_wf p'" "next_addr p \<le> next_addr p'" "fst a < next_addr p'"
      "fst a \<notin> set (map fst (pooled p'))"
      "fst a = next_addr p \<or> fst a \<in> set (map fst (pooled p))"
      "set (pooled p') \<subseteq> set (pooled p)"
    then show ?thesis
      by (intro exI [of _ "(slice_of a)\<lparr>slen := nat n\<rparr>"] exI [of _ p'])
        (auto simp: pool_held_def slice_ok_def scap_def image_iff)
  qed
  show "pools_wf (putPayloadBuffer s p)" if "pools_wf p" "pool_held p s" for p s
  proof (cases "bucketOfCap (scap s)")
    case (Some b)
    let ?a = "(addr s, backing s)"
    have "putPayloadBuffer s p = with_stock p b (?a # stock p b) (next_addr p)"
      using Some by (simp add: putPayloadBuffer_def with_stock_def)
    with that Some show ?thesis
      by (simp add: pools_wf_Cons with_stock_same pool_held_def scap_def bucketOfCap_size)
  qed (use that in \<open>simp add: putPayloadBuffer_def\<close>)
  show "pool_held (putPayloadBuffer s p) t" if "pool_held p t" "addr t \<noteq> addr s" for p s t
  proof (cases "bucketOfCap (scap s)")
    case (Some b)
    let ?a = "(addr s, backing s)"
    have "putPayloadBuffer s p = with_stock p b (?a # stock p b) (next_addr p)"
      using Some by (simp add: putPayloadBuffer_def with_stock_def)
    moreover have "next_addr (with_stock p b xs n) = n" for xs n by (simp add: with_stock_def)
    ultimately show ?thesis
      using that by (simp add: pool_held_def pooled_set_Cons with_stock_same)
  qed (use that in \<open>simp add: putPayloadBuffer_def\<close>)
  show "pool_held p t" if "pool_held p s" "addr t = addr s" for p s t
    using that by (simp add: pool_held_def)
qed

section \<open>PooledWriter\<close>

text \<open>
  \<open>PooledWriter.Write\<close> on the writer's buffer and the pools.  It always reports \<open>len(data)\<close> bytes
  written and no error, so that only the buffer and the pools are returned.
\<close>

definition PooledWriter_Write :: "bytes \<Rightarrow> slice \<times> pools \<Rightarrow> (slice \<times> pools) outcome" where
  "PooledWriter_Write data = (\<lambda>(buf, ps).
     let required = slen buf + length data in
     bind_outcome
       (if scap buf < required then
          let newCap = (if scap buf * 2 < required then required else scap buf * 2) in
          bind_outcome (getPayloadBuffer (int newCap) ps) (\<lambda>(newBuf, ps).
            let newBuf = copy_at newBuf 0 (content buf);
                oldCap = scap buf;
                ps = (if oldCap \<ge> 512 \<and> oldCap \<le> 64 * 1024 then putPayloadBuffer buf ps else ps)
            in bind_outcome (reslice newBuf (int (slen buf))) (\<lambda>buf. Return (buf, ps)))
        else Return (buf, ps))
       (\<lambda>(buf, ps).
          let currentLen = slen buf in
          bind_outcome (reslice buf (int (currentLen + length data))) (\<lambda>buf.
            Return (copy_at buf currentLen data, ps))))"

fun PooledWriter_writes :: "bytes list \<Rightarrow> slice \<times> pools \<Rightarrow> (slice \<times> pools) outcome" where
  "PooledWriter_writes [] w = Return w"
| "PooledWriter_writes (data # rest) w =
     bind_outcome (PooledWriter_Write data w) (PooledWriter_writes rest)"

text \<open>A buffer together with the pools it came from.\<close>

definition owned :: "slice \<times> pools \<Rightarrow> bool" where
  "owned w \<longleftrightarrow> pools_wf (snd w) \<and> pool_held (snd w) (fst w) \<and> slice_ok (fst w)"

text \<open>Buffers of others stay theirs: they are not in the pools and not the array of \<open>w'\<close>.\<close>

definition undisturbed :: "slice \<times> pools \<Rightarrow> slice \<times> pools \<Rightarrow> bool" where
  "undisturbed w w' \<longleftrightarrow>
     (\<forall>t. pool_held (snd w) t \<longrightarrow> addr t \<noteq> addr (fst w) \<longrightarrow>
        pool_held (snd w') t \<and> addr t \<noteq> addr (fst w'))"

lemma reslice_Return: "n \<le> scap s \<Longrightarrow> reslice s (int n) = Return (s\<lparr>slen := n\<rparr>)"
  by (simp add: reslice_def)

lemma reslice_append:
  assumes "slice_ok s" "slen s + length p \<le> scap s"
  shows "bind_outcome (reslice s (int (slen s + length p))) (\<lambda>s'. Return (copy_at s' (slen s) p, ps)) =
      Return (copy_at (s\<lparr>slen := slen s + length p\<rparr>) (slen s) p, ps)"
  using reslice_Return [OF assms(2)] by simp

lemma slice_ok_grown: "slice_ok s \<Longrightarrow> n \<le> scap s \<Longrightarrow> slice_ok (s\<lparr>slen := n\<rparr>)"
  by (simp add: slice_ok_def)

text \<open>
  Growing to at least \<open>required\<close> bytes by any rule that gives a size \<open>newCap\<close> of at least that, and
  giving the old buffer back or leaving it to the garbage collector (\<open>give\<close>).
\<close>

lemma grow_owned:
  assumes "owned (buf, ps)" "slen buf \<le> n"
  obtains nb ps' where "getPayloadBuffer (int n) ps = Return (nb, ps')"
    and "let w = ((copy_at nb 0 (content buf))\<lparr>slen := slen buf\<rparr>,
                  if give then putPayloadBuffer buf ps' else ps')
         in owned w \<and> undisturbed (buf, ps) w \<and> content (fst w) = content buf \<and> n \<le> scap (fst w)"
    and "slen buf \<le> scap (copy_at nb 0 (content buf))"
proof -
  from assms have own: "pools_wf ps" "pool_held ps buf" "slice_ok buf"
    by (simp_all add: owned_def)
  show thesis
  proof (rule payload.grow [OF own assms(2)])
    fix nb ps'
    assume nb: "getPayloadBuffer (int n) ps = Return (nb, ps')"
      "pools_wf (putPayloadBuffer buf ps')" "pool_held (putPayloadBuffer buf ps') nb"
      "slice_ok nb" "slen nb = n"
      "content ((copy_at nb 0 (content buf))\<lparr>slen := slen buf\<rparr>) = content buf"
      and other: "\<And>t. pool_held ps t \<Longrightarrow> addr t \<noteq> addr buf \<Longrightarrow>
        pool_held (putPayloadBuffer buf ps') t \<and> addr t \<noteq> addr nb"
    obtain nb' ps'' where "getPayloadBuffer (int n) ps = Return (nb', ps'')" "pools_wf ps''"
      "pool_held ps'' nb'" "\<forall>t. pool_held ps t \<longrightarrow> pool_held ps'' t \<and> addr t \<noteq> addr nb'"
      using payload.get_buffer [OF own(1), of "int n"] by auto
    with nb(1) have keep: "pools_wf ps'" "pool_held ps' nb"
      "\<And>t. pool_held ps t \<Longrightarrow> pool_held ps' t \<and> addr t \<noteq> addr nb"
      by simp_all
    have cap: "slen buf \<le> scap nb" "n \<le> scap nb"
      using nb(4,5) assms(2) by (simp_all add: slice_ok_def)
    let ?grown = "(copy_at nb 0 (content buf))\<lparr>slen := slen buf\<rparr>"
    have grown: "slice_ok ?grown" "addr ?grown = addr nb" "scap ?grown = scap nb"
      using nb(4) cap by (simp_all add: slice_ok_grown)
    have "pool_held q ?grown" if "pool_held q nb" for q
      using that by (rule payload.held_addr) simp
    with nb keep grown other cap show thesis
      by (intro that [OF nb(1)]) (auto simp: owned_def undisturbed_def)
  qed
qed

lemma PooledWriter_Write_append:
  assumes "owned w"
  obtains w' where "PooledWriter_Write data w = Return w'" "owned w'" "undisturbed w w'"
    "content (fst w') = content (fst w) @ data"
proof -
  note result = that
  obtain buf ps where w: "w = (buf, ps)" by (cases w)
  let ?required = "slen buf + length data"
  have append: thesis
    if "owned (b, q)" "undisturbed (buf, ps) (b, q)" "content b = content buf" "slen b = slen buf"
      "?required \<le> scap b"
      "PooledWriter_Write data w = bind_outcome (reslice b (int ?required))
         (\<lambda>b'. Return (copy_at b' (slen buf) data, q))" for b q
  proof -
    let ?b' = "copy_at (b\<lparr>slen := slen buf + length data\<rparr>) (slen buf) data"
    have ok: "slice_ok b" using that(1) by (simp add: owned_def)
    have "PooledWriter_Write data w = Return (?b', q)"
      using that(4,5,6) reslice_append [OF ok, of data q] by simp
    moreover have "content ?b' = content buf @ data"
      using content_append_in_place [OF ok, of data] that(3,4,5) by simp
    moreover have "slice_ok ?b'"
      using slice_ok_grown [OF ok that(5)] by simp
    moreover have "pool_held q ?b'"
      using that(1) payload.held_addr [of q b ?b'] by (simp add: owned_def)
    ultimately show thesis
      using assms that(1,2) by (intro result [of "(?b', q)"])
        (simp_all add: w owned_def undisturbed_def)
  qed
  show thesis
  proof (cases "scap buf < ?required")
    case True
    let ?newCap = "if scap buf * 2 < ?required then ?required else scap buf * 2"
    let ?give = "scap buf \<ge> 512 \<and> scap buf \<le> 64 * 1024"
    have "slen buf \<le> ?newCap" "?required \<le> ?newCap" by auto
    obtain nb ps' where nb: "getPayloadBuffer (int ?newCap) ps = Return (nb, ps')"
      "let w = ((copy_at nb 0 (content buf))\<lparr>slen := slen buf\<rparr>,
                if ?give then putPayloadBuffer buf ps' else ps')
       in owned w \<and> undisturbed (buf, ps) w \<and> content (fst w) = content buf \<and> ?newCap \<le> scap (fst w)"
      "slen buf \<le> scap (copy_at nb 0 (content buf))"
      using grow_owned [OF _ \<open>slen buf \<le> ?newCap\<close>] assms w by metis
    show thesis
    proof (rule append)
      show "PooledWriter_Write data w = bind_outcome
          (reslice ((copy_at nb 0 (content buf))\<lparr>slen := slen buf\<rparr>) (int ?required))
          (\<lambda>b'. Return (copy_at b' (slen buf) data, if ?give then putPayloadBuffer buf ps' else ps'))"
        using True nb(1) reslice_Return [OF nb(3)] by (simp add: PooledWriter_Write_def w Let_def)
    qed (use nb(2) \<open>?required \<le> ?newCap\<close> in \<open>simp_all add: Let_def\<close>)
  next
    case False
    then show thesis
      using assms by (intro append [of buf ps])
        (simp_all add: w PooledWriter_Write_def Let_def undisturbed_def)
  qed
qed

lemma undisturbed_refl: "undisturbed w w"
  by (simp add: undisturbed_def)

lemma undisturbed_trans: "undisturbed w w' \<Longrightarrow> undisturbed w' w'' \<Longrightarrow> undisturbed w w''"
  by (auto simp: undisturbed_def)

lemma pooled_writes_append:
  assumes "owned w"
  shows "\<exists>w'. PooledWriter_writes datas w = Return w' \<and> owned w' \<and> undisturbed w w' \<and>
    content (fst w') = content (fst w) @ concat datas"
  using assms
proof (induction datas arbitrary: w)
  case Nil
  then show ?case by (simp add: undisturbed_refl)
next
  case (Cons data datas)
  from Cons.prems obtain w1 where w1: "PooledWriter_Write data w = Return w1" "owned w1"
    "undisturbed w w1" "content (fst w1) = content (fst w) @ data"
    by (rule PooledWriter_Write_append)
  from Cons.IH [OF w1(2)] w1 show ?case
    by (auto intro: undisturbed_trans)
qed

section \<open>Properties\<close>

definition empty_pools :: pools where
  "empty_pools = \<lparr>stock = (\<lambda>_. []), next_addr = 0\<rparr>"

text \<open>
  C16: \<open>getPayloadBuffer\<close> never hands out a buffer somebody else still holds: for every size that is
  not negative it returns a slice of exactly that size whose array is in no pool any more and
  is not the array of any buffer held before, and the pools stay in order.
\<close>

theorem payload_buffer_exclusive:
  assumes "pools_wf ps" "0 \<le> sz"
  shows "\<exists>s ps'. getPayloadBuffer sz ps = Return (s, ps') \<and> pools_wf ps' \<and> pool_held ps' s \<and>
    slice_ok s \<and> slen s = nat sz \<and> (\<forall>t. pool_held ps t \<longrightarrow> pool_held ps' t \<and> addr t \<noteq> addr s)"
  using assms by (rule payload.get_buffer)

theorem payload_buffer_exclusive_witness:
  "\<exists>s ps'. getPayloadBuffer 600 empty_pools = Return (s, ps') \<and> pools_wf ps' \<and> slen s = 600"
proof -
  have "pools_wf empty_pools" by code_simp
  from payload_buffer_exclusive [OF this, of 600] show ?thesis by auto
qed

text \<open>
  Returning a buffer that is held keeps the pools in order and leaves the buffers of others
  alone; so every sequence of gets and puts in which each buffer is put back at most once
  keeps the pools free of duplicates.
\<close>

theorem payload_buffer_return:
  assumes "pools_wf ps" "pool_held ps s"
  shows "pools_wf (putPayloadBuffer s ps) \<and>
    (\<forall>t. pool_held ps t \<and> addr t \<noteq> addr s \<longrightarrow> pool_held (putPayloadBuffer s ps) t)"
  using payload.put_wf [OF assms] payload.put_held by blast

theorem payload_buffer_return_witness:
  "pools_wf (putPayloadBuffer (slice_of (0, replicate 512 0)) (empty_pools\<lparr>next_addr := 1\<rparr>))"
proof -
  have "pools_wf (empty_pools\<lparr>next_addr := 1\<rparr>)" by code_simp
  moreover have "pool_held (empty_pools\<lparr>next_addr := 1\<rparr>) (slice_of (0, replicate 512 0))"
    by code_simp
  ultimately show ?thesis using payload_buffer_return by blast
qed

text \<open>
  A \<open>PooledWriter\<close> never panics and loses nothing: after any sequence of writes its buffer holds
  the old content followed by all the data, however often it had to grow through the
  buckets, and no buffer of anybody else is touched.
\<close>

theorem pooled_writer_appends:
  assumes "owned w"
  shows "\<exists>w'. PooledWriter_writes datas w = Return w' \<and> owned w' \<and> undisturbed w w' \<and>
    content (fst w') = content (fst w) @ concat datas"
  using assms by (rule pooled_writes_append)

theorem pooled_writer_appends_witness:
  "\<exists>w'. PooledWriter_writes [replicate 600 1, [2, 3]]
      ((slice_of (0, replicate 512 0))\<lparr>slen := 0\<rparr>, empty_pools\<lparr>next_addr := 1\<rparr>) = Return w' \<and>
    content (fst w') = replicate 600 1 @ [2, 3]"
proof -
  have "owned ((slice_of (0, replicate 512 0))\<lparr>slen := 0\<rparr>, empty_pools\<lparr>next_addr := 1\<rparr>)"
    by code_simp
  from pooled_writer_appends [OF this, of "[replicate 600 1, [2, 3]]"] show ?thesis
    by (auto simp: content_def)
qed

end
