(* ===== verification/Ws_Compression.thy ===== *)
theory Ws_Compression
  imports Payload_Pool
begin

text \<open>
  Message compression, \<open>src/pkg/websocket/compression.go\<close>: \<open>CompressData\<close> and \<open>DecompressData\<close>
  with the pools of flate readers and writers.

  The package \<open>github.com/klauspost/compress/flate\<close> is not part of the repository: a
  \<open>flate_lib\<close> is a parameter of every definition.  What its documentation and that of
  \<open>io.Reader\<close> promise is stated by \<open>inflates\<close>, \<open>resets_readers\<close> and their kin.
\<close>

section \<open>The flate package\<close>

text \<open>
  A reader made by \<open>flate.NewReader\<close> over some input, \<open>Resetter.Reset\<close>, one call of \<open>Read\<close> on
  a buffer of \<open>n\<close> bytes (the data, the error and the reader after it) and \<open>Close\<close>; a writer at
  \<open>BestSpeed\<close>, \<open>Reset\<close>, and \<open>Write\<close> and \<open>Close\<close> with the pieces they pass to the underlying
  writer.
\<close>

record ('r, 'w) flate_lib =
  fr_new :: "bytes \<Rightarrow> 'r"
  fr_reset :: "'r \<Rightarrow> bytes \<Rightarrow> 'r"
  fr_read :: "'r \<Rightarrow> nat \<Rightarrow> bytes \<times> go_error option \<times> 'r"
  fr_close :: "'r \<Rightarrow> 'r"
  fw_new :: 'w
  fw_reset :: "'w \<Rightarrow> 'w"
  fw_write :: "'w \<Rightarrow> bytes \<Rightarrow> bytes list \<times> go_error option \<times> 'w"
  fw_close :: "'w \<Rightarrow> bytes list \<times> go_error option \<times> 'w"

text \<open>The package's mutable state: the buffer pools and the two pools of flate objects.\<close>

record ('r, 'w) comp_state =
  bufs :: pools
  flateReaderPool :: "'r list"
  flateWriterPool :: "'w list"

type_synonym ('r, 'w) comp_result = "((go_error + slice) \<times> ('r, 'w) comp_state) outcome"

definition getFlateReader ::
  "('r, 'w) flate_lib \<Rightarrow> bytes \<Rightarrow> ('r, 'w) comp_state \<Rightarrow> 'r \<times> ('r, 'w) comp_state" where
  "getFlateReader lib inp st =
     (case flateReaderPool st of
        fr # frs \<Rightarrow> (fr_reset lib fr inp, st\<lparr>flateReaderPool := frs\<rparr>)
      | [] \<Rightarrow> (fr_new lib inp, st))"

definition putFlateReader ::
  "('r, 'w) flate_lib \<Rightarrow> 'r \<Rightarrow> ('r, 'w) comp_state \<Rightarrow> ('r, 'w) comp_state" where
  "putFlateReader lib fr st = st\<lparr>flateReaderPool := fr_close lib fr # flateReaderPool st\<rparr>"

definition getFlateWriter ::
  "('r, 'w) flate_lib \<Rightarrow> ('r, 'w) comp_state \<Rightarrow> 'w \<times> ('r, 'w) comp_state" where
  "getFlateWriter lib st =
     (case flateWriterPool st of
        fw # fws \<Rightarrow> (fw_reset lib fw, st\<lparr>flateWriterPool := fws\<rparr>)
      | [] \<Rightarrow> (fw_new lib, st))"

definition putFlateWriter :: "'w \<Rightarrow> ('r, 'w) comp_state \<Rightarrow> ('r, 'w) comp_state" where
  "putFlateWriter fw st = st\<lparr>flateWriterPool := fw # flateWriterPool st\<rparr>"

section \<open>Compression\<close>

definition CompressData ::
  "('r, 'w) flate_lib \<Rightarrow> bytes \<Rightarrow> ('r, 'w) comp_state \<Rightarrow> ('r, 'w) comp_result" where
  "CompressData lib payload st =
     (let initialCap = (if length payload < 512 then 512 else length payload) in
      bind_outcome (getPayloadBuffer (int initialCap) (bufs st)) (\<lambda>(b, ps).
      bind_outcome (reslice b 0) (\<lambda>buf.
      let (fw, st) = getFlateWriter lib (st\<lparr>bufs := ps\<rparr>);
          (pieces, err, fw) = fw_write lib fw payload in
      bind_outcome (PooledWriter_writes pieces (buf, bufs st)) (\<lambda>(buf, ps).
      case err of
        Some e \<Rightarrow> Return (Inl e, putFlateWriter fw (st\<lparr>bufs := putPayloadBuffer buf ps\<rparr>))
      | None \<Rightarrow>
          let (pieces, err, fw) = fw_close lib fw in
          bind_outcome (PooledWriter_writes pieces (buf, ps)) (\<lambda>(buf, ps).
          case err of
            Some e \<Rightarrow> Return (Inl e, putFlateWriter fw (st\<lparr>bufs := putPayloadBuffer buf ps\<rparr>))
          | None \<Rightarrow> Return (Inr buf, putFlateWriter fw (st\<lparr>bufs := ps\<rparr>)))))))"

section \<open>Decompression\<close>

definition ErrDecompressedTooLarge :: go_error where
  "ErrDecompressedTooLarge = Errorf ''decompressed message too large''"

text \<open>
  The growth step of the loop: \<open>None\<close> is the exit with \<open>ErrDecompressedTooLarge\<close>.
\<close>

definition growForRead :: "int \<Rightarrow> slice \<Rightarrow> nat \<Rightarrow> pools \<Rightarrow> (slice option \<times> pools) outcome" where
  "growForRead limit buf offset ps =
     (if offset \<ge> slen buf then
        let newSize = (if limit > 0 \<and> int (slen buf * 2) > limit then limit + 1
                       else int (slen buf * 2)) in
        if newSize \<le> int (slen buf) then Return (None, putPayloadBuffer buf ps)
        else bind_outcome (getPayloadBuffer newSize ps) (\<lambda>(newBuf, ps).
               Return (Some (copy_at newBuf 0 (content buf)), putPayloadBuffer buf ps))
      else Return (Some buf, ps))"

text \<open>
  The read loop, with the reader as it is returned to its pool.  A reader may return no data and
  no error, so that the number of rounds is up to the library: the loop runs on fuel.
\<close>

fun decompressLoop ::
  "('r, 'w) flate_lib \<Rightarrow> nat \<Rightarrow> int \<Rightarrow> 'r \<Rightarrow> slice \<Rightarrow> nat \<Rightarrow> pools \<Rightarrow>
     ((go_error + slice) \<times> 'r \<times> pools) outcome" where
  "decompressLoop lib 0 limit fr buf offset ps = NoFuel"
| "decompressLoop lib (Suc fuel) limit fr buf offset ps =
     bind_outcome (growForRead limit buf offset ps) (\<lambda>(grown, ps).
     case grown of
       None \<Rightarrow> Return (Inl ErrDecompressedTooLarge, fr, ps)
     | Some buf \<Rightarrow>
         let (data, err, fr) = fr_read lib fr (slen buf - offset);
             buf = copy_at buf offset data;
             offset = offset + length data in
         if limit > 0 \<and> int offset > limit then
           Return (Inl ErrDecompressedTooLarge, fr, putPayloadBuffer buf ps)
         else case err of
                None \<Rightarrow> decompressLoop lib fuel limit fr buf offset ps
              | Some e \<Rightarrow>
                  if e = EOF then
                    bind_outcome (reslice buf (int offset)) (\<lambda>buf. Return (Inr buf, fr, ps))
                  else Return (Inl e, fr, putPayloadBuffer buf ps))"

definition DecompressData ::
  "('r, 'w) flate_lib \<Rightarrow> nat \<Rightarrow> bytes \<Rightarrow> int \<Rightarrow> ('r, 'w) comp_state \<Rightarrow> ('r, 'w) comp_result" where
  "DecompressData lib fuel payload limit st =
     (let (fr, st) = getFlateReader lib (payload @ [0, 0, 255, 255]) st;
          initialSize = (if length payload * 2 < 4096 then 4096 else length payload * 2) in
      bind_outcome (getPayloadBuffer (int initialSize) (bufs st)) (\<lambda>(buf, ps).
      bind_outcome (decompressLoop lib fuel limit fr buf 0 ps) (\<lambda>(r, fr, ps).
      Return (r, putFlateReader lib fr (st\<lparr>bufs := ps\<rparr>)))))"

section \<open>What the flate package promises\<close>

text \<open>
  A reader stands for a sequence of bytes \<open>rest\<close> and the error \<open>final\<close> it reports after them:
  \<open>io.EOF\<close> for well-formed deflate data, something else for corrupt data.  \<open>Read\<close> into a buffer that
  is not empty gives the next bytes, at least one unless it reports an error, and reports the
  final error only when no bytes are left.
\<close>

definition inflates :: "('r, 'w) flate_lib \<Rightarrow> ('r \<Rightarrow> go_error) \<Rightarrow> ('r \<Rightarrow> bytes) \<Rightarrow> bool" where
  "inflates lib final rest \<longleftrightarrow>
     (\<forall>r n. 0 < n \<longrightarrow>
        (case fr_read lib r n of
           (data, err, r') \<Rightarrow>
             length data \<le> n \<and> final r' = final r \<and> rest r = data @ rest r' \<and>
             (err = None \<and> data \<noteq> [] \<or> err = Some (final r) \<and> rest r' = [])))"

text \<open>\<open>Reset\<close> makes a reader equivalent to a new one.\<close>

definition resets_readers :: "('r, 'w) flate_lib \<Rightarrow> ('r \<Rightarrow> go_error) \<Rightarrow> ('r \<Rightarrow> bytes) \<Rightarrow> bool" where
  "resets_readers lib final rest \<longleftrightarrow>
     (\<forall>r inp. final (fr_reset lib r inp) = final (fr_new lib inp) \<and>
        rest (fr_reset lib r inp) = rest (fr_new lib inp))"

lemma inflates_read:
  assumes "inflates lib final rest" "0 < n"
  obtains data err r' where "fr_read lib r n = (data, err, r')" "length data \<le> n" "final r' = final r"
    "rest r = data @ rest r'" "err = None \<and> data \<noteq> [] \<or> err = Some (final r) \<and> rest r' = []"
proof -
  obtain data err r' where read: "fr_read lib r n = (data, err, r')" by (metis prod_cases3)
  from assms(1) [unfolded inflates_def, rule_format, of n r] assms(2) read
  show thesis by (intro that [OF read]) simp_all
qed

section \<open>The read loop\<close>

lemma growForRead_room:
  assumes own: "owned (buf, ps)" and offset: "offset \<le> slen buf" "0 < slen buf"
    and limit: "0 < limit \<longrightarrow> int offset \<le> limit"
  obtains b q where "growForRead limit buf offset ps = Return (Some b, q)" "owned (b, q)"
    "undisturbed (buf, ps) (b, q)" "offset < slen b" "take offset (content b) = take offset (content buf)"
proof (cases "offset \<ge> slen buf")
  case False
  with own show thesis by (intro that [of buf ps]) (simp_all add: growForRead_def undisturbed_refl)
next
  case True
  then have full: "offset = slen buf" using offset(1) by simp
  define n where "n = (if limit > 0 \<and> int (slen buf * 2) > limit then nat limit + 1 else slen buf * 2)"
  have newSize: "(if limit > 0 \<and> int (slen buf * 2) > limit then limit + 1 else int (slen buf * 2)) = int n"
    and bigger: "slen buf < n"
    using limit offset(2) full by (auto simp: n_def)
  have "pools_wf ps" "pool_held ps buf" and ok: "slice_ok buf" and "slen buf \<le> n"
    using own bigger by (simp_all add: owned_def)
  then show thesis
  proof (rule payload.grow)
    fix nb p'
    assume nb: "getPayloadBuffer (int n) ps = Return (nb, p')"
      "pools_wf (putPayloadBuffer buf p')" "pool_held (putPayloadBuffer buf p') nb"
      "slice_ok nb" "slen nb = n"
      "content ((copy_at nb 0 (content buf))\<lparr>slen := slen buf\<rparr>) = content buf"
      "\<And>t. pool_held ps t \<Longrightarrow> addr t \<noteq> addr buf \<Longrightarrow>
        pool_held (putPayloadBuffer buf p') t \<and> addr t \<noteq> addr nb"
    let ?b = "copy_at nb 0 (content buf)" and ?q = "putPayloadBuffer buf p'"
    have "growForRead limit buf offset ps = Return (Some ?b, ?q)"
      using True newSize bigger nb(1) by (simp add: growForRead_def Let_def)
    moreover have "owned (?b, ?q)"
      using nb payload.held_addr [OF nb(3), of ?b] by (simp add: owned_def)
    moreover have "take offset (content ?b) = take offset (content buf)"
    proof -
      have "take (slen buf) (content ?b) = content buf"
        using nb(5,6) bigger by (simp add: content_def [of ?b] content_def [of "?b\<lparr>slen := slen buf\<rparr>"])
      with full ok show ?thesis by simp
    qed
    ultimately show thesis
      using nb(5,7) bigger full by (intro that [of ?b ?q]) (simp_all add: undisturbed_def)
  qed
qed

text \<open>Reading one piece into the free space behind \<open>offset\<close>.\<close>

lemma take_content_copy_at:
  assumes "slice_ok b" "offset + length data \<le> slen b"
  shows "take (offset + length data) (content (copy_at b offset data)) = take offset (content b) @ data"
  using assms by (simp add: content_def copy_at_def Let_def slice_ok_def scap_def)

lemma owned_copy_at:
  assumes "owned (b, q)" "offset \<le> slen b"
  shows "owned (copy_at b offset data, q)"
  using assms payload.held_addr [of q b "copy_at b offset data"] by (simp add: owned_def)

text \<open>
  With more fuel than plain bytes left the loop returns: the data read so far followed by the rest
  of the plain data, or the size error exactly when that is over the limit.
\<close>

lemma decompressLoop_exact:
  assumes "inflates lib final rest"
  shows "owned (buf, ps) \<Longrightarrow> offset \<le> slen buf \<Longrightarrow> 0 < slen buf \<Longrightarrow> (0 < limit \<longrightarrow> int offset \<le> limit) \<Longrightarrow>
    length (rest fr) < fuel \<Longrightarrow>
    \<exists>r fr' q. decompressLoop lib fuel limit fr buf offset ps = Return (r, fr', q) \<and> pools_wf q \<and>
      (\<forall>t. pool_held ps t \<longrightarrow> addr t \<noteq> addr buf \<longrightarrow> pool_held q t) \<and>
      (if 0 < limit \<and> limit < int (offset + length (rest fr)) then r = Inl ErrDecompressedTooLarge
       else if final fr \<noteq> EOF then r = Inl (final fr)
       else \<exists>b. r = Inr b \<and> owned (b, q) \<and> undisturbed (buf, ps) (b, q) \<and>
              content b = take offset (content buf) @ rest fr)"
proof (induction fuel arbitrary: fr buf offset ps)
  case 0
  then show ?case by simp
next
  case (Suc fuel)
  from Suc.prems(1-4) obtain b q where grow: "growForRead limit buf offset ps = Return (Some b, q)"
    "owned (b, q)" "undisturbed (buf, ps) (b, q)" "offset < slen b"
    "take offset (content b) = take offset (content buf)"
    by (rule growForRead_room)
  from assms obtain data err fr' where read: "fr_read lib fr (slen b - offset) = (data, err, fr')"
    "length data \<le> slen b - offset" "final fr' = final fr" "rest fr = data @ rest fr'"
    "err = None \<and> data \<noteq> [] \<or> err = Some (final fr) \<and> rest fr' = []"
    by (rule inflates_read [of _ _ _ "slen b - offset"]) (use grow(4) in simp)
  let ?b = "copy_at b offset data" and ?o = "offset + length data"
  have ok: "slice_ok b" using grow(2) by (simp add: owned_def)
  have len: "?o \<le> slen b" using read(2) grow(4) by simp
  have own: "owned (?b, q)" using grow(2,4) by (intro owned_copy_at) simp_all
  have read_so_far: "take ?o (content ?b) = take offset (content buf) @ data"
    using take_content_copy_at [OF ok len] grow(5) by simp
  have und: "undisturbed (buf, ps) (?b, q)" using grow(3) by (simp add: undisturbed_def)
  then have other: "\<forall>t. pool_held ps t \<longrightarrow> addr t \<noteq> addr buf \<longrightarrow> pool_held q t \<and> addr t \<noteq> addr ?b"
    by (simp add: undisturbed_def)
  show ?case
  proof (cases "limit > 0 \<and> int ?o > limit")
    case True
    then have "decompressLoop lib (Suc fuel) limit fr buf offset ps =
        Return (Inl ErrDecompressedTooLarge, fr', putPayloadBuffer ?b q)"
      by (simp add: grow(1) read(1) Let_def)
    moreover have "pools_wf (putPayloadBuffer ?b q)"
      using own by (simp add: owned_def payload.put_wf)
    moreover have "limit < int (offset + length (rest fr))" using True read(4) by simp
    ultimately show ?thesis using True other payload.put_held by auto
  next
    case False
    show ?thesis
    proof (cases err)
      case None
      have "length (rest fr') < fuel" using Suc.prems(5) read(4,5) None by (cases data) auto
      from Suc.IH [OF own _ _ _ this, of ?o] len grow(4) False
      obtain r fr'' q' where IH: "decompressLoop lib fuel limit fr' ?b ?o q = Return (r, fr'', q')"
        "pools_wf q'" "\<forall>t. pool_held q t \<longrightarrow> addr t \<noteq> addr ?b \<longrightarrow> pool_held q' t"
        "if 0 < limit \<and> limit < int (?o + length (rest fr')) then r = Inl ErrDecompressedTooLarge
         else if final fr' \<noteq> EOF then r = Inl (final fr')
         else \<exists>b. r = Inr b \<and> owned (b, q') \<and> undisturbed (?b, q) (b, q') \<and>
                content b = take ?o (content ?b) @ rest fr'"
        by auto
      have "decompressLoop lib (Suc fuel) limit fr buf offset ps = Return (r, fr'', q')"
        using False None IH(1) by (auto simp: grow(1) read(1) Let_def)
      with IH(2-4) other und show ?thesis
        by (auto simp: read(3,4) read_so_far add.assoc intro: undisturbed_trans split: if_splits)
    next
      case (Some e)
      with read(5) have e: "e = final fr" "rest fr' = []" by auto
      have wf: "pools_wf q" using grow(2) by (simp add: owned_def)
      show ?thesis
      proof (cases "final fr = EOF")
        case True
        have cap: "?o \<le> scap ?b" using len ok grow(4) by (simp add: slice_ok_def)
        have "decompressLoop lib (Suc fuel) limit fr buf offset ps = Return (Inr (?b\<lparr>slen := ?o\<rparr>), fr', q)"
          using False Some e True reslice_Return [OF cap] by (simp add: grow(1) read(1) Let_def)
        moreover have "owned (?b\<lparr>slen := ?o\<rparr>, q)"
          using own cap payload.held_addr [of q ?b "?b\<lparr>slen := ?o\<rparr>"]
          by (simp add: owned_def slice_ok_def)
        moreover have "content (?b\<lparr>slen := ?o\<rparr>) = take offset (content buf) @ rest fr"
          using read_so_far len read(4) e(2) by (simp add: content_def)
        ultimately show ?thesis
          using False True und other read(4) e(2) wf by (auto simp: undisturbed_def)
      next
        case bad: False
        then have "decompressLoop lib (Suc fuel) limit fr buf offset ps =
            Return (Inl (final fr), fr', putPayloadBuffer ?b q)"
          using False Some e by (auto simp: grow(1) read(1) Let_def)
        moreover have "pools_wf (putPayloadBuffer ?b q)"
          using own by (simp add: owned_def payload.put_wf)
        ultimately show ?thesis
          using False bad other read(4) e(2) payload.put_held by auto
      qed
    qed
  qed
qed

section \<open>Properties\<close>

definition trailer :: bytes where
  "trailer = [0, 0, 255, 255]"

lemma getFlateReader_like_new:
  assumes "resets_readers lib final rest" "getFlateReader lib inp st = (fr, st')"
  shows "final fr = final (fr_new lib inp) \<and> rest fr = rest (fr_new lib inp) \<and> bufs st' = bufs st"
  using assms by (auto simp: getFlateReader_def resets_readers_def split: list.splits)

text \<open>
  What decompressing a payload should give: the size error when the plain data is over a positive
  limit, else the reader's error when the data is corrupt, else the plain data.
\<close>

definition inflated ::
  "('r, 'w) flate_lib \<Rightarrow> ('r \<Rightarrow> go_error) \<Rightarrow> ('r \<Rightarrow> bytes) \<Rightarrow> int \<Rightarrow> bytes \<Rightarrow> go_error + bytes" where
  "inflated lib final rest limit payload =
     (let r = fr_new lib (payload @ trailer) in
      if 0 < limit \<and> limit < int (length (rest r)) then Inl ErrDecompressedTooLarge
      else if final r \<noteq> EOF then Inl (final r)
      else Inr (rest r))"

definition plain_size :: "('r, 'w) flate_lib \<Rightarrow> ('r \<Rightarrow> bytes) \<Rightarrow> bytes \<Rightarrow> nat" where
  "plain_size lib rest payload = length (rest (fr_new lib (payload @ trailer)))"

lemma DecompressData_exact:
  assumes lib: "inflates lib final rest" "resets_readers lib final rest"
    and wf: "pools_wf (bufs st)"
    and fuel: "plain_size lib rest payload < fuel"
  shows "\<exists>r st'. DecompressData lib fuel payload limit st = Return (r, st') \<and> pools_wf (bufs st') \<and>
    (\<forall>t. pool_held (bufs st) t \<longrightarrow> pool_held (bufs st') t) \<and>
    (case inflated lib final rest limit payload of
       Inl e \<Rightarrow> r = Inl e
     | Inr plain \<Rightarrow> \<exists>b. r = Inr b \<and> owned (b, bufs st') \<and> content b = plain \<and>
         (\<forall>t. pool_held (bufs st) t \<longrightarrow> addr t \<noteq> addr b))"
proof -
  obtain fr st1 where fr: "getFlateReader lib (payload @ trailer) st = (fr, st1)"
    by (cases "getFlateReader lib (payload @ trailer) st")
  note fr' = getFlateReader_like_new [OF lib(2) fr]
  define n where "n = (if length payload * 2 < 4096 then 4096 else length payload * 2)"
  have "0 < n" by (auto simp: n_def)
  obtain buf ps where buf: "getPayloadBuffer (int n) (bufs st1) = Return (buf, ps)" "owned (buf, ps)"
    "slen buf = n" "\<forall>t. pool_held (bufs st1) t \<longrightarrow> pool_held ps t \<and> addr t \<noteq> addr buf"
    using payload.get_buffer [of "bufs st1" "int n"] wf fr' by (auto simp: owned_def)
  have "length (rest fr) < fuel" using fuel fr' by (simp add: plain_size_def)
  with decompressLoop_exact [OF lib(1) buf(2), of 0 limit fr fuel, unfolded take_0 append.simps add_0]
  obtain r fr2 q where loop: "decompressLoop lib fuel limit fr buf 0 ps = Return (r, fr2, q)" "pools_wf q"
    "\<forall>t. pool_held ps t \<longrightarrow> addr t \<noteq> addr buf \<longrightarrow> pool_held q t"
    "if 0 < limit \<and> limit < int (length (rest fr)) then r = Inl ErrDecompressedTooLarge
     else if final fr \<noteq> EOF then r = Inl (final fr)
     else \<exists>b. r = Inr b \<and> owned (b, q) \<and> undisturbed (buf, ps) (b, q) \<and> content b = rest fr"
    using buf(3) \<open>0 < n\<close> by auto
  have "DecompressData lib fuel payload limit st =
      Return (r, putFlateReader lib fr2 (st1\<lparr>bufs := q\<rparr>))"
    using buf(1) loop(1) fr by (simp add: DecompressData_def trailer_def Let_def n_def)
  moreover have "bufs (putFlateReader lib fr2 (st1\<lparr>bufs := q\<rparr>)) = q"
    by (simp add: putFlateReader_def)
  ultimately show ?thesis
    using loop buf(4) fr' by (auto simp: undisturbed_def inflated_def Let_def)
qed

text \<open>
  C31: decompression is total and its limit is exact.  With a reader that keeps the contract of
  \<open>io.Reader\<close>, \<open>DecompressData\<close> returns on every payload (more fuel than plain bytes is
  enough) and never panics: it gives the size error when the plain data is longer than a positive
  limit, the reader's error when the data is corrupt, and otherwise a buffer that holds exactly the
  plain data; the buffer pools stay in order in every case.
\<close>

theorem decompress_limit_exact:
  assumes "inflates lib final rest" "resets_readers lib final rest" "pools_wf (bufs st)"
    "plain_size lib rest payload < fuel"
  shows "\<exists>r st'. DecompressData lib fuel payload limit st = Return (r, st') \<and> pools_wf (bufs st') \<and>
    (case inflated lib final rest limit payload of
       Inl e \<Rightarrow> r = Inl e
     | Inr plain \<Rightarrow> \<exists>b. r = Inr b \<and> owned (b, bufs st') \<and> content b = plain)"
  using DecompressData_exact [OF assms, of limit]
  by (cases "inflated lib final rest limit payload") auto

text \<open>A library that stores data as it is: one instance of the documented behaviour.\<close>

definition stored_lib :: "(bytes, unit) flate_lib" where
  "stored_lib =
     \<lparr>fr_new = (\<lambda>inp. take (length inp - 4) inp),
      fr_reset = (\<lambda>r inp. take (length inp - 4) inp),
      fr_read = (\<lambda>r n. (take n r, if length r \<le> n then Some EOF else None, drop n r)),
      fr_close = (\<lambda>r. r),
      fw_new = (), fw_reset = (\<lambda>w. w),
      fw_write = (\<lambda>w p. ([p], None, w)), fw_close = (\<lambda>w. ([], None, w))\<rparr>"

lemma stored_lib_inflates: "inflates stored_lib (\<lambda>_. EOF) (\<lambda>r. r)"
  by (auto simp: inflates_def stored_lib_def)

lemma stored_lib_resets: "resets_readers stored_lib (\<lambda>_. EOF) (\<lambda>r. r)"
  by (simp add: resets_readers_def stored_lib_def)

definition empty_comp :: "('r, 'w) comp_state" where
  "empty_comp = \<lparr>bufs = empty_pools, flateReaderPool = [], flateWriterPool = []\<rparr>"

theorem decompress_limit_exact_witness:
  "\<exists>st'. DecompressData stored_lib 10 [1, 2, 3] 2 empty_comp = Return (Inl ErrDecompressedTooLarge, st')"
proof -
  have "pools_wf (bufs (empty_comp :: (bytes, unit) comp_state))" by code_simp
  from decompress_limit_exact [OF stored_lib_inflates stored_lib_resets this, of "[1, 2, 3]" 10 2]
  show ?thesis by (auto simp: stored_lib_def trailer_def plain_size_def inflated_def)
qed

text \<open>What the writer side of the package promises: deflating and inflating again is the identity.\<close>

definition deflates :: "('r, 'w) flate_lib \<Rightarrow> ('r \<Rightarrow> go_error) \<Rightarrow> ('r \<Rightarrow> bytes) \<Rightarrow> bool" where
  "deflates lib final rest \<longleftrightarrow>
     (\<forall>w payload. w = fw_new lib \<or> (\<exists>w0. w = fw_reset lib w0) \<longrightarrow>
        (case fw_write lib w payload of (pieces, err, w') \<Rightarrow>
           err = None \<and>
           (case fw_close lib w' of (pieces', err', w'') \<Rightarrow>
              err' = None \<and>
              final (fr_new lib (concat pieces @ concat pieces' @ trailer)) = EOF \<and>
              rest (fr_new lib (concat pieces @ concat pieces' @ trailer)) = payload)))"

lemma CompressData_exact:
  assumes lib: "deflates lib final rest" and wf: "pools_wf (bufs st)"
  obtains buf st' where "CompressData lib payload st = Return (Inr buf, st')" "owned (buf, bufs st')"
    "final (fr_new lib (content buf @ trailer)) = EOF" "rest (fr_new lib (content buf @ trailer)) = payload"
proof -
  define n where "n = (if length payload < 512 then 512 else length payload)"
  obtain b ps where b: "getPayloadBuffer (int n) (bufs st) = Return (b, ps)" "owned (b, ps)"
    using payload.get_buffer [OF wf, of "int n"] by (auto simp: owned_def)
  let ?buf = "b\<lparr>slen := 0\<rparr>"
  have buf: "reslice b 0 = Return ?buf" "owned (?buf, ps)" "content ?buf = []"
    using b(2) payload.held_addr [of ps b ?buf] by (simp_all add: reslice_def owned_def slice_ok_def content_def)
  obtain fw st1 where fw: "getFlateWriter lib (st\<lparr>bufs := ps\<rparr>) = (fw, st1)" by fastforce
  then have new: "fw = fw_new lib \<or> (\<exists>w0. fw = fw_reset lib w0)" and st1: "bufs st1 = ps"
    by (auto simp: getFlateWriter_def split: list.splits)
  obtain p1 e1 fw1 where w: "fw_write lib fw payload = (p1, e1, fw1)" by (metis prod_cases3)
  obtain p2 e2 fw2 where c: "fw_close lib fw1 = (p2, e2, fw2)" by (metis prod_cases3)
  have ok: "e1 = None" "e2 = None" "final (fr_new lib (concat p1 @ concat p2 @ trailer)) = EOF"
    "rest (fr_new lib (concat p1 @ concat p2 @ trailer)) = payload"
    using lib [unfolded deflates_def, rule_format, OF new, of payload] w c by simp_all
  obtain w1 where w1: "PooledWriter_writes p1 (?buf, ps) = Return w1" "owned w1"
    "content (fst w1) = concat p1"
    using pooled_writes_append [OF buf(2), of p1] buf(3) by auto
  obtain w2 where w2: "PooledWriter_writes p2 w1 = Return w2" "owned w2"
    "content (fst w2) = concat p1 @ concat p2"
    using pooled_writes_append [OF w1(2), of p2] w1(3) by auto
  obtain b1 q1 b2 q2 where split: "w1 = (b1, q1)" "w2 = (b2, q2)" by (metis surj_pair)
  show thesis
  proof (rule that [of b2 "putFlateWriter fw2 (st1\<lparr>bufs := q2\<rparr>)"])
    show "CompressData lib payload st = Return (Inr b2, putFlateWriter fw2 (st1\<lparr>bufs := q2\<rparr>))"
      using b(1) buf(1) fw w c ok(1,2) w1(1) w2(1) st1
      by (simp add: CompressData_def n_def Let_def split)
    show "owned (b2, bufs (putFlateWriter fw2 (st1\<lparr>bufs := q2\<rparr>)))"
      using w2(2) by (simp add: split putFlateWriter_def)
  qed (use w2(3) ok in \<open>simp_all add: split\<close>)
qed

text \<open>
  A message survives compression.  With a flate package that inflates what it deflates,
  \<open>CompressData\<close> succeeds on every payload, and \<open>DecompressData\<close> on its result gives the
  payload back, for every limit the payload keeps to, through the pooled buffers and reused readers.
\<close>

theorem compress_roundtrip:
  assumes "inflates lib final rest" "resets_readers lib final rest" "deflates lib final rest"
    "pools_wf (bufs st)" "length payload < fuel" "limit \<le> 0 \<or> int (length payload) \<le> limit"
  shows "\<exists>buf st1 b st2. CompressData lib payload st = Return (Inr buf, st1) \<and>
    DecompressData lib fuel (content buf) limit st1 = Return (Inr b, st2) \<and>
    content b = payload \<and> addr b \<noteq> addr buf \<and> pools_wf (bufs st2)"
proof -
  obtain buf st1 where c: "CompressData lib payload st = Return (Inr buf, st1)"
    and own: "owned (buf, bufs st1)" and good: "final (fr_new lib (content buf @ trailer)) = EOF"
    and rest: "rest (fr_new lib (content buf @ trailer)) = payload"
    using CompressData_exact [OF assms(3,4)] by blast
  from own have wf1: "pools_wf (bufs st1)" and held: "pool_held (bufs st1) buf"
    by (simp_all add: owned_def)
  from DecompressData_exact [OF assms(1,2) wf1, of "content buf" fuel limit] good rest assms(5,6) held
  obtain b st2 where "DecompressData lib fuel (content buf) limit st1 = Return (Inr b, st2)"
    "pools_wf (bufs st2)" "content b = payload" "addr b \<noteq> addr buf"
    by (fastforce simp: inflated_def plain_size_def Let_def split: if_splits)
  with c show ?thesis by blast
qed

theorem compress_roundtrip_witness:
  "\<exists>buf st1 b st2. CompressData stored_lib [7, 8, 9] empty_comp = Return (Inr buf, st1) \<and>
    DecompressData stored_lib 10 (content buf) 3 st1 = Return (Inr b, st2) \<and> content b = [7, 8, 9]"
proof -
  have "pools_wf (bufs (empty_comp :: (bytes, unit) comp_state))" by code_simp
  moreover have "deflates stored_lib (\<lambda>_. EOF) (\<lambda>r. r)"
    by (simp add: deflates_def stored_lib_def trailer_def)
  ultimately show ?thesis
    using compress_roundtrip [OF stored_lib_inflates stored_lib_resets, of empty_comp "[7, 8, 9]" 10 3]
    by auto
qed

end
