(* ===== verification/Framing.thy ===== *)
theory Framing
  imports Go_Base
begin

text \<open>
  The contract of an incremental framing check, as a locale: a function that says from the bytes
  received so far how long the first message is, if it is whole.  Both framing layers of the
  program promise it: \<open>CheckRequest\<close> for HTTP requests (\<open>Http_Parser\<close>) and \<open>parseHeader\<close> for
  WebSocket frames (\<open>Ws_Frame\<close>).  What a reader of the connection may conclude from it is proved
  here once: the messages of a byte stream do not depend on how the network cuts the stream.
\<close>

text \<open>
  The loop of a reader: take whole messages off the front as long as there is one; the result is
  the messages and the bytes left over.
\<close>

function frames :: "(bytes \<Rightarrow> nat option) \<Rightarrow> bytes \<Rightarrow> bytes list \<times> bytes" where
  "frames extent d =
     (case extent d of
        None \<Rightarrow> ([], d)
      | Some n \<Rightarrow>
          if 0 < n \<and> n \<le> length d
          then (take n d # fst (frames extent (drop n d)), snd (frames extent (drop n d)))
          else ([], d))"
  by pat_completeness auto
termination
  by (relation "measure (length \<circ> snd)") auto

declare frames.simps [simp del]

text \<open>A reader that is given the segments of the stream one after the other.\<close>

fun feed :: "(bytes \<Rightarrow> nat option) \<Rightarrow> bytes \<Rightarrow> bytes list \<Rightarrow> bytes list \<times> bytes" where
  "feed extent pending [] = ([], pending)"
| "feed extent pending (seg # segs) =
     (let (ms, rest) = frames extent (pending @ seg);
          (ms', rest') = feed extent rest segs
      in (ms @ ms', rest'))"

locale framing =
  fixes extent :: "bytes \<Rightarrow> nat option"
  assumes extent_bound: "extent d = Some n \<Longrightarrow> 0 < n \<and> n \<le> length d"
    and extent_prefix: "extent d = Some n \<Longrightarrow> take n d' = take n d \<Longrightarrow> extent d' = Some n"
begin

lemma extent_append: "extent d = Some n \<Longrightarrow> extent (d @ e) = Some n"
  using extent_bound extent_prefix by (metis append_take_drop_id take_append diff_is_0_eq take_0
      append_Nil2)

lemma extent_take: "extent d = Some n \<Longrightarrow> extent (take n d) = Some n"
  by (rule extent_prefix) simp_all

lemma frames_None: "extent d = None \<Longrightarrow> frames extent d = ([], d)"
  by (simp add: frames.simps)

lemma frames_Some:
  "extent d = Some n \<Longrightarrow>
     frames extent d = (take n d # fst (frames extent (drop n d)), snd (frames extent (drop n d)))"
  using extent_bound by (simp add: frames.simps [of extent d])

lemma frames_concat: "concat (fst (frames extent d)) @ snd (frames extent d) = d"
proof (induction d rule: length_induct)
  case (1 d)
  show ?case
  proof (cases "extent d")
    case None
    then show ?thesis by (simp add: frames_None)
  next
    case (Some n)
    with extent_bound have "length (drop n d) < length d" by fastforce
    with 1 Some show ?thesis by (simp add: frames_Some)
  qed
qed

lemma frames_rest: "extent (snd (frames extent d)) = None"
proof (induction d rule: length_induct)
  case (1 d)
  show ?case
  proof (cases "extent d")
    case None
    then show ?thesis by (simp add: frames_None)
  next
    case (Some n)
    with extent_bound have "length (drop n d) < length d" by fastforce
    with 1 Some show ?thesis by (simp add: frames_Some)
  qed
qed

lemma frames_whole: "m \<in> set (fst (frames extent d)) \<longrightarrow> extent m = Some (length m)"
proof (induction d rule: length_induct)
  case (1 d)
  show ?case
  proof (cases "extent d")
    case None
    then show ?thesis by (simp add: frames_None)
  next
    case (Some n)
    with extent_bound [OF Some] have "length (drop n d) < length d" by auto
    moreover have "extent (take n d) = Some (length (take n d))"
      using extent_take [OF Some] extent_bound [OF Some] by simp
    moreover have "m \<in> set (fst (frames extent (drop n d))) \<longrightarrow> extent m = Some (length m)"
      using 1 calculation(1) by blast
    ultimately show ?thesis by (auto simp: frames_Some [OF Some])
  qed
qed

text \<open>Data that arrives later does not change the messages already seen.\<close>

lemma frames_append:
  "frames extent (d @ e) =
     (fst (frames extent d) @ fst (frames extent (snd (frames extent d) @ e)),
      snd (frames extent (snd (frames extent d) @ e)))"
proof (induction d rule: length_induct)
  case (1 d)
  show ?case
  proof (cases "extent d")
    case None
    then show ?thesis by (simp add: frames_None)
  next
    case (Some n)
    with extent_bound [OF Some] have less: "length (drop n d) < length d" and "n \<le> length d"
      by auto
    then have "drop n (d @ e) = drop n d @ e" "take n (d @ e) = take n d" by simp_all
    with 1 less show ?thesis
      by (simp add: frames_Some [OF Some] frames_Some [OF extent_append [OF Some]])
  qed
qed

lemma feed_frames:
  assumes "extent pending = None"
  shows "feed extent pending segs = frames extent (pending @ concat segs)"
  using assms
proof (induction segs arbitrary: pending)
  case Nil
  then show ?case by (simp add: frames_None)
next
  case (Cons seg segs)
  let ?f = "frames extent (pending @ seg)"
  have "feed extent (snd ?f) segs = frames extent (snd ?f @ concat segs)"
    by (rule Cons.IH) (rule frames_rest)
  then show ?case
    using frames_append [of "pending @ seg" "concat segs"] by (simp add: case_prod_unfold Let_def)
qed

text \<open>A stream that is a sequence of whole messages is read back as that sequence.\<close>

lemma frames_messages:
  assumes "\<forall>m \<in> set ms. extent m = Some (length m)" and "extent [] = None"
  shows "frames extent (concat ms) = (ms, [])"
  using assms(1)
proof (induction ms)
  case Nil
  with assms(2) show ?case by (simp add: frames_None)
next
  case (Cons m ms)
  then have "extent (m @ concat ms) = Some (length m)"
    by (simp add: extent_append)
  with Cons show ?case by (simp add: frames_Some)
qed

end

end
