(* ===== verification/Ws_Frame.thy ===== *)
theory Ws_Frame
  imports Framing
begin

text \<open>
  WebSocket frame headers: \<open>parseHeader\<close> and \<open>readHeaderZeroAlloc\<close> of
  \<open>src/pkg/websocket/websocket.go\<close>, and the byte stream of a connection they read from.

  The package \<open>github.com/gobwas/ws\<close> is not part of the repository; what the code uses of it
  is the parameter \<open>ws_lib\<close>, and \<open>rfc6455 lib\<close> says that it follows the protocol it documents.
\<close>

section \<open>The package gobwas/ws\<close>

record ws_header =
  Fin :: bool
  Rsv :: byte
  OpCode :: byte
  Masked :: bool
  Mask :: bytes
  Length :: int

definition zero_header :: ws_header where
  "zero_header = \<lparr>Fin = False, Rsv = 0, OpCode = 0, Masked = False, Mask = [0, 0, 0, 0], Length = 0\<rparr>"

record ws_lib =
  IsControl :: "byte \<Rightarrow> bool"
  OpContinuation :: byte
  OpClose :: byte
  OpPing :: byte
  OpPong :: byte
  Cipher :: "bytes \<Rightarrow> bytes \<Rightarrow> nat \<Rightarrow> bytes"
  WriteHeader :: "ws_header \<Rightarrow> bytes"

section \<open>Parsing a header\<close>

fun be_value :: "int \<Rightarrow> bytes \<Rightarrow> int" where
  "be_value n [] = n"
| "be_value n (b # bs) = be_value (n * 256 + uint b) bs"

definition lengthBits :: "bytes \<Rightarrow> byte" where
  "lengthBits b = (b ! 1) AND 127"

definition maskBit :: "bytes \<Rightarrow> bool" where
  "maskBit b \<longleftrightarrow> (b ! 1) AND 128 \<noteq> 0"

text \<open>The header size that the second byte announces.\<close>

definition announcedBytes :: "bytes \<Rightarrow> nat" where
  "announcedBytes b =
     (if lengthBits b = 126 then 4 else if lengthBits b = 127 then 10 else 2) +
     (if maskBit b then 4 else 0)"

text \<open>The fields of the first two bytes, the length field and the mask.\<close>

definition headerBits :: "bytes \<Rightarrow> ws_header" where
  "headerBits b = zero_header
     \<lparr>Fin := (b ! 0) AND 128 \<noteq> 0,
      Rsv := drop_bit 4 ((b ! 0) AND 112),
      OpCode := (b ! 0) AND 15,
      Masked := maskBit b\<rparr>"

definition payloadLength :: "bytes \<Rightarrow> int" where
  "payloadLength b =
     (if lengthBits b = 126 then be_value 0 (take 2 (drop 2 b))
      else if lengthBits b = 127 then wrap64 (be_value 0 (take 8 (drop 2 b)))
      else uint (lengthBits b))"

definition maskBytes :: "bytes \<Rightarrow> bytes" where
  "maskBytes b = (if maskBit b then take 4 (drop (announcedBytes b - 4) b) else [0, 0, 0, 0])"

text \<open>
  A header that is not whole yet gives 0 as its size; its length field is set by then only where
  the second byte holds the length itself.
\<close>

definition parseHeader :: "ws_lib \<Rightarrow> bytes \<Rightarrow> ws_header \<times> nat \<times> go_error option" where
  "parseHeader lib b =
     (if length b < 2 then (zero_header, 0, None)
      else if IsControl lib (OpCode (headerBits b)) \<and> lengthBits b > 125
      then (headerBits b, 0, Some (Errorf ''control frame length > 125''))
      else if length b < announcedBytes b
      then (if lengthBits b = 126 \<or> lengthBits b = 127 then headerBits b
            else (headerBits b)\<lparr>Length := uint (lengthBits b)\<rparr>, 0, None)
      else ((headerBits b)\<lparr>Length := payloadLength b, Mask := maskBytes b\<rparr>, announcedBytes b, None))"

section \<open>The stream of a connection\<close>

text \<open>
  What a reader sees of a connection: the bytes received and not yet consumed (in the
  \<open>bufio.Reader\<close> and in netpoll's buffer), the segments that will still arrive while a read
  blocks, and the error the connection reports after them.
\<close>

record stream =
  recv :: bytes
  segs :: "bytes list"
  failure :: go_error

definition pending :: "stream \<Rightarrow> bytes" where
  "pending st = recv st @ concat (segs st)"

text \<open>Block until \<open>n\<close> bytes are there or nothing more comes.\<close>

fun fill_segs :: "nat \<Rightarrow> bytes \<Rightarrow> bytes list \<Rightarrow> bytes \<times> bytes list" where
  "fill_segs n r [] = (r, [])"
| "fill_segs n r (s # ss) = (if n \<le> length r then (r, s # ss) else fill_segs n (r @ s) ss)"

definition fill :: "nat \<Rightarrow> stream \<Rightarrow> stream" where
  "fill n st = (let (r, ss) = fill_segs n (recv st) (segs st) in st\<lparr>recv := r, segs := ss\<rparr>)"

text \<open>\<open>bufio.Reader\<close>'s \<open>Peek\<close> and \<open>Discard\<close> (of bytes that have been peeked at).\<close>

definition Peek :: "nat \<Rightarrow> stream \<Rightarrow> (go_error + bytes) \<times> stream" where
  "Peek n st =
     (let st = fill n st in
      (if n \<le> length (recv st) then Inr (take n (recv st)) else Inl (failure st), st))"

definition Discard :: "nat \<Rightarrow> stream \<Rightarrow> stream" where
  "Discard n st = st\<lparr>recv := drop n (recv st)\<rparr>"

text \<open>
  \<open>io.ReadFull\<close> on \<open>n\<close> bytes: nothing is read for \<open>n = 0\<close>; when the connection fails first, what
  was there is consumed, and an end of file in the middle is \<open>io.ErrUnexpectedEOF\<close>.
\<close>

definition ReadFull :: "nat \<Rightarrow> stream \<Rightarrow> (go_error + bytes) \<times> stream" where
  "ReadFull n st =
     (let st = fill n st in
      if n \<le> length (recv st) then (Inr (take n (recv st)), Discard n st)
      else (Inl (if recv st \<noteq> [] \<and> failure st = EOF then ErrUnexpectedEOF else failure st),
            st\<lparr>recv := []\<rparr>))"

definition readHeaderZeroAlloc :: "ws_lib \<Rightarrow> stream \<Rightarrow> (go_error + ws_header) \<times> stream" where
  "readHeaderZeroAlloc lib st =
     (case Peek 2 st of
        (Inl err, st) \<Rightarrow> (Inl err, st)
      | (Inr b, st) \<Rightarrow>
          let (_, headerBytes, _) = parseHeader lib b;
              headerBytes = (if headerBytes = 0 then announcedBytes b else headerBytes)
          in case Peek headerBytes st of
               (Inl err, st) \<Rightarrow> (Inl err, st)
             | (Inr b, st) \<Rightarrow>
                 (case parseHeader lib b of
                    (h, actualBytes, Some err) \<Rightarrow> (Inl err, st)
                  | (h, actualBytes, None) \<Rightarrow>
                      if actualBytes = 0 then (Inl ErrUnexpectedEOF, st)
                      else (Inr h, Discard actualBytes st)))"

section \<open>Facts on headers\<close>

text \<open>
  Whatever the library's notion of a control frame, the parse is decided by the first two bytes
  and the announced number of bytes.
\<close>

lemma announcedBytes_ge: "2 \<le> announcedBytes b"
  by (simp add: announcedBytes_def)

lemma parseHeader_Some:
  "parseHeader lib b = (h, n, None) \<Longrightarrow> 0 < n \<Longrightarrow>
     n = announcedBytes b \<and> n \<le> length b \<and> h = (headerBits b)\<lparr>Length := payloadLength b, Mask := maskBytes b\<rparr>"
  by (auto simp: parseHeader_def split: if_splits)

lemma parseHeader_whole:
  assumes "2 \<le> length b" "\<not> (IsControl lib (OpCode (headerBits b)) \<and> lengthBits b > 125)"
    "announcedBytes b \<le> length b"
  shows "parseHeader lib b =
    ((headerBits b)\<lparr>Length := payloadLength b, Mask := maskBytes b\<rparr>, announcedBytes b, None)"
proof -
  have "\<not> length b < 2" "\<not> length b < announcedBytes b" using assms by simp_all
  with assms(2) show ?thesis unfolding parseHeader_def by (simp only: if_False)
qed

lemma parseHeader_cong:
  assumes "parseHeader lib b = (h, n, None)" "0 < n" "take n b' = take n b"
  shows "parseHeader lib b' = (h, n, None)"
proof -
  from parseHeader_Some [OF assms(1,2)] have n: "n = announcedBytes b" "n \<le> length b"
    and h: "h = (headerBits b)\<lparr>Length := payloadLength b, Mask := maskBytes b\<rparr>" by auto
  have n2: "2 \<le> n" using n(1) announcedBytes_ge by simp
  have len: "n \<le> length b'" using assms(3) n(2) by (rule take_agree_length)
  have two: "b' ! 0 = b ! 0" "b' ! 1 = b ! 1"
    using n2 by (auto intro: take_agree_nth [OF assms(3)])
  note bytes = take_drop_agree [OF assms(3)]
  have bits: "headerBits b' = headerBits b" "lengthBits b' = lengthBits b" "maskBit b' = maskBit b"
    using two by (simp_all add: headerBits_def lengthBits_def maskBit_def)
  then have ann: "announcedBytes b' = n" by (simp add: announcedBytes_def n(1))
  have "payloadLength b' = payloadLength b"
    using bits bytes [of 2 2] bytes [of 2 8] n(1)
    by (auto simp: payloadLength_def announcedBytes_def)
  moreover have "maskBytes b' = maskBytes b"
    using bits bytes [of "n - 4" 4] ann n(1) by (auto simp: maskBytes_def announcedBytes_def)
  moreover have "\<not> (IsControl lib (OpCode (headerBits b)) \<and> lengthBits b > 125)"
    using assms(1,2) by (auto simp: parseHeader_def split: if_splits)
  ultimately show ?thesis
    using parseHeader_whole [of b' lib] h bits ann len n2 by simp
qed

section \<open>Framing of WebSocket frames\<close>

text \<open>A whole frame: a header and the payload it announces.\<close>

definition frameExtent :: "ws_lib \<Rightarrow> bytes \<Rightarrow> nat option" where
  "frameExtent lib d =
     (case parseHeader lib d of
        (h, n, None) \<Rightarrow>
          if 0 < n \<and> 0 \<le> Length h \<and> n + nat (Length h) \<le> length d
          then Some (n + nat (Length h)) else None
      | (h, n, Some e) \<Rightarrow> None)"

interpretation ws_frame: framing "frameExtent lib" for lib
proof unfold_locales
  show "0 < n \<and> n \<le> length d" if "frameExtent lib d = Some n" for d n
    using that by (auto simp: frameExtent_def split: prod.splits option.splits if_splits)
  show "frameExtent lib d' = Some n" if "frameExtent lib d = Some n" "take n d' = take n d" for d d' n
  proof -
    from that(1) obtain h k where h: "parseHeader lib d = (h, k, None)" "0 < k" "0 \<le> Length h"
      "n = k + nat (Length h)" "n \<le> length d"
      by (auto simp: frameExtent_def split: prod.splits option.splits if_splits)
    have "take k d' = take k d" by (rule take_agree_less [OF that(2)]) (simp add: h(4))
    then have "parseHeader lib d' = (h, k, None)" by (rule parseHeader_cong [OF h(1,2)])
    moreover have "n \<le> length d'" using that(2) h(5) by (rule take_agree_length)
    ultimately show ?thesis using h by (simp add: frameExtent_def)
  qed
qed

section \<open>The wire format\<close>

text \<open>
  The header layout of RFC 6455, section 5.2, with the shortest length form; it is what
  \<open>ws.WriteHeader\<close> is documented to write.
\<close>

fun be_bytes :: "nat \<Rightarrow> int \<Rightarrow> bytes" where
  "be_bytes 0 n = []"
| "be_bytes (Suc k) n = be_bytes k (n div 256) @ [word_of_int (n mod 256)]"

definition rfcHeader :: "ws_header \<Rightarrow> bytes" where
  "rfcHeader h =
     (let b0 = (if Fin h then 128 else 0) OR push_bit 4 (Rsv h) OR OpCode h;
          m = (if Masked h then 128 else 0)
      in (if Length h \<le> 125 then [b0, m OR word_of_int (Length h)]
          else if Length h \<le> 65535 then [b0, m OR 126] @ be_bytes 2 (Length h)
          else [b0, m OR 127] @ be_bytes 8 (Length h)) @
         (if Masked h then Mask h else []))"

text \<open>A header that can be written: its fields fit and it is not a control frame over 125 bytes.\<close>

definition valid_header :: "ws_lib \<Rightarrow> ws_header \<Rightarrow> bool" where
  "valid_header lib h \<longleftrightarrow>
     Rsv h < 8 \<and> OpCode h < 16 \<and> length (Mask h) = 4 \<and> (\<not> Masked h \<longrightarrow> Mask h = [0, 0, 0, 0]) \<and>
     0 \<le> Length h \<and> Length h \<le> maxInt \<and> (IsControl lib (OpCode h) \<longrightarrow> Length h \<le> 125)"

definition rfc6455 :: "ws_lib \<Rightarrow> bool" where
  "rfc6455 lib \<longleftrightarrow>
     (\<forall>op. IsControl lib op \<longleftrightarrow> op AND 8 \<noteq> 0) \<and>
     OpContinuation lib = 0 \<and> OpClose lib = 8 \<and> OpPing lib = 9 \<and> OpPong lib = 10 \<and>
     (\<forall>h. valid_header lib h \<longrightarrow> WriteHeader lib h = rfcHeader h) \<and>
     (\<forall>p m. length m = 4 \<longrightarrow> Cipher lib (Cipher lib p m 0) m 0 = p) \<and>
     (\<forall>p m. length (Cipher lib p m 0) = length p)"

lemma length_be_bytes [simp]: "length (be_bytes k n) = k"
  by (induction k arbitrary: n) simp_all

lemma be_value_append: "be_value a (xs @ ys) = be_value (be_value a xs) ys"
  by (induction a xs rule: be_value.induct) simp_all

lemma be_value_be_bytes: "0 \<le> n \<Longrightarrow> n < 256 ^ k \<Longrightarrow> be_value 0 (be_bytes k n) = n"
proof (induction k arbitrary: n)
  case 0
  then show ?case by simp
next
  case (Suc k)
  have "256 * (n div 256) \<le> n" by simp
  then have "n div 256 < 256 ^ k" using Suc.prems(2) by simp
  with Suc show ?case
    by (simp add: be_value_append pos_imp_zdiv_nonneg_iff uint_word_of_int)
qed

text \<open>The first byte packs and unpacks its three fields.\<close>

lemma first_byte:
  fixes rsv op :: byte and f :: bool
  assumes "rsv < 8" "op < 16"
  defines "b0 \<equiv> (if f then 128 else 0) OR push_bit 4 rsv OR op"
  shows "b0 AND 128 \<noteq> 0 \<longleftrightarrow> f" "drop_bit 4 (b0 AND 112) = rsv" "b0 AND 15 = op"
proof -
  let ?ok = "\<lambda>f (rsv :: byte) (op :: byte). let b0 = (if f then 128 else 0) OR push_bit 4 rsv OR op in
      (b0 AND 128 \<noteq> 0 \<longleftrightarrow> f) \<and> drop_bit 4 (b0 AND 112) = rsv \<and> b0 AND 15 = op"
  have "\<forall>f \<in> set [True, False]. \<forall>r \<in> set [0..<8]. \<forall>p \<in> set [0..<16]. ?ok f (word_of_nat r) (word_of_nat p)"
    by code_simp
  moreover have "f \<in> set [True, False]" by simp
  ultimately have "\<forall>r \<in> set [0..<8]. \<forall>p \<in> set [0..<16]. ?ok f (word_of_nat r) (word_of_nat p)"
    by (rule bspec)
  moreover have "unat rsv \<in> set [0..<8]" "unat op \<in> set [0..<16]"
    using assms(1,2) by (simp_all add: word_less_nat_alt)
  ultimately have "?ok f (word_of_nat (unat rsv)) (word_of_nat (unat op))" by blast
  then show "b0 AND 128 \<noteq> 0 \<longleftrightarrow> f" "drop_bit 4 (b0 AND 112) = rsv" "b0 AND 15 = op"
    by (simp_all add: b0_def Let_def)
qed

text \<open>The second byte: the mask bit and a length of at most 127.\<close>

lemma second_byte:
  fixes v :: byte and m :: bool
  assumes "v < 128"
  defines "b1 \<equiv> (if m then 128 else 0) OR v"
  shows "b1 AND 128 \<noteq> 0 \<longleftrightarrow> m" "b1 AND 127 = v"
proof -
  let ?ok = "\<lambda>m (v :: byte). let b1 = (if m then 128 else 0) OR v in
      (b1 AND 128 \<noteq> 0 \<longleftrightarrow> m) \<and> b1 AND 127 = v"
  have "\<forall>m \<in> set [True, False]. \<forall>v \<in> set [0..<128]. ?ok m (word_of_nat v)"
    by code_simp
  moreover have "m \<in> set [True, False]" by simp
  ultimately have "\<forall>v \<in> set [0..<128]. ?ok m (word_of_nat v)"
    by (rule bspec)
  moreover have "unat v \<in> set [0..<128]"
    using assms(1) by (simp add: word_less_nat_alt)
  ultimately have "?ok m (word_of_nat (unat v))" by blast
  then show "b1 AND 128 \<noteq> 0 \<longleftrightarrow> m" "b1 AND 127 = v"
    by (simp_all add: b1_def Let_def)
qed

lemma headerBits_eq:
  "headerBits (b0 # b1 # bs) = zero_header
     \<lparr>Fin := b0 AND 128 \<noteq> 0, Rsv := drop_bit 4 (b0 AND 112), OpCode := b0 AND 15,
      Masked := b1 AND 128 \<noteq> 0\<rparr>"
  by (simp add: headerBits_def maskBit_def)

text \<open>Parsing two header bytes, the extended length and the mask gives them back.\<close>

lemma parseHeader_layout:
  assumes h: "valid_header lib h"
    and v: "v < 128"
    and ext: "length ext = (if v = 126 then 2 else if v = 127 then 8 else 0)"
    and len: "(if v = 126 then be_value 0 ext else if v = 127 then wrap64 (be_value 0 ext)
               else uint v) = Length h"
    and ctl: "v > 125 \<longrightarrow> \<not> IsControl lib (OpCode h)"
  defines "b \<equiv> [(if Fin h then 128 else 0) OR push_bit 4 (Rsv h) OR OpCode h,
      (if Masked h then 128 else 0) OR v] @ ext @ (if Masked h then Mask h else [])"
  shows "parseHeader lib (b @ rest) = (h, length b, None)"
proof -
  from h have fields: "Rsv h < 8" "OpCode h < 16" "length (Mask h) = 4"
    "\<not> Masked h \<longrightarrow> Mask h = [0, 0, 0, 0]"
    by (auto simp: valid_header_def)
  note b0 = first_byte [OF fields(1,2), of "Fin h"] and b1 = second_byte [OF v, of "Masked h"]
  have bits: "lengthBits (b @ rest) = v" "maskBit (b @ rest) = Masked h"
    using b1 by (simp_all add: b_def lengthBits_def maskBit_def)
  have ann: "announcedBytes (b @ rest) = length b"
    using bits ext fields(3) by (simp add: announcedBytes_def b_def)
  have hdr: "headerBits (b @ rest) = zero_header
      \<lparr>Fin := Fin h, Rsv := Rsv h, OpCode := OpCode h, Masked := Masked h\<rparr>"
    using b0 b1 by (simp add: b_def headerBits_eq)
  have "payloadLength (b @ rest) = Length h"
    using bits ext len by (auto simp: payloadLength_def b_def)
  moreover have "maskBytes (b @ rest) = Mask h"
  proof (cases "Masked h")
    case True
    then have "drop (length b - 4) (b @ rest) = Mask h @ rest" using fields(3) by (simp add: b_def)
    with True show ?thesis using bits(2) fields(3) by (simp add: maskBytes_def ann)
  qed (use bits(2) fields(4) in \<open>simp add: maskBytes_def\<close>)
  moreover have "\<lparr>Fin = Fin h, Rsv = Rsv h, OpCode = OpCode h, Masked = Masked h, Mask = Mask h,
      Length = Length h\<rparr> = h"
    by (cases h) simp
  ultimately show ?thesis
    using parseHeader_whole [of "b @ rest" lib] hdr bits ann ctl announcedBytes_ge [of "b @ rest"]
    by (auto simp: zero_header_def)
qed

lemma parseHeader_rfcHeader:
  assumes h: "valid_header lib h"
  shows "parseHeader lib (rfcHeader h @ rest) = (h, length (rfcHeader h), None)"
proof -
  have len: "0 \<le> Length h" "Length h \<le> maxInt" and ctl: "IsControl lib (OpCode h) \<longrightarrow> Length h \<le> 125"
    using h by (auto simp: valid_header_def)
  consider "Length h \<le> 125" | "125 < Length h" "Length h \<le> 65535" | "65535 < Length h" by linarith
  then show ?thesis
  proof cases
    case 1
    have v: "uint (word_of_int (Length h) :: byte) = Length h"
      using 1 len by (simp add: uint_word_of_int)
    then have "word_of_int (Length h) < (126 :: byte)" using 1 by (simp add: word_less_def)
    then have "word_of_int (Length h) < (128 :: byte)" "word_of_int (Length h) \<noteq> (126 :: byte)"
      "word_of_int (Length h) \<noteq> (127 :: byte)" "\<not> word_of_int (Length h) > (125 :: byte)"
      using v 1 by (auto simp: word_less_def)
    with parseHeader_layout [OF h, of "word_of_int (Length h)" "[]" rest] 1 v show ?thesis
      by (simp add: rfcHeader_def Let_def)
  next
    case 2
    then have "be_value 0 (be_bytes 2 (Length h)) = Length h" by (intro be_value_be_bytes) simp_all
    with parseHeader_layout [OF h, of 126 "be_bytes 2 (Length h)" rest] 2 ctl show ?thesis
      by (simp add: rfcHeader_def Let_def)
  next
    case 3
    then have "be_value 0 (be_bytes 8 (Length h)) = Length h"
      using len by (intro be_value_be_bytes) (simp_all add: maxInt_def)
    moreover have "wrap64 (Length h) = Length h"
      using len by (intro wrap64_id) (simp add: int64_range_def)
    ultimately show ?thesis
      using parseHeader_layout [OF h, of 127 "be_bytes 8 (Length h)" rest] 3 ctl
      by (simp add: rfcHeader_def Let_def)
  qed
qed

section \<open>Reading from the stream\<close>

lemma fill_segs_facts:
  "fill_segs n r ss = (r', ss') \<Longrightarrow>
     r' @ concat ss' = r @ concat ss \<and> (n \<le> length r' \<or> ss' = [])"
  by (induction n r ss rule: fill_segs.induct) (auto split: if_splits)

lemma fill_facts:
  shows pending_fill [simp]: "pending (fill n st) = pending st"
    and failure_fill [simp]: "failure (fill n st) = failure st"
    and fill_enough: "n \<le> length (recv (fill n st)) \<longleftrightarrow> n \<le> length (pending st)"
    and fill_short: "length (pending st) < n \<Longrightarrow> recv (fill n st) = pending st \<and> segs (fill n st) = []"
proof -
  obtain r ss where f: "fill_segs n (recv st) (segs st) = (r, ss)" by fastforce
  note g = fill_segs_facts [OF f]
  then have len: "length r + length (concat ss) = length (recv st @ concat (segs st))"
    by (metis length_append)
  show "pending (fill n st) = pending st" "failure (fill n st) = failure st"
    "n \<le> length (recv (fill n st)) \<longleftrightarrow> n \<le> length (pending st)"
    using f g len by (auto simp: fill_def pending_def)
  show "length (pending st) < n \<Longrightarrow> recv (fill n st) = pending st \<and> segs (fill n st) = []"
    using f g len by (auto simp: fill_def pending_def)
qed

lemma take_pending: "n \<le> length (recv st) \<Longrightarrow> take n (recv st) = take n (pending st)"
  by (simp add: pending_def)

lemma pending_Discard: "n \<le> length (recv st) \<Longrightarrow> pending (Discard n st) = drop n (pending st)"
  by (simp add: pending_def Discard_def)

text \<open>\<open>st'\<close> is the same connection later on: the same failure awaits it, and what arrives is used up.\<close>

definition later :: "stream \<Rightarrow> stream \<Rightarrow> bool" where
  "later st st' \<longleftrightarrow> failure st' = failure st \<and> length (segs st') \<le> length (segs st)"

lemma later_refl [simp]: "later st st"
  by (simp add: later_def)

lemma later_trans: "later st st' \<Longrightarrow> later st' st'' \<Longrightarrow> later st st''"
  by (simp add: later_def)

lemma fill_segs_length: "length (snd (fill_segs n r ss)) \<le> length ss"
  by (induction n r ss rule: fill_segs.induct) auto

lemma later_fill [simp]: "later st (fill n st)"
  using fill_segs_length [of n "recv st" "segs st"] by (simp add: later_def fill_def case_prod_beta)

lemma later_Discard [simp]: "later st st' \<Longrightarrow> later st (Discard n st')"
  by (simp add: later_def Discard_def)

lemma Peek_eq:
  "Peek n st = (if n \<le> length (pending st) then Inr (take n (pending st)) else Inl (failure st), fill n st)"
  using fill_enough [of n st] by (auto simp: Peek_def Let_def take_pending)

lemma ReadFull_enough:
  assumes "n \<le> length (pending st)"
  obtains st' where "ReadFull n st = (Inr (take n (pending st)), st')"
    "pending st' = drop n (pending st)" "later st st'"
proof
  have "n \<le> length (recv (fill n st))" using assms by (simp add: fill_enough)
  then show "ReadFull n st = (Inr (take n (pending st)), Discard n (fill n st))"
    "pending (Discard n (fill n st)) = drop n (pending st)"
    by (simp_all add: ReadFull_def Let_def take_pending pending_Discard)
qed simp

lemma ReadFull_short:
  assumes "length (pending st) < n"
  obtains st' where "ReadFull n st =
      (Inl (if pending st \<noteq> [] \<and> failure st = EOF then ErrUnexpectedEOF else failure st), st')"
    "pending st' = []" "failure st' = failure st"
proof
  have "recv (fill n st) = pending st" "segs (fill n st) = []" using fill_short [OF assms] by auto
  then show "ReadFull n st =
      (Inl (if pending st \<noteq> [] \<and> failure st = EOF then ErrUnexpectedEOF else failure st),
       (fill n st)\<lparr>recv := []\<rparr>)"
    "pending ((fill n st)\<lparr>recv := []\<rparr>) = []"
    using assms by (simp_all add: ReadFull_def Let_def pending_def)
qed simp

text \<open>
  What \<open>readHeaderZeroAlloc\<close> should do, said on the bytes of the connection alone: the parse of
  all of them, or the connection's error when they end inside the header.
\<close>

definition headerOf :: "ws_lib \<Rightarrow> go_error \<Rightarrow> bytes \<Rightarrow> go_error + ws_header \<times> nat" where
  "headerOf lib e d =
     (if length d < 2 \<or> length d < announcedBytes d then Inl e
      else case parseHeader lib d of
             (h, n, Some err) \<Rightarrow> Inl err
           | (h, n, None) \<Rightarrow> Inr (h, n))"

lemma header_take:
  assumes "2 \<le> k"
  shows "headerBits (take k d) = headerBits d" "lengthBits (take k d) = lengthBits d"
    "maskBit (take k d) = maskBit d" "announcedBytes (take k d) = announcedBytes d"
  using assms by (simp_all add: headerBits_def lengthBits_def maskBit_def announcedBytes_def)

lemma parseHeader_take:
  assumes "2 \<le> length d" "announcedBytes d \<le> length d"
  shows "parseHeader lib (take (announcedBytes d) d) = parseHeader lib d"
proof -
  let ?n = "announcedBytes d"
  have n: "2 \<le> ?n" by (rule announcedBytes_ge)
  note t = header_take [OF n, of d]
  show ?thesis
  proof (cases "IsControl lib (OpCode (headerBits d)) \<and> lengthBits d > 125")
    case True
    then show ?thesis using assms n t by (simp add: parseHeader_def)
  next
    case False
    have p: "parseHeader lib d =
        ((headerBits d)\<lparr>Length := payloadLength d, Mask := maskBytes d\<rparr>, ?n, None)"
      by (rule parseHeader_whole [OF assms(1) False assms(2)])
    then have "parseHeader lib (take ?n d) =
        ((headerBits d)\<lparr>Length := payloadLength d, Mask := maskBytes d\<rparr>, ?n, None)"
      using n by (intro parseHeader_cong [OF p]) simp_all
    then show ?thesis by (simp add: p)
  qed
qed

lemma first_peek:
  assumes "2 \<le> length d" "parseHeader lib (take 2 d) = (h, k, e)"
  shows "(if k = 0 then announcedBytes (take 2 d) else k) = announcedBytes d"
proof -
  have "announcedBytes (take 2 d) = announcedBytes d" by (simp add: header_take)
  then show ?thesis using assms by (auto simp: parseHeader_def split: if_splits)
qed

lemma parseHeader_size:
  assumes "2 \<le> length d" "announcedBytes d \<le> length d" "parseHeader lib d = (h, n, None)"
  shows "n = announcedBytes d" "0 < n"
  using assms announcedBytes_ge [of d] by (auto simp: parseHeader_def split: if_splits)

lemma readHeader_eq:
  fixes st lib
  defines "d \<equiv> pending st" and "n \<equiv> announcedBytes (pending st)"
  shows "readHeaderZeroAlloc lib st =
    (if length d < 2 then (Inl (failure st), fill 2 st)
     else if length d < n then (Inl (failure st), fill n (fill 2 st))
     else case parseHeader lib d of
            (h, k, Some err) \<Rightarrow> (Inl err, fill n (fill 2 st))
          | (h, k, None) \<Rightarrow> (Inr h, Discard n (fill n (fill 2 st))))"
proof (cases "2 \<le> length d")
  case two: True
  obtain h k e where p: "parseHeader lib (take 2 d) = (h, k, e)" by (metis prod_cases3)
  have k: "(if k = 0 then announcedBytes (take 2 d) else k) = n"
    unfolding n_def using first_peek [OF two p] by (simp add: d_def)
  have read: "readHeaderZeroAlloc lib st =
      (case Peek n (fill 2 st) of
         (Inl err, st) \<Rightarrow> (Inl err, st)
       | (Inr b, st) \<Rightarrow>
           (case parseHeader lib b of
              (h, actualBytes, Some err) \<Rightarrow> (Inl err, st)
            | (h, actualBytes, None) \<Rightarrow>
                if actualBytes = 0 then (Inl ErrUnexpectedEOF, st)
                else (Inr h, Discard actualBytes st)))"
    unfolding readHeaderZeroAlloc_def Peek_eq [of 2] d_def [symmetric]
    using two by (simp add: p k Let_def)
  show ?thesis
  proof (cases "n \<le> length d")
    case True
    then have t: "parseHeader lib (take n d) = parseHeader lib d"
      using two by (simp add: n_def d_def parseHeader_take)
    have size: "k = n \<and> 0 < k" if "parseHeader lib d = (h, k, None)" for h k
      using parseHeader_size [OF two _ that] True by (simp add: n_def d_def)
    show ?thesis
      unfolding read Peek_eq using two True t size
      by (auto simp: d_def [symmetric] split: option.split prod.split)
  next
    case False
    then show ?thesis
      unfolding read Peek_eq using two by (simp add: d_def [symmetric])
  qed
qed (simp add: readHeaderZeroAlloc_def Peek_eq d_def)

lemma readHeader_error:
  assumes "headerOf lib (failure st) (pending st) = Inl e"
  shows "\<exists>st'. readHeaderZeroAlloc lib st = (Inl e, st')"
  using assms by (auto simp: readHeader_eq headerOf_def split: if_splits prod.splits option.splits)

lemma readHeader_whole:
  assumes "headerOf lib (failure st) (pending st) = Inr (h, n)"
  shows "\<exists>st'. readHeaderZeroAlloc lib st = (Inr h, st') \<and> pending st' = drop n (pending st)
     \<and> later st st'"
proof -
  let ?n = "announcedBytes (pending st)"
  have len: "2 \<le> length (pending st)" "?n \<le> length (pending st)"
    and p: "parseHeader lib (pending st) = (h, n, None)"
    using assms by (auto simp: headerOf_def split: if_splits prod.splits option.splits)
  have n: "n = ?n" by (rule parseHeader_size [OF len p])
  have "?n \<le> length (recv (fill ?n (fill 2 st)))" using len by (simp add: fill_enough)
  moreover have "later st (fill ?n (fill 2 st))" by (rule later_trans [of _ "fill 2 st"]) simp_all
  ultimately show ?thesis using len p n by (simp add: readHeader_eq pending_Discard)
qed

lemma be_value_split: "be_value a xs = a * 256 ^ length xs + be_value 0 xs"
proof (induction xs arbitrary: a)
  case (Cons x xs)
  show ?case using Cons [of "a * 256 + uint x"] Cons [of "uint x"] by (simp add: algebra_simps)
qed simp

lemma be_value_bounds: "0 \<le> be_value 0 xs \<and> be_value 0 xs < 256 ^ length xs"
proof (induction xs)
  case (Cons x xs)
  have x: "0 \<le> uint x" "uint x \<le> 255" using uint_lt2p [of x] by simp_all
  then have "uint x * 256 ^ length xs \<le> 255 * 256 ^ length xs" by (intro mult_right_mono) simp_all
  moreover have "(256 :: int) ^ length (x # xs) = 256 * 256 ^ length xs" by simp
  moreover have "be_value 0 (x # xs) = uint x * 256 ^ length xs + be_value 0 xs"
    using be_value_split [of "uint x" xs] by simp
  moreover have "0 \<le> uint x * 256 ^ length xs" using x by simp
  ultimately show ?case using Cons by linarith
qed simp

lemma wrap64_be_value_negative:
  assumes "length ext = 8" "128 \<le> hd ext"
  shows "wrap64 (be_value 0 ext) < 0"
proof -
  obtain x xs where ext: "ext = x # xs" "length xs = 7" using assms(1) by (cases ext) auto
  have "128 \<le> uint x" using assms(2) ext by (simp add: word_le_def)
  then have "128 * 256 ^ 7 \<le> uint x * 256 ^ 7" by (intro mult_right_mono) simp_all
  then have "128 * 256 ^ 7 \<le> be_value 0 ext"
    using be_value_split [of "uint x" xs] be_value_bounds [of xs] ext by simp
  moreover have "be_value 0 ext < 256 ^ 8" using be_value_bounds [of ext] assms(1) by simp
  ultimately show ?thesis using wrap64_overflow [of "be_value 0 ext"] by (simp add: maxInt_def)
qed

text \<open>
  A 64-bit length whose top bit is set becomes a negative payload length, and neither
  \<open>parseHeader\<close> nor a frame-size limit rejects it.
\<close>

lemma negative_length:
  assumes "length ext = 8" "128 \<le> hd ext" "\<not> IsControl lib 2"
  shows "\<exists>h. parseHeader lib ([130, 127] @ ext) = (h, 10, None) \<and> Length h < 0 \<and>
    \<not> (0 < limit \<and> Length h > limit)"
proof -
  have n: "announcedBytes ([130, 127] @ ext) = 10"
    by (simp add: announcedBytes_def lengthBits_def maskBit_def)
  have l: "lengthBits ([130, 127] @ ext) = 127" by (simp add: lengthBits_def)
  have "\<not> IsControl lib (OpCode (headerBits ([130, 127] @ ext)))"
    using assms(3) by (simp add: headerBits_def)
  then have p: "parseHeader lib ([130, 127] @ ext) =
      ((headerBits ([130, 127] @ ext))\<lparr>Length := payloadLength ([130, 127] @ ext),
         Mask := maskBytes ([130, 127] @ ext)\<rparr>, 10, None)"
    using parseHeader_whole [of "[130, 127] @ ext" lib] assms(1) by (simp only: n) simp
  have "payloadLength ([130, 127] @ ext) = wrap64 (be_value 0 ext)"
    using l assms(1) by (simp add: payloadLength_def)
  also have "\<dots> < 0" using assms(1,2) by (rule wrap64_be_value_negative)
  finally show ?thesis using p by simp
qed

section \<open>The protocol as a library\<close>

text \<open>An instance of the package that does what RFC 6455 says, to show that \<open>rfc6455\<close> can hold.\<close>

definition rfc_lib :: ws_lib where
  "rfc_lib =
     \<lparr>IsControl = (\<lambda>op. op AND 8 \<noteq> 0), OpContinuation = 0, OpClose = 8, OpPing = 9, OpPong = 10,
      Cipher = (\<lambda>p m off. map (\<lambda>i. (p ! i) XOR (m ! ((off + i) mod 4))) [0..<length p]),
      WriteHeader = rfcHeader\<rparr>"

lemma rfc_lib_rfc6455: "rfc6455 rfc_lib"
  by (auto simp: rfc6455_def rfc_lib_def xor.assoc intro!: nth_equalityI)

section \<open>Properties\<close>

text \<open>
  C30: every header that fits the protocol is parsed back from its wire form, whatever follows it,
  and no proper prefix of the wire form is taken for a header or for an error.
\<close>

theorem parse_header_roundtrip:
  assumes "valid_header lib h"
  shows "parseHeader lib (rfcHeader h @ rest) = (h, length (rfcHeader h), None) \<and>
    (\<forall>k < length (rfcHeader h). snd (parseHeader lib (take k (rfcHeader h))) = (0, None))"
proof (intro conjI allI impI)
  note p = parseHeader_rfcHeader [OF assms]
  show "parseHeader lib (rfcHeader h @ rest) = (h, length (rfcHeader h), None)" by (rule p)
  have len: "2 \<le> length (rfcHeader h)" by (simp add: rfcHeader_def Let_def)
  have p0: "parseHeader lib (rfcHeader h) = (h, length (rfcHeader h), None)"
    using p [of "[]"] by simp
  then have ann: "announcedBytes (rfcHeader h) = length (rfcHeader h)"
    using parseHeader_Some [OF p0] len by (cases "rfcHeader h") auto
  have ctl: "\<not> (IsControl lib (OpCode (headerBits (rfcHeader h))) \<and> lengthBits (rfcHeader h) > 125)"
    using p0 len by (auto simp: parseHeader_def split: if_splits)
  fix k assume k: "k < length (rfcHeader h)"
  show "snd (parseHeader lib (take k (rfcHeader h))) = (0, None)"
  proof (cases "k < 2")
    case False
    then show ?thesis
      using header_take [of k "rfcHeader h"] ann ctl k by (simp add: parseHeader_def)
  qed (use k in \<open>simp add: parseHeader_def\<close>)
qed

theorem parse_header_roundtrip_witness:
  "parseHeader rfc_lib ([129, 131, 1, 2, 3, 4] @ [9]) =
     (\<lparr>Fin = True, Rsv = 0, OpCode = 1, Masked = True, Mask = [1, 2, 3, 4], Length = 3\<rparr>, 6, None)"
proof -
  let ?h = "\<lparr>Fin = True, Rsv = 0, OpCode = 1, Masked = True, Mask = [1, 2, 3, 4], Length = 3\<rparr>"
  have "valid_header rfc_lib ?h" by (simp add: valid_header_def rfc_lib_def maxInt_def)
  moreover have "rfcHeader ?h = [129, 131, 1, 2, 3, 4]" by (simp add: rfcHeader_def)
  ultimately show ?thesis using parse_header_roundtrip [of rfc_lib ?h "[9]"] by simp
qed

text \<open>
  The header of a frame is read off a connection however its bytes arrive: the header is the
  parse of all the bytes to come, exactly the header's bytes are consumed, and when the connection
  ends inside a header its error is returned.
\<close>

theorem read_header_segmentation:
  shows "case headerOf lib (failure st) (pending st) of
      Inl e \<Rightarrow> \<exists>st'. readHeaderZeroAlloc lib st = (Inl e, st')
    | Inr (h, n) \<Rightarrow> \<exists>st'. readHeaderZeroAlloc lib st = (Inr h, st') \<and>
        pending st' = drop n (pending st) \<and> failure st' = failure st"
  using readHeader_error [of lib st] readHeader_whole [of lib st]
  by (auto simp: later_def split: sum.split)

end
