(* ===== verification/Ws_Assembler.thy ===== *)
theory Ws_Assembler
  imports Ws_Compression Ws_Frame
begin

text \<open>
  Message reassembly, \<open>src/pkg/websocket/assembler.go\<close>: \<open>Assembler.ProcessFrame\<close> on the buffer
  pools, and the abstract assembler it implements, which collects the fragments of a message in a
  plain list of bytes.
\<close>

section \<open>The assembler\<close>

text \<open>
  The fields of \<open>Config\<close> that frames depend on; the fields that only the handshake reads are added
  in the theory of the handshake.
\<close>

record Config =
  MaxFrameSize :: int
  EnableCompression :: bool

record Assembler =
  cfg :: Config
  buffer :: "slice option"
  isCompressed :: bool
  lastOpCode :: byte

definition NewAssembler :: "Config \<Rightarrow> Assembler" where
  "NewAssembler c = \<lparr>cfg = c, buffer = None, isCompressed = False, lastOpCode = 0\<rparr>"

definition ErrUnexpectedContinuation :: go_error where
  "ErrUnexpectedContinuation = Errorf ''unexpected continuation frame''"

definition ErrExpectedContinuation :: go_error where
  "ErrExpectedContinuation = Errorf ''expected continuation frame''"

definition ErrMessageTooLarge :: go_error where
  "ErrMessageTooLarge = Errorf ''message too large (buffered)''"

text \<open>
  The three kinds of result: an error, a frame that completes nothing yet, and a complete message
  with its opcode and \<open>isReassembled\<close>, which says that the data is a pooled buffer of its own.
\<close>

datatype frame_result = Failed go_error | Incomplete | Message slice byte bool

type_synonym ('r, 'w) assembly = "(frame_result \<times> Assembler \<times> ('r, 'w) comp_state) outcome"

text \<open>Growing the buffer if it has to be, and copying the payload behind what it holds.\<close>

definition appendPayload :: "bytes \<Rightarrow> slice \<times> pools \<Rightarrow> (slice \<times> pools) outcome" where
  "appendPayload payload = (\<lambda>(buf, ps).
     let required = slen buf + length payload in
     bind_outcome
       (if required > scap buf then
          let newSize = (if scap buf * 2 < required then required else scap buf * 2) in
          bind_outcome (getPayloadBuffer (int newSize) ps) (\<lambda>(newBuf, ps).
          let newBuf = copy_at newBuf 0 (content buf) in
          bind_outcome (reslice newBuf (int (slen buf))) (\<lambda>newBuf.
          Return (newBuf, putPayloadBuffer buf ps)))
        else Return (buf, ps))
       (\<lambda>(buf, ps).
          bind_outcome (reslice buf (int (slen buf + length payload))) (\<lambda>buf'.
          Return (copy_at buf' (slen buf) payload, ps))))"

text \<open>The first frame of a message.\<close>

definition startMessage ::
  "ws_lib \<Rightarrow> ('r, 'w) flate_lib \<Rightarrow> nat \<Rightarrow> ws_header \<Rightarrow> slice \<Rightarrow> Assembler \<times> ('r, 'w) comp_state \<Rightarrow>
     ('r, 'w) assembly" where
  "startMessage lib fl fuel header payload = (\<lambda>(a, st).
     if OpCode header = OpContinuation lib then Return (Failed ErrUnexpectedContinuation, a, st)
     else
       let a = a\<lparr>isCompressed := Rsv header = 4 \<and> EnableCompression (cfg a),
                 lastOpCode := OpCode header\<rparr> in
       if Fin header then
         if isCompressed a then
           bind_outcome (DecompressData fl fuel (content payload) (MaxFrameSize (cfg a)) st) (\<lambda>(r, st).
           Return (case r of Inl err \<Rightarrow> Failed err | Inr d \<Rightarrow> Message d (OpCode header) True, a, st))
         else Return (Message payload (OpCode header) False, a, st)
       else
         let initialSize = (if slen payload < 512 then 512 else slen payload) in
         bind_outcome (getPayloadBuffer (int initialSize) (bufs st)) (\<lambda>(buf, ps).
         bind_outcome (reslice (copy_at buf 0 (content payload)) (int (slen payload))) (\<lambda>buf.
         Return (Incomplete, a\<lparr>buffer := Some buf\<rparr>, st\<lparr>bufs := ps\<rparr>))))"

text \<open>A frame while \<open>buf\<close> holds the fragments so far.\<close>

definition continueMessage ::
  "ws_lib \<Rightarrow> ('r, 'w) flate_lib \<Rightarrow> nat \<Rightarrow> ws_header \<Rightarrow> slice \<Rightarrow> slice \<Rightarrow>
     Assembler \<times> ('r, 'w) comp_state \<Rightarrow> ('r, 'w) assembly" where
  "continueMessage lib fl fuel header payload buf = (\<lambda>(a, st).
     let release = st\<lparr>bufs := putPayloadBuffer buf (bufs st)\<rparr>;
         limit = MaxFrameSize (cfg a) in
     if OpCode header \<noteq> OpContinuation lib then
       Return (Failed ErrExpectedContinuation, a\<lparr>buffer := None\<rparr>, release)
     else if limit > 0 \<and> int (slen buf) + int (slen payload) > limit then
       Return (Failed ErrMessageTooLarge, a\<lparr>buffer := None\<rparr>, release)
     else
       bind_outcome (appendPayload (content payload) (buf, bufs st)) (\<lambda>(buf, ps).
       let st = st\<lparr>bufs := ps\<rparr> in
       if Fin header then
         let a = a\<lparr>buffer := None\<rparr> in
         if isCompressed a then
           bind_outcome (DecompressData fl fuel (content buf) limit st) (\<lambda>(r, st).
           Return (case r of Inl err \<Rightarrow> Failed err | Inr d \<Rightarrow> Message d (lastOpCode a) True, a,
                   st\<lparr>bufs := putPayloadBuffer buf (bufs st)\<rparr>))
         else Return (Message buf (lastOpCode a) True, a, st)
       else Return (Incomplete, a\<lparr>buffer := Some buf\<rparr>, st)))"

definition ProcessFrame ::
  "ws_lib \<Rightarrow> ('r, 'w) flate_lib \<Rightarrow> nat \<Rightarrow> ws_header \<Rightarrow> slice \<Rightarrow> Assembler \<times> ('r, 'w) comp_state \<Rightarrow>
     ('r, 'w) assembly" where
  "ProcessFrame lib fl fuel header payload = (\<lambda>(a, st).
     case buffer a of
       None \<Rightarrow> startMessage lib fl fuel header payload (a, st)
     | Some buf \<Rightarrow> continueMessage lib fl fuel header payload buf (a, st))"

section \<open>The abstract assembler\<close>

text \<open>
  The message under way: its opcode, whether it is compressed and the fragments so far.  The
  parameter \<open>inflate\<close> is the decompression of a whole message.
\<close>

type_synonym partial = "(byte \<times> bool \<times> bytes) option"

datatype delivery = Error go_error | Nothing | Deliver byte bytes

definition deliver :: "(bytes \<Rightarrow> go_error + bytes) \<Rightarrow> bool \<Rightarrow> byte \<Rightarrow> bytes \<Rightarrow> delivery" where
  "deliver inflate c op d =
     (if c then case inflate d of Inl e \<Rightarrow> Error e | Inr d' \<Rightarrow> Deliver op d' else Deliver op d)"

definition spec_frame ::
  "ws_lib \<Rightarrow> Config \<Rightarrow> (bytes \<Rightarrow> go_error + bytes) \<Rightarrow> ws_header \<Rightarrow> bytes \<Rightarrow> partial \<Rightarrow> delivery \<times> partial" where
  "spec_frame lib c inflate h p s =
     (case s of
        None \<Rightarrow>
          if OpCode h = OpContinuation lib then (Error ErrUnexpectedContinuation, None)
          else let z = (Rsv h = 4 \<and> EnableCompression c) in
               if Fin h then (deliver inflate z (OpCode h) p, None)
               else (Nothing, Some (OpCode h, z, p))
      | Some (op, z, d) \<Rightarrow>
          if OpCode h \<noteq> OpContinuation lib then (Error ErrExpectedContinuation, None)
          else if MaxFrameSize c > 0 \<and> int (length (d @ p)) > MaxFrameSize c
          then (Error ErrMessageTooLarge, None)
          else if Fin h then (deliver inflate z op (d @ p), None)
          else (Nothing, Some (op, z, d @ p)))"

text \<open>The two assemblers agree: the buffer holds the fragments and belongs to the assembler.\<close>

definition assembles :: "Assembler \<times> ('r, 'w) comp_state \<Rightarrow> partial \<Rightarrow> bool" where
  "assembles as s \<longleftrightarrow>
     (case as of (a, st) \<Rightarrow> pools_wf (bufs st) \<and>
        (case buffer a of
           None \<Rightarrow> s = None
         | Some buf \<Rightarrow> owned (buf, bufs st) \<and> s = Some (lastOpCode a, isCompressed a, content buf)))"

text \<open>The array of \<open>t\<close> belongs to somebody other than the assembler.\<close>

definition foreign :: "Assembler \<times> ('r, 'w) comp_state \<Rightarrow> slice \<Rightarrow> bool" where
  "foreign as t \<longleftrightarrow>
     (case as of (a, st) \<Rightarrow> pool_held (bufs st) t \<and> (\<forall>buf. buffer a = Some buf \<longrightarrow> addr t \<noteq> addr buf))"

text \<open>
  A result implements a delivery; a message that is marked as reassembled is a pooled buffer that
  only the caller holds, and one that is not marked is the payload itself.
\<close>

definition delivers :: "slice \<Rightarrow> Assembler \<times> ('r, 'w) comp_state \<Rightarrow> frame_result \<Rightarrow> delivery \<Rightarrow> bool" where
  "delivers payload as r d \<longleftrightarrow>
     (case r of
        Failed e \<Rightarrow> d = Error e
      | Incomplete \<Rightarrow> d = Nothing
      | Message m op own \<Rightarrow>
          d = Deliver op (content m) \<and>
          (if own then foreign as m \<and> slice_ok m \<and> addr m \<noteq> addr payload else m = payload))"

text \<open>
  One frame of the detailed assembler implements one frame of the abstract one: it returns, the
  results and the states agree, and buffers of others are left alone.
\<close>

definition implements ::
  "slice \<Rightarrow> Assembler \<times> ('r, 'w) comp_state \<Rightarrow> ('r, 'w) assembly \<Rightarrow> delivery \<times> partial \<Rightarrow> bool" where
  "implements payload as out spec \<longleftrightarrow>
     (\<exists>r as'. out = Return (r, as') \<and> cfg (fst as') = cfg (fst as) \<and> assembles as' (snd spec) \<and>
        delivers payload as' r (fst spec) \<and>
        (\<forall>t. foreign as t \<longrightarrow> foreign as' t \<and> (\<forall>m op. r = Message m op True \<longrightarrow> addr t \<noteq> addr m)))"

definition fragments :: "partial \<Rightarrow> bytes" where
  "fragments s = (case s of None \<Rightarrow> [] | Some (op, z, d) \<Rightarrow> d)"

section \<open>The detailed assembler implements the abstract one\<close>

lemma bucketOfCap_range: "bucketOfCap c = Some b \<Longrightarrow> 512 \<le> c \<and> c \<le> 64 * 1024"
  by (auto simp: bucketOfCap_def split: if_splits)

text \<open>Appending is what \<open>PooledWriter.Write\<close> does, although the two decide differently what to put back.\<close>

lemma appendPayload_eq: "appendPayload p w = PooledWriter_Write p w"
proof -
  have put: "(if 512 \<le> scap buf \<and> scap buf \<le> 64 * 1024 then putPayloadBuffer buf ps else ps) =
      putPayloadBuffer buf ps" for buf ps
    using bucketOfCap_range [of "scap buf"] by (auto simp: putPayloadBuffer_def split: option.split)
  show ?thesis
    unfolding appendPayload_def PooledWriter_Write_def Let_def put by (rule refl)
qed

lemma appendPayload_append:
  assumes "owned (buf, ps)"
  obtains buf' ps' where "appendPayload p (buf, ps) = Return (buf', ps')" "owned (buf', ps')"
    "undisturbed (buf, ps) (buf', ps')" "content buf' = content buf @ p"
proof -
  from assms obtain w' where "PooledWriter_Write p (buf, ps) = Return w'" "owned w'"
    "undisturbed (buf, ps) w'" "content (fst w') = content buf @ p"
    by (rule PooledWriter_Write_append) auto
  then show thesis by (intro that [of "fst w'" "snd w'"]) (simp_all add: appendPayload_eq)
qed

lemma foreign_None: "buffer a = None \<Longrightarrow> foreign (a, st) t \<longleftrightarrow> pool_held (bufs st) t"
  by (simp add: foreign_def)

lemma foreign_Some: "buffer a = Some buf \<Longrightarrow>
    foreign (a, st) t \<longleftrightarrow> pool_held (bufs st) t \<and> addr t \<noteq> addr buf"
  by (simp add: foreign_def)

text \<open>Decompressing a whole message, with nothing else in the assembler's hands.\<close>

lemma implements_decompress:
  assumes lib: "inflates fl final rest" "resets_readers fl final rest"
    and wf: "pools_wf (bufs st)" and fuel: "plain_size fl rest d < fuel"
    and a: "buffer a = None" "cfg a = c"
    and payload: "pool_held (bufs st) payload"
  shows "\<exists>r st'. DecompressData fl fuel d limit st = Return (r, st') \<and> pools_wf (bufs st') \<and>
    delivers payload (a, st') (case r of Inl err \<Rightarrow> Failed err | Inr m \<Rightarrow> Message m op True)
      (deliver (inflated fl final rest limit) True op d) \<and>
    (\<forall>t. pool_held (bufs st) t \<longrightarrow> pool_held (bufs st') t \<and> (\<forall>m. r = Inr m \<longrightarrow> addr t \<noteq> addr m))"
proof -
  from DecompressData_exact [OF lib wf fuel, of limit] obtain r st'
    where r: "DecompressData fl fuel d limit st = Return (r, st')" "pools_wf (bufs st')"
      "\<forall>t. pool_held (bufs st) t \<longrightarrow> pool_held (bufs st') t"
      "case inflated fl final rest limit d of
         Inl e \<Rightarrow> r = Inl e
       | Inr plain \<Rightarrow> \<exists>b. r = Inr b \<and> owned (b, bufs st') \<and> content b = plain \<and>
           (\<forall>t. pool_held (bufs st) t \<longrightarrow> addr t \<noteq> addr b)"
    by blast
  show ?thesis
  proof (cases "inflated fl final rest limit d")
    case (Inl e)
    with r show ?thesis by (auto simp: delivers_def deliver_def)
  next
    case (Inr plain)
    with r payload a show ?thesis
      by (auto simp: delivers_def deliver_def foreign_None owned_def)
  qed
qed

lemma startMessage_implements:
  assumes lib: "inflates fl final rest" "resets_readers fl final rest"
    and a: "buffer a = None" and wf: "pools_wf (bufs st)"
    and payload: "pool_held (bufs st) payload" "slice_ok payload"
    and fuel: "plain_size fl rest (content payload) < fuel"
  shows "implements payload (a, st) (startMessage lib fl fuel h payload (a, st))
    (spec_frame lib (cfg a) (inflated fl final rest (MaxFrameSize (cfg a))) h (content payload) None)"
proof -
  let ?a = "a\<lparr>isCompressed := Rsv h = 4 \<and> EnableCompression (cfg a), lastOpCode := OpCode h\<rparr>"
  have a': "buffer ?a = None" "cfg ?a = cfg a" using a by simp_all
  consider (cont) "OpCode h = OpContinuation lib"
    | (compressed) "OpCode h \<noteq> OpContinuation lib" "Fin h" "isCompressed ?a"
    | (plain) "OpCode h \<noteq> OpContinuation lib" "Fin h" "\<not> isCompressed ?a"
    | (fragment) "OpCode h \<noteq> OpContinuation lib" "\<not> Fin h"
    by blast
  then show ?thesis
  proof cases
    case cont
    then show ?thesis
      using a wf by (simp add: implements_def startMessage_def spec_frame_def assembles_def delivers_def)
  next
    case compressed
    from implements_decompress [OF lib wf fuel a' payload(1), of "MaxFrameSize (cfg a)" "OpCode h"]
    obtain r st' where r: "DecompressData fl fuel (content payload) (MaxFrameSize (cfg a)) st = Return (r, st')"
      "pools_wf (bufs st')"
      "delivers payload (?a, st') (case r of Inl err \<Rightarrow> Failed err | Inr m \<Rightarrow> Message m (OpCode h) True)
        (deliver (inflated fl final rest (MaxFrameSize (cfg a))) True (OpCode h) (content payload))"
      "\<forall>t. pool_held (bufs st) t \<longrightarrow> pool_held (bufs st') t \<and> (\<forall>m. r = Inr m \<longrightarrow> addr t \<noteq> addr m)"
      by blast
    let ?r = "case r of Inl err \<Rightarrow> Failed err | Inr m \<Rightarrow> Message m (OpCode h) True"
    have "startMessage lib fl fuel h payload (a, st) = Return (?r, ?a, st')"
      using compressed r(1) by (simp add: startMessage_def Let_def)
    moreover have "spec_frame lib (cfg a) (inflated fl final rest (MaxFrameSize (cfg a))) h (content payload) None =
        (deliver (inflated fl final rest (MaxFrameSize (cfg a))) True (OpCode h) (content payload), None)"
      using compressed by (simp add: spec_frame_def)
    ultimately show ?thesis
      using r(2-4) a a' unfolding implements_def
      by (intro exI [of _ ?r] exI [of _ "(?a, st')"])
        (auto simp: assembles_def foreign_None split: sum.splits)
  next
    case plain
    then show ?thesis
      using a wf by (auto simp: implements_def startMessage_def spec_frame_def assembles_def delivers_def
          deliver_def foreign_def)
  next
    case fragment
    define n where "n = (if slen payload < 512 then 512 else slen payload)"
    have n: "slen payload \<le> n" by (simp add: n_def)
    from payload.get_buffer [OF wf, of "int n"] obtain b ps
      where b: "getPayloadBuffer (int n) (bufs st) = Return (b, ps)" "pools_wf ps" "pool_held ps b"
        "slice_ok b" "slen b = n" "\<forall>t. pool_held (bufs st) t \<longrightarrow> pool_held ps t \<and> addr t \<noteq> addr b"
      by auto
    let ?b = "(copy_at b 0 (content payload))\<lparr>slen := slen payload\<rparr>"
    have cap: "slen payload \<le> scap (copy_at b 0 (content payload))"
      using n b(4,5) by (simp add: slice_ok_def)
    have out: "startMessage lib fl fuel h payload (a, st) =
        Return (Incomplete, ?a\<lparr>buffer := Some ?b\<rparr>, st\<lparr>bufs := ps\<rparr>)"
      using fragment b(1) reslice_Return [OF cap] by (simp add: startMessage_def Let_def n_def)
    have "content ?b = content payload"
      using content_copy_grow [OF payload(2) b(4)] n b(5) by simp
    moreover have "owned (?b, ps)"
      using b payload.held_addr [OF b(3), of ?b] cap by (simp add: owned_def slice_ok_grown)
    ultimately show ?thesis
      using fragment b(2,6) out a
      by (auto simp: implements_def spec_frame_def assembles_def delivers_def foreign_def)
  qed
qed

text \<open>Putting the assembler's buffer back.\<close>

lemma implements_release:
  assumes "owned (buf, bufs st)" "buffer a = Some buf"
  shows "implements payload (a, st)
    (Return (Failed e, a\<lparr>buffer := None\<rparr>, st\<lparr>bufs := putPayloadBuffer buf (bufs st)\<rparr>)) (Error e, None)"
  using assms payload.put_wf payload.put_held
  by (auto simp: implements_def assembles_def delivers_def foreign_def owned_def)

lemma continueMessage_implements:
  assumes lib: "inflates fl final rest" "resets_readers fl final rest"
    and a: "buffer a = Some buf" "owned (buf, bufs st)"
    and payload: "foreign (a, st) payload" "slice_ok payload"
    and fuel: "plain_size fl rest (content buf @ content payload) < fuel"
  shows "implements payload (a, st) (continueMessage lib fl fuel h payload buf (a, st))
    (spec_frame lib (cfg a) (inflated fl final rest (MaxFrameSize (cfg a))) h (content payload)
       (Some (lastOpCode a, isCompressed a, content buf)))"
proof -
  let ?limit = "MaxFrameSize (cfg a)" and ?inflate = "inflated fl final rest (MaxFrameSize (cfg a))"
  have ok: "slice_ok buf" using a(2) by (simp add: owned_def)
  obtain buf' ps where app: "appendPayload (content payload) (buf, bufs st) = Return (buf', ps)"
    "owned (buf', ps)" "undisturbed (buf, bufs st) (buf', ps)" "content buf' = content buf @ content payload"
    using appendPayload_append [OF a(2)] by blast
  have wf: "pools_wf ps" and held: "pool_held ps buf'" "slice_ok buf'"
    using app(2) by (simp_all add: owned_def)
  have other: "pool_held ps t \<and> addr t \<noteq> addr buf'" if "foreign (a, st) t" for t
    using that app(3) a(1) by (auto simp: foreign_Some undisturbed_def)
  let ?st = "st\<lparr>bufs := ps\<rparr>" and ?a = "a\<lparr>buffer := None\<rparr>"
  consider (expected) "OpCode h \<noteq> OpContinuation lib"
    | (large) "OpCode h = OpContinuation lib" "?limit > 0 \<and> int (slen buf) + int (slen payload) > ?limit"
    | (fragment) "OpCode h = OpContinuation lib" "\<not> (?limit > 0 \<and> int (slen buf) + int (slen payload) > ?limit)"
        "\<not> Fin h"
    | (last) "OpCode h = OpContinuation lib" "\<not> (?limit > 0 \<and> int (slen buf) + int (slen payload) > ?limit)"
        "Fin h"
    by blast
  then show ?thesis
  proof cases
    case expected
    then show ?thesis using implements_release [OF a(2,1)]
      by (simp add: continueMessage_def spec_frame_def Let_def)
  next
    case large
    then show ?thesis using implements_release [OF a(2,1)] ok payload(2)
      by (simp add: continueMessage_def spec_frame_def Let_def)
  next
    case fragment
    have "continueMessage lib fl fuel h payload buf (a, st) = Return (Incomplete, a\<lparr>buffer := Some buf'\<rparr>, ?st)"
      using fragment app(1) by (auto simp: continueMessage_def Let_def)
    moreover have "spec_frame lib (cfg a) ?inflate h (content payload)
        (Some (lastOpCode a, isCompressed a, content buf)) =
        (Nothing, Some (lastOpCode a, isCompressed a, content buf'))"
      using fragment ok payload(2) app(4) by (auto simp: spec_frame_def)
    ultimately show ?thesis
      using wf app(2) other by (auto simp: implements_def assembles_def delivers_def foreign_def)
  next
    case last
    have spec: "spec_frame lib (cfg a) ?inflate h (content payload)
        (Some (lastOpCode a, isCompressed a, content buf)) =
        (deliver ?inflate (isCompressed a) (lastOpCode a) (content buf'), None)"
      using last ok payload(2) app(4) by (auto simp: spec_frame_def)
    show ?thesis
    proof (cases "isCompressed a")
      case False
      have "continueMessage lib fl fuel h payload buf (a, st) = Return (Message buf' (lastOpCode a) True, ?a, ?st)"
        using last False app(1) by (auto simp: continueMessage_def Let_def)
      then show ?thesis
        using False wf held other other [OF payload(1)] unfolding spec implements_def
        by (auto simp: assembles_def delivers_def deliver_def foreign_None)
    next
      case True
      have fuel': "plain_size fl rest (content buf') < fuel" using fuel app(4) by simp
      from implements_decompress [OF lib _ fuel', of ?st ?a "cfg a" payload ?limit "lastOpCode a"]
        wf other [OF payload(1)]
      obtain r st' where r: "DecompressData fl fuel (content buf') ?limit ?st = Return (r, st')" "pools_wf (bufs st')"
        "delivers payload (?a, st') (case r of Inl err \<Rightarrow> Failed err | Inr m \<Rightarrow> Message m (lastOpCode a) True)
          (deliver ?inflate True (lastOpCode a) (content buf'))"
        "\<forall>t. pool_held ps t \<longrightarrow> pool_held (bufs st') t \<and> (\<forall>m. r = Inr m \<longrightarrow> addr t \<noteq> addr m)"
        by auto
      let ?r = "case r of Inl err \<Rightarrow> Failed err | Inr m \<Rightarrow> Message m (lastOpCode a) True"
      let ?st' = "st'\<lparr>bufs := putPayloadBuffer buf' (bufs st')\<rparr>"
      have out: "continueMessage lib fl fuel h payload buf (a, st) = Return (?r, ?a, ?st')"
        using last True app(1) r(1) by (auto simp: continueMessage_def Let_def split: sum.split)
      have held': "pool_held (bufs st') buf'" using r(4) held(1) by blast
      have "pools_wf (bufs ?st')" using payload.put_wf [OF r(2) held'] by simp
      moreover have "pool_held (bufs ?st') t" if "pool_held (bufs st') t" "addr t \<noteq> addr buf'" for t
        using payload.put_held [OF that] by simp
      moreover have "addr m \<noteq> addr buf'" if "r = Inr m" for m using r(4) held(1) that by metis
      ultimately show ?thesis
        using r(3,4) other True unfolding out spec implements_def
        by (intro exI [of _ ?r] exI [of _ "(?a, ?st')"])
          (auto simp: assembles_def delivers_def foreign_None deliver_def split: sum.splits)
    qed
  qed
qed

lemma ProcessFrame_implements:
  assumes lib: "inflates fl final rest" "resets_readers fl final rest"
    and rel: "assembles (a, st) s"
    and payload: "foreign (a, st) payload" "slice_ok payload"
    and fuel: "plain_size fl rest (fragments s @ content payload) < fuel"
  shows "implements payload (a, st) (ProcessFrame lib fl fuel h payload (a, st))
    (spec_frame lib (cfg a) (inflated fl final rest (MaxFrameSize (cfg a))) h (content payload) s)"
proof (cases "buffer a")
  case None
  with rel payload fuel show ?thesis
    using startMessage_implements [OF lib None, of st payload fuel lib h]
    by (simp add: ProcessFrame_def assembles_def fragments_def foreign_def)
next
  case (Some buf)
  with rel payload fuel show ?thesis
    using continueMessage_implements [OF lib Some, of st payload fuel lib h]
    by (simp add: ProcessFrame_def assembles_def fragments_def)
qed

section \<open>Properties\<close>

text \<open>
  C15: the assembler is a refinement.  While its buffer holds the fragments of the message under
  way, processing one more frame returns without a panic on every branch and does what the
  abstract assembler does: the same protocol and size errors, the same messages (concatenated, and
  decompressed when marked so), the same message left under way.  A message marked as
  reassembled is a pooled buffer nobody else holds, any other is the frame's payload itself, and
  the buffers of others are never touched.
\<close>

theorem assembler_refines:
  assumes "inflates fl final rest" "resets_readers fl final rest"
    and "assembles (a, st) s" "foreign (a, st) payload" "slice_ok payload"
    and "plain_size fl rest (fragments s @ content payload) < fuel"
  shows "implements payload (a, st) (ProcessFrame lib fl fuel h payload (a, st))
    (spec_frame lib (cfg a) (inflated fl final rest (MaxFrameSize (cfg a))) h (content payload) s)"
  using assms by (rule ProcessFrame_implements)

definition some_config :: Config where
  "some_config = \<lparr>MaxFrameSize = 100, EnableCompression = True\<rparr>"

theorem assembler_refines_witness:
  "\<exists>r as. ProcessFrame rfc_lib stored_lib 10 (zero_header\<lparr>Fin := True, Rsv := 4, OpCode := 1, Length := 3\<rparr>)
      ((slice_of (0, replicate 512 7))\<lparr>slen := 3\<rparr>)
      (NewAssembler some_config, empty_comp\<lparr>bufs := empty_pools\<lparr>next_addr := 1\<rparr>\<rparr>) =
      Return (r, as) \<and>
    delivers ((slice_of (0, replicate 512 7))\<lparr>slen := 3\<rparr>) as r (Deliver 1 [7, 7, 7])"
proof -
  let ?h = "zero_header\<lparr>Fin := True, Rsv := 4, OpCode := 1, Length := 3\<rparr>"
  let ?p = "(slice_of (0, replicate 512 7))\<lparr>slen := 3\<rparr>"
  let ?as = "(NewAssembler some_config, empty_comp\<lparr>bufs := empty_pools\<lparr>next_addr := 1\<rparr>\<rparr> :: (bytes, unit) comp_state)"
  have "assembles ?as None" by code_simp
  moreover have "foreign ?as ?p" by (simp add: foreign_def NewAssembler_def pool_held_def pooled_def empty_comp_def empty_pools_def)
  moreover have "slice_ok ?p" by (simp add: slice_ok_def scap_def)
  moreover have p: "content ?p = [7, 7, 7]" by (simp add: content_def numeral_3_eq_3)
  then have "plain_size stored_lib (\<lambda>r. r) (fragments None @ content ?p) < 10"
    by (simp add: plain_size_def stored_lib_def trailer_def fragments_def)
  ultimately have "implements ?p ?as (ProcessFrame rfc_lib stored_lib 10 ?h ?p ?as)
      (spec_frame rfc_lib (cfg (fst ?as)) (inflated stored_lib (\<lambda>_. EOF) (\<lambda>r. r) (MaxFrameSize (cfg (fst ?as)))) ?h
         (content ?p) None)"
    using assembler_refines [OF stored_lib_inflates stored_lib_resets, of _ _ None ?p 10 rfc_lib ?h] by simp
  moreover have "spec_frame rfc_lib (cfg (fst ?as)) (inflated stored_lib (\<lambda>_. EOF) (\<lambda>r. r) (MaxFrameSize (cfg (fst ?as)))) ?h
         (content ?p) None = (Deliver 1 [7, 7, 7], None)"
    unfolding p by (simp add: spec_frame_def NewAssembler_def some_config_def rfc_lib_def deliver_def inflated_def
        stored_lib_def trailer_def)
  ultimately show ?thesis unfolding implements_def by auto
qed

end
