(* ===== verification/Ws_Conn.thy ===== *)
theory Ws_Conn
  imports Ws_Assembler
begin

text \<open>
  Serving a WebSocket connection: \<open>ServeConn\<close> and \<open>processFrame\<close> of
  \<open>src/pkg/websocket/websocket.go\<close>.

  The handler is the application's: what it is told is a trace of events, in which the messages
  that the loop itself sends and its closing of the connection are recorded too.  The loop can run
  for ever on a peer that keeps sending, so it runs on fuel, and a lemma says how much is enough.
\<close>

section \<open>Events\<close>

datatype ws_event =
    OnOpen
  | OnMessage byte bytes
  | OnClose "go_error option"
  | OnPing bytes
  | OnPong bytes
  | ServerMessage byte bytes
  | ConnClosed

section \<open>The connection\<close>

record ('r, 'w) conn =
  net :: stream
  asm :: Assembler
  mem :: "('r, 'w) comp_state"
  trace :: "ws_event list"

text \<open>
  How \<open>ServeConn\<close> was called (is \<open>c\<close> a netpoll connection, is there a \<open>bufio.ReadWriter\<close>), and what
  netpoll answers in round \<open>k\<close> of the loop: whether the connection is active, how many segments
  have come in since the last round, whether \<open>Peek\<close> fails on bytes that are there, and what
  \<open>Next\<close> does when it is asked for a negative number of bytes.
\<close>

record mode =
  isNetpoll :: bool
  hasRW :: bool

record netpoll =
  IsActive :: "nat \<Rightarrow> bool"
  arrived :: "nat \<Rightarrow> nat"
  peekErr :: "nat \<Rightarrow> bool"
  nextNegative :: "go_error + bytes"

definition arrive :: "nat \<Rightarrow> stream \<Rightarrow> stream" where
  "arrive n st = st\<lparr>recv := recv st @ concat (take n (segs st)), segs := drop n (segs st)\<rparr>"

definition emit :: "ws_event list \<Rightarrow> ('r, 'w) conn \<Rightarrow> ('r, 'w) conn" where
  "emit es c = c\<lparr>trace := trace c @ es\<rparr>"

section \<open>One frame\<close>

text \<open>\<open>ws.Cipher\<close> changes the payload in place, so that the payload is part of the result.\<close>

definition unmask :: "ws_lib \<Rightarrow> ws_header \<Rightarrow> slice \<Rightarrow> slice" where
  "unmask lib h payload =
     (if Masked h then copy_at payload 0 (Cipher lib (content payload) (Mask h) 0) else payload)"

definition processFrame ::
  "ws_lib \<Rightarrow> ('r, 'w) flate_lib \<Rightarrow> nat \<Rightarrow> ws_header \<Rightarrow> slice \<Rightarrow> ('r, 'w) conn \<Rightarrow>
     (go_error option \<times> slice \<times> ('r, 'w) conn) outcome" where
  "processFrame lib fl dfuel h payload c =
     (let payload = unmask lib h payload in
      if IsControl lib (OpCode h) then
        if OpCode h = OpClose lib then Return (Some EOF, payload, emit [OnClose None, ConnClosed] c)
        else if OpCode h = OpPing lib then
          Return (None, payload, emit [OnPing (content payload), ServerMessage (OpPong lib) (content payload)] c)
        else if OpCode h = OpPong lib then Return (None, payload, emit [OnPong (content payload)] c)
        else Return (None, payload, c)
      else
        bind_outcome (ProcessFrame lib fl dfuel h payload (asm c, mem c)) (\<lambda>(r, a, m).
        let c = c\<lparr>asm := a, mem := m\<rparr> in
        case r of
          Failed err \<Rightarrow> Return (Some err, payload, emit [OnClose (Some err)] c)
        | Incomplete \<Rightarrow> Return (None, payload, c)
        | Message full op isReassembled \<Rightarrow>
            let c = emit [OnMessage op (content full)] c in
            Return (None, payload,
              if isReassembled then c\<lparr>mem := m\<lparr>bufs := putPayloadBuffer full (bufs m)\<rparr>\<rparr> else c)))"

section \<open>The loop\<close>

datatype ('r, 'w) serve_step = Done "go_error option" "('r, 'w) conn" | Again "('r, 'w) conn"

text \<open>The handler is told of an error, but of \<open>io.EOF\<close> as an orderly end.\<close>

definition closeWith :: "go_error \<Rightarrow> ('r, 'w) conn \<Rightarrow> ('r, 'w) serve_step" where
  "closeWith err c = Done (Some err) (emit [OnClose (if err = EOF then None else Some err)] c)"

text \<open>
  Reading the header: \<open>Inl None\<close> is the return of \<open>nil\<close> because the frame is not there yet.  With
  neither a \<open>bufio.ReadWriter\<close> nor netpoll nothing is read and the header stays zero.
\<close>

definition readFrameHeader ::
  "ws_lib \<Rightarrow> mode \<Rightarrow> netpoll \<Rightarrow> nat \<Rightarrow> stream \<Rightarrow> (go_error option + ws_header) \<times> stream" where
  "readFrameHeader lib md np k st =
     (if hasRW md then
        (case readHeaderZeroAlloc lib st of
           (Inl err, st) \<Rightarrow> (Inl (Some err), st)
         | (Inr h, st) \<Rightarrow> (Inr h, st))
      else if isNetpoll md then
        if peekErr np k then (Inl None, st)
        else
          let available = length (recv st);
              (h, headerBytes, _) = parseHeader lib (take (min available 14) (recv st)) in
          if headerBytes = 0 \<or> int available < wrap64 (int headerBytes + Length h) then (Inl None, st)
          else (Inr h, Discard headerBytes st)
      else (Inr zero_header, st))"

text \<open>
  Reading the payload: into a pooled buffer, or a slice of netpoll's own memory (an array that is
  in no pool).  The flag says that the buffer is pooled and has to be put back.
\<close>

definition readPayload ::
  "mode \<Rightarrow> netpoll \<Rightarrow> int \<Rightarrow> stream \<Rightarrow> ('r, 'w) comp_state \<Rightarrow>
     (go_error option \<times> slice \<times> stream \<times> ('r, 'w) comp_state) outcome" where
  "readPayload md np len st m =
     (if hasRW md then
        bind_outcome (getPayloadBuffer len (bufs m)) (\<lambda>(buf, ps).
        let m = m\<lparr>bufs := ps\<rparr> in
        case ReadFull (slen buf) st of
          (Inl err, st) \<Rightarrow> Return (Some err, buf, st, m)
        | (Inr data, st) \<Rightarrow> Return (None, copy_at buf 0 data, st, m))
      else
        let a = next_addr (bufs m);
            m = m\<lparr>bufs := (bufs m)\<lparr>next_addr := Suc a\<rparr>\<rparr>;
            (r, st) = (if \<not> isNetpoll md then (Inr [], st)
                       else if len < 0 then (nextNegative np, st)
                       else case Peek (nat len) st of
                              (Inl err, st) \<Rightarrow> (Inl err, st)
                            | (Inr data, st) \<Rightarrow> (Inr data, Discard (nat len) st))
        in case r of
             Inl err \<Rightarrow> Return (Some err, slice_of (a, []), st, m)
           | Inr data \<Rightarrow> Return (None, slice_of (a, data), st, m))"

definition putBack :: "mode \<Rightarrow> slice \<Rightarrow> ('r, 'w) conn \<Rightarrow> ('r, 'w) conn" where
  "putBack md payload c =
     (if hasRW md then c\<lparr>mem := (mem c)\<lparr>bufs := putPayloadBuffer payload (bufs (mem c))\<rparr>\<rparr> else c)"

text \<open>
  What happens after a frame: on a connection that is not netpoll's, with nothing left in the
  \<open>bufio.Reader\<close>, wait for the next byte and return.
\<close>

definition afterFrame :: "mode \<Rightarrow> ('r, 'w) conn \<Rightarrow> ('r, 'w) serve_step" where
  "afterFrame md c =
     (if \<not> isNetpoll md \<and> hasRW md \<and> recv (net c) = [] then
        (case Peek 1 (net c) of
           (Inl err, st) \<Rightarrow> closeWith err (c\<lparr>net := st\<rparr>)
         | (Inr b, st) \<Rightarrow> Done None (c\<lparr>net := st\<rparr>))
      else Again c)"

text \<open>The part of a round after the header: the size limit, the payload and the frame.\<close>

definition serveFrame ::
  "ws_lib \<Rightarrow> ('r, 'w) flate_lib \<Rightarrow> nat \<Rightarrow> mode \<Rightarrow> netpoll \<Rightarrow> ws_header \<Rightarrow> ('r, 'w) conn \<Rightarrow>
     ('r, 'w) serve_step outcome" where
  "serveFrame lib fl dfuel md np h c =
     (let limit = MaxFrameSize (cfg (asm c)) in
      if limit > 0 \<and> Length h > limit then
        let err = Errorf ''frame too large'' in Return (Done (Some err) (emit [OnClose (Some err)] c))
      else
        bind_outcome (readPayload md np (Length h) (net c) (mem c)) (\<lambda>(err, payload, st, m).
        let c = c\<lparr>net := st, mem := m\<rparr> in
        case err of
          Some err \<Rightarrow> Return (Done (Some err) (emit [OnClose (Some err)] (putBack md payload c)))
        | None \<Rightarrow>
            bind_outcome (processFrame lib fl dfuel h payload c) (\<lambda>(err, payload, c).
            Return (case err of
                      Some err \<Rightarrow> Done (Some err) (putBack md payload c)
                    | None \<Rightarrow> afterFrame md (putBack md payload c)))))"

definition serveRound ::
  "ws_lib \<Rightarrow> ('r, 'w) flate_lib \<Rightarrow> nat \<Rightarrow> mode \<Rightarrow> netpoll \<Rightarrow> nat \<Rightarrow> ('r, 'w) conn \<Rightarrow>
     ('r, 'w) serve_step outcome" where
  "serveRound lib fl dfuel md np k c =
     (let c = c\<lparr>net := arrive (arrived np k) (net c)\<rparr> in
      if isNetpoll md \<and> \<not> IsActive np k then Return (closeWith EOF c)
      else if isNetpoll md \<and> length (recv (net c)) < 2 then Return (Done None c)
      else
        case readFrameHeader lib md np k (net c) of
          (Inl None, st) \<Rightarrow> Return (Done None (c\<lparr>net := st\<rparr>))
        | (Inl (Some err), st) \<Rightarrow> Return (closeWith err (c\<lparr>net := st\<rparr>))
        | (Inr h, st) \<Rightarrow> serveFrame lib fl dfuel md np h (c\<lparr>net := st\<rparr>))"

fun ServeConn ::
  "ws_lib \<Rightarrow> ('r, 'w) flate_lib \<Rightarrow> nat \<Rightarrow> mode \<Rightarrow> netpoll \<Rightarrow> nat \<Rightarrow> nat \<Rightarrow> ('r, 'w) conn \<Rightarrow>
     (go_error option \<times> ('r, 'w) conn) outcome" where
  "ServeConn lib fl dfuel md np 0 k c = NoFuel"
| "ServeConn lib fl dfuel md np (Suc fuel) k c =
     bind_outcome (serveRound lib fl dfuel md np k c) (\<lambda>s.
     case s of
       Done err c \<Rightarrow> Return (err, c)
     | Again c \<Rightarrow> ServeConn lib fl dfuel md np fuel (Suc k) c)"

section \<open>The abstract connection\<close>

text \<open>What a frame with an unmasked payload makes happen, while \<open>s\<close> is the message under way.\<close>

definition spec_one ::
  "ws_lib \<Rightarrow> Config \<Rightarrow> (bytes \<Rightarrow> go_error + bytes) \<Rightarrow> ws_header \<Rightarrow> bytes \<Rightarrow> partial \<Rightarrow>
     ws_event list \<times> go_error option \<times> partial" where
  "spec_one lib cf inflate h p s =
     (if IsControl lib (OpCode h) then
        if OpCode h = OpClose lib then ([OnClose None, ConnClosed], Some EOF, s)
        else if OpCode h = OpPing lib then ([OnPing p, ServerMessage (OpPong lib) p], None, s)
        else if OpCode h = OpPong lib then ([OnPong p], None, s)
        else ([], None, s)
      else
        case spec_frame lib cf inflate h p s of
          (Error e, s') \<Rightarrow> ([OnClose (Some e)], Some e, s')
        | (Nothing, s') \<Rightarrow> ([], None, s')
        | (Deliver op d, s') \<Rightarrow> ([OnMessage op d], None, s'))"

text \<open>A sequence of frames; the first error ends it.\<close>

fun spec_conn ::
  "ws_lib \<Rightarrow> Config \<Rightarrow> (bytes \<Rightarrow> go_error + bytes) \<Rightarrow> (ws_header \<times> bytes) list \<Rightarrow> partial \<Rightarrow>
     ws_event list \<times> go_error option \<times> partial" where
  "spec_conn lib cf inflate [] s = ([], None, s)"
| "spec_conn lib cf inflate ((h, p) # fs) s =
     (case spec_one lib cf inflate h p s of
        (es, Some e, s') \<Rightarrow> (es, Some e, s')
      | (es, None, s') \<Rightarrow> (case spec_conn lib cf inflate fs s' of (es', r) \<Rightarrow> (es @ es', r)))"

definition unmaskBytes :: "ws_lib \<Rightarrow> ws_header \<Rightarrow> bytes \<Rightarrow> bytes" where
  "unmaskBytes lib h p = (if Masked h then Cipher lib p (Mask h) 0 else p)"

text \<open>The header and the payload of the bytes of one frame.\<close>

definition decodeFrame :: "ws_lib \<Rightarrow> bytes \<Rightarrow> ws_header \<times> bytes" where
  "decodeFrame lib m = (case parseHeader lib m of (h, n, _) \<Rightarrow> (h, unmaskBytes lib h (drop n m)))"

section \<open>One frame implements the abstract connection\<close>

lemma foreign_put:
  assumes "assembles (a, st) s" "foreign (a, st) m"
  shows "assembles (a, st\<lparr>bufs := putPayloadBuffer m (bufs st)\<rparr>) s"
    and "foreign (a, st) t \<Longrightarrow> addr t \<noteq> addr m \<Longrightarrow> foreign (a, st\<lparr>bufs := putPayloadBuffer m (bufs st)\<rparr>) t"
  using assms payload.put_wf payload.put_held
  by (auto simp: assembles_def foreign_def owned_def split: option.splits)

lemma unmask_facts:
  assumes "rfc6455 lib" "slice_ok p"
  shows "addr (unmask lib h p) = addr p" "slice_ok (unmask lib h p)"
    "content (unmask lib h p) = unmaskBytes lib h (content p)"
proof -
  have len: "length (Cipher lib (content p) (Mask h) 0) = slen p"
    using assms by (simp add: rfc6455_def)
  show "addr (unmask lib h p) = addr p" "slice_ok (unmask lib h p)"
    using assms(2) by (simp_all add: unmask_def)
  show "content (unmask lib h p) = unmaskBytes lib h (content p)"
    using assms(2) len by (simp add: unmask_def unmaskBytes_def content_def [of "copy_at p 0 x" for x]
      content_def [of "p\<lparr>backing := x\<rparr>" for x] copy_at_def Let_def)
qed

lemma spec_frame_Deliver: "spec_frame lib cf inflate h p s = (Deliver op d, s') \<Longrightarrow> s' = None"
  by (auto simp: spec_frame_def Let_def split: option.splits if_splits prod.splits)

text \<open>
  Connection \<open>c\<close> has the message \<open>s\<close> under way and goes to \<open>c'\<close> with the events \<open>es\<close>; buffers of
  others, all but the one of \<open>p\<close>, are left alone.
\<close>

definition advances :: "('r, 'w) conn \<Rightarrow> ws_event list \<Rightarrow> ('r, 'w) conn \<Rightarrow> partial \<Rightarrow> bool" where
  "advances c es c' s' \<longleftrightarrow>
     trace c' = trace c @ es \<and> assembles (asm c', mem c') s' \<and> cfg (asm c') = cfg (asm c) \<and>
     (\<forall>t. foreign (asm c, mem c) t \<longrightarrow> foreign (asm c', mem c') t)"

lemma processFrame_spec:
  fixes c :: "('r, 'w) conn"
  assumes lib: "rfc6455 lib" "inflates fl final rest" "resets_readers fl final rest"
    and rel: "assembles (asm c, mem c) s"
    and p: "foreign (asm c, mem c) p" "slice_ok p"
    and fuel: "plain_size fl rest (fragments s @ unmaskBytes lib h (content p)) < dfuel"
    and spec: "spec_one lib (cfg (asm c)) (inflated fl final rest (MaxFrameSize (cfg (asm c)))) h
      (unmaskBytes lib h (content p)) s = (es, err, s')"
  shows "\<exists>c'. processFrame lib fl dfuel h p c = Return (err, unmask lib h p, c') \<and> advances c es c' s' \<and>
    net c' = net c"
proof -
  let ?p = "unmask lib h p"
  note um = unmask_facts [OF lib(1) p(2), of h]
  have p': "foreign (asm c, mem c) ?p" using p(1) um(1) payload.held_addr [of _ p ?p]
    by (auto simp: foreign_def)
  show ?thesis
  proof (cases "IsControl lib (OpCode h)")
    case True
    with spec rel show ?thesis
      by (auto simp: processFrame_def spec_one_def advances_def emit_def um(3) split: if_splits)
  next
    case False
    let ?cf = "cfg (asm c)"
    from ProcessFrame_implements [OF lib(2,3) rel p' um(2), of dfuel lib h] fuel um(3)
    obtain r a m where r: "ProcessFrame lib fl dfuel h ?p (asm c, mem c) = Return (r, a, m)"
      "cfg a = ?cf" "assembles (a, m)
        (snd (spec_frame lib ?cf (inflated fl final rest (MaxFrameSize ?cf)) h (content ?p) s))"
      "delivers ?p (a, m) r
        (fst (spec_frame lib ?cf (inflated fl final rest (MaxFrameSize ?cf)) h (content ?p) s))"
      "\<forall>t. foreign (asm c, mem c) t \<longrightarrow> foreign (a, m) t \<and> (\<forall>x op. r = Message x op True \<longrightarrow> addr t \<noteq> addr x)"
      unfolding implements_def by auto
    obtain d s1 where d: "spec_frame lib ?cf (inflated fl final rest (MaxFrameSize ?cf)) h (content ?p) s = (d, s1)"
      by fastforce
    show ?thesis
    proof (cases r)
      case (Failed e)
      with r d False spec show ?thesis
        by (auto simp: processFrame_def Let_def spec_one_def um(3) delivers_def advances_def emit_def)
    next
      case Incomplete
      with r d False spec show ?thesis
        by (auto simp: processFrame_def Let_def spec_one_def um(3) delivers_def advances_def emit_def)
    next
      case (Message x op own)
      with r(4) d have dd: "d = Deliver op (content x)"
        "if own then foreign (a, m) x \<and> slice_ok x \<and> addr x \<noteq> addr ?p else x = ?p"
        by (auto simp: delivers_def)
      let ?c = "emit [OnMessage op (content x)] (c\<lparr>asm := a, mem := m\<rparr>)"
      let ?c' = "if own then ?c\<lparr>mem := m\<lparr>bufs := putPayloadBuffer x (bufs m)\<rparr>\<rparr> else ?c"
      have out: "processFrame lib fl dfuel h p c = Return (None, ?p, ?c')"
        using False r(1) Message by (simp add: processFrame_def Let_def)
      have sp: "es = [OnMessage op (content x)]" "err = None" "s' = s1"
        using spec False d dd(1) by (simp_all add: spec_one_def um(3))
      have "advances c es ?c' s'"
      proof (cases own)
        case True
        with dd(2) r(3) d have "foreign (a, m) x" "assembles (a, m) s1" by auto
        from foreign_put [OF this(2,1)] True r(2,5) Message sp show ?thesis
          by (auto simp: advances_def emit_def)
      next
        case False
        with r d sp show ?thesis by (auto simp: advances_def emit_def)
      qed
      moreover have "net ?c' = net c" by (simp add: emit_def)
      ultimately show ?thesis using out sp(2) by blast
    qed
  qed
qed

section \<open>One round\<close>

lemma pending_arrive [simp]: "pending (arrive n st) = pending st"
  by (simp add: arrive_def pending_def flip: concat_append)

lemma later_arrive: "later st (arrive n st)"
  by (simp add: later_def arrive_def)

text \<open>A frame at the front of the bytes to come.\<close>

lemma frameExtent_Some:
  assumes "frameExtent lib d = Some n"
  obtains h k where "parseHeader lib d = (h, k, None)" "0 < k" "0 \<le> Length h" "n = k + nat (Length h)"
    "n \<le> length d" "k = announcedBytes d" "headerOf lib e d = Inr (h, k)"
proof -
  from assms obtain h k where h: "parseHeader lib d = (h, k, None)" "0 < k" "0 \<le> Length h"
    "n = k + nat (Length h)" "n \<le> length d"
    by (auto simp: frameExtent_def split: prod.splits option.splits if_splits)
  have k: "k = announcedBytes d" using parseHeader_Some [OF h(1,2)] by simp
  have "2 \<le> length d" using h(4,5) k announcedBytes_ge [of d] by simp
  with h k show thesis by (intro that [of h k]) (simp_all add: headerOf_def)
qed

lemma announcedBytes_le: "announcedBytes b \<le> 14"
  by (simp add: announcedBytes_def)

lemma decodeFrame_take:
  assumes "frameExtent lib d = Some n" "parseHeader lib d = (h, k, None)" "0 < k"
  shows "decodeFrame lib (take n d) = (h, unmaskBytes lib h (take (nat (Length h)) (drop k d)))"
proof -
  obtain h' k' where d: "parseHeader lib d = (h', k', None)" "n = k' + nat (Length h')"
    using frameExtent_Some [OF assms(1)] by metis
  then have n: "n = k + nat (Length h)" using assms(2) by simp
  have "parseHeader lib (take n d) = (h, k, None)"
    by (rule parseHeader_cong [OF assms(2,3)]) (simp add: n)
  then show ?thesis by (simp add: decodeFrame_def n drop_take)
qed

text \<open>Is the whole frame of \<open>n\<close> bytes at hand for this kind of call?\<close>

definition ready :: "mode \<Rightarrow> nat \<Rightarrow> stream \<Rightarrow> bool" where
  "ready md n st \<longleftrightarrow> (if hasRW md then 2 \<le> length (recv st) else n \<le> length (recv st))"

text \<open>A header in the bytes received is read in either way.\<close>

lemma readFrameHeader_ready:
  assumes md: "isNetpoll md" and np: "\<not> peekErr np k"
    and n: "frameExtent lib (pending st) = Some n" and ready: "ready md n st"
    and h: "parseHeader lib (pending st) = (h, hb, None)" "0 < hb"
  obtains st' where "readFrameHeader lib md np k st = (Inr h, st')"
    "pending st' = drop hb (pending st)" "later st st'"
proof (cases "hasRW md")
  case True
  obtain h' k' where "parseHeader lib (pending st) = (h', k', None)"
    "headerOf lib (failure st) (pending st) = Inr (h', k')"
    using frameExtent_Some [OF n] by metis
  with h have "headerOf lib (failure st) (pending st) = Inr (h, hb)" by simp
  from readHeader_whole [OF this] True show thesis
    by (auto simp: readFrameHeader_def intro: that)
next
  case False
  let ?b = "take (min (length (recv st)) 14) (recv st)"
  obtain h' k' where hk: "parseHeader lib (pending st) = (h', k', None)" "0 \<le> Length h'"
    "n = k' + nat (Length h')" "k' = announcedBytes (pending st)"
    using frameExtent_Some [OF n] by metis
  with h have eq: "h' = h" "k' = hb" by simp_all
  have recv: "n \<le> length (recv st)" using ready False by (simp add: ready_def)
  have hb: "hb \<le> 14" "hb \<le> length (recv st)" using hk eq recv announcedBytes_le [of "pending st"] by auto
  have "take hb ?b = take hb (pending st)" using hb by (simp add: pending_def min_def)
  then have p: "parseHeader lib ?b = (h, hb, None)" using h by (intro parseHeader_cong [OF h]) simp_all
  have "\<not> int (length (recv st)) < wrap64 (int hb + Length h)"
  proof -
    have sum: "int hb + Length h \<le> int (length (recv st))" "0 \<le> int hb + Length h"
      using hk eq recv by auto
    have "wrap64 i \<le> i" if "0 \<le> i" for i
    proof -
      have "wrap64 i = (i + 2 ^ 63) mod 2 ^ 64 - 2 ^ 63" by (rule wrap64_def)
      moreover have "(i + 2 ^ 63) mod 2 ^ 64 \<le> i + 2 ^ 63" using that by (intro zmod_le_nonneg_dividend) simp
      ultimately show ?thesis by simp
    qed
    from this [OF sum(2)] sum(1) show ?thesis by simp
  qed
  then have "readFrameHeader lib md np k st = (Inr h, Discard hb st)"
    using False md np p h(2) by (simp add: readFrameHeader_def Let_def)
  then show thesis using hb by (intro that [of "Discard hb st"]) (simp_all add: pending_Discard)
qed

text \<open>A fresh array, pooled or not, does not disturb the assembler.\<close>

lemma assembles_fresh:
  assumes rel: "assembles (a, m) s" and wf: "pools_wf ps"
    and held: "\<And>t. pool_held (bufs m) t \<Longrightarrow> pool_held ps t \<and> addr t \<noteq> addr p" and p: "pool_held ps p"
  shows "assembles (a, m\<lparr>bufs := ps\<rparr>) s" "foreign (a, m\<lparr>bufs := ps\<rparr>) p"
    "foreign (a, m) t \<Longrightarrow> foreign (a, m\<lparr>bufs := ps\<rparr>) t \<and> addr t \<noteq> addr p"
proof -
  show "assembles (a, m\<lparr>bufs := ps\<rparr>) s"
    using rel wf held by (auto simp: assembles_def owned_def split: option.splits)
  have "addr p \<noteq> addr buf" if "buffer a = Some buf" for buf
    using that rel held [of buf] by (auto simp: assembles_def owned_def)
  then show "foreign (a, m\<lparr>bufs := ps\<rparr>) p" using p by (auto simp: foreign_def)
  show "foreign (a, m) t \<Longrightarrow> foreign (a, m\<lparr>bufs := ps\<rparr>) t \<and> addr t \<noteq> addr p"
    using held by (auto simp: foreign_def)
qed

lemma fresh_address:
  assumes "pools_wf ps"
  defines "ps' \<equiv> ps\<lparr>next_addr := Suc (next_addr ps)\<rparr>"
  shows "pools_wf ps'" "pool_held ps' (slice_of (next_addr ps, data))"
    "pool_held ps t \<Longrightarrow> pool_held ps' t \<and> addr t \<noteq> next_addr ps"
proof -
  show "pools_wf ps'" unfolding ps'_def using assms(1) by (rule pools_wf_next) simp
  have "pooled ps' = pooled ps" by (simp add: ps'_def pooled_def)
  then show "pool_held ps' (slice_of (next_addr ps, data))"
    "pool_held ps t \<Longrightarrow> pool_held ps' t \<and> addr t \<noteq> next_addr ps"
    using assms(1) by (auto simp: pool_held_def pools_wf_def list_all_iff ps'_def)
qed

text \<open>Reading the payload: a buffer of the connection's own with the next bytes in it.\<close>

lemma content_slice_of [simp]: "content (slice_of a) = snd a"
  by (simp add: content_def)

lemma content_copy_all: "slice_ok b \<Longrightarrow> length data = slen b \<Longrightarrow> content (copy_at b 0 data) = data"
  using take_content_copy_at [of b 0 data] by simp

lemma readPayload_ready:
  fixes m :: "('r, 'w) comp_state"
  assumes md: "isNetpoll md \<or> hasRW md" and n: "0 \<le> len" "nat len \<le> length (pending st)"
    and rel: "assembles (a, m) s"
  obtains p st' m' where "readPayload md np len st m = Return (None, p, st', m')"
    "content p = take (nat len) (pending st)" "pending st' = drop (nat len) (pending st)" "later st st'"
    "assembles (a, m') s" "foreign (a, m') p" "slice_ok p"
    "\<And>t. foreign (a, m) t \<Longrightarrow> foreign (a, m') t \<and> addr t \<noteq> addr p"
proof -
  have wf: "pools_wf (bufs m)" using rel by (simp add: assembles_def)
  show thesis
  proof (cases "hasRW md")
    case True
    obtain b ps where b: "getPayloadBuffer len (bufs m) = Return (b, ps)" "pools_wf ps" "pool_held ps b"
      "slice_ok b" "slen b = nat len" "\<And>t. pool_held (bufs m) t \<Longrightarrow> pool_held ps t \<and> addr t \<noteq> addr b"
      using payload.get_buffer [OF wf n(1)] by auto
    obtain st' where st: "ReadFull (nat len) st = (Inr (take (nat len) (pending st)), st')"
      "pending st' = drop (nat len) (pending st)" "later st st'"
      using ReadFull_enough [OF n(2)] by blast
    let ?p = "copy_at b 0 (take (nat len) (pending st))"
    have p: "pool_held ps ?p" using b(3) payload.held_addr by simp
    have fresh: "\<And>t. pool_held (bufs m) t \<Longrightarrow> pool_held ps t \<and> addr t \<noteq> addr ?p" using b(6) by simp
    note rel' = assembles_fresh [OF rel b(2) fresh p]
    show thesis
    proof (rule that)
      show "readPayload md np len st m = Return (None, ?p, st', m\<lparr>bufs := ps\<rparr>)"
        using True b(1,5) st(1) by (simp add: readPayload_def Let_def)
      show "content ?p = take (nat len) (pending st)" using b(4,5) n(2) by (intro content_copy_all) simp_all
    qed (use st rel' b(4) in simp_all)
  next
    case False
    note fresh = fresh_address [OF wf]
    let ?p = "slice_of (next_addr (bufs m), take (nat len) (pending st))"
    have others: "\<And>t. pool_held (bufs m) t \<Longrightarrow>
        pool_held ((bufs m)\<lparr>next_addr := Suc (next_addr (bufs m))\<rparr>) t \<and> addr t \<noteq> addr ?p"
      using fresh(3) by simp
    note rel' = assembles_fresh [OF rel fresh(1) others fresh(2)]
    have enough: "nat len \<le> length (recv (fill (nat len) st))" using n(2) by (simp add: fill_enough)
    show thesis
    proof (rule that)
      show "readPayload md np len st m = Return (None, ?p, Discard (nat len) (fill (nat len) st),
          m\<lparr>bufs := (bufs m)\<lparr>next_addr := Suc (next_addr (bufs m))\<rparr>\<rparr>)"
        using False md n by (simp add: readPayload_def Let_def Peek_eq)
      show "pending (Discard (nat len) (fill (nat len) st)) = drop (nat len) (pending st)"
        using pending_Discard [OF enough] by simp
      show "slice_ok ?p" by (simp add: slice_ok_def scap_def)
    qed (use rel' in simp_all)
  qed
qed

lemma putBack_advances:
  assumes adv: "advances c2 es c3 s'" and p: "foreign (asm c2, mem c2) p" and q: "addr q = addr p"
    and old: "trace c2 = trace c" "asm c2 = asm c"
      "\<And>t. foreign (asm c, mem c) t \<Longrightarrow> foreign (asm c2, mem c2) t \<and> addr t \<noteq> addr p"
  shows "advances c es (putBack md q c3) s'"
proof -
  have "foreign (asm c3, mem c3) p" using adv p by (simp add: advances_def)
  then have "foreign (asm c3, mem c3) q"
    using q payload.held_addr [of _ p q] by (auto simp: foreign_def)
  with foreign_put [of "asm c3" "mem c3" s' q] adv q old show ?thesis
    by (auto simp: advances_def putBack_def)
qed

lemma net_putBack [simp]: "net (putBack md q c) = net c"
  by (simp add: putBack_def)

text \<open>
  One round with a whole frame at hand: the frame is consumed and what it makes happen is what the
  abstract connection says; an error of the frame ends the loop.
\<close>

lemma serveRound_frame:
  fixes c :: "('r, 'w) conn"
  assumes lib: "rfc6455 lib" "inflates fl final rest" "resets_readers fl final rest"
    and md: "isNetpoll md" and np: "IsActive np k" "\<not> peekErr np k"
    and rel: "assembles (asm c, mem c) s"
    and n: "frameExtent lib (pending (net c)) = Some n"
    and ready: "ready md n (arrive (arrived np k) (net c))" "2 \<le> length (recv (arrive (arrived np k) (net c)))"
    and f: "decodeFrame lib (take n (pending (net c))) = (h, p)"
    and limit: "\<not> (MaxFrameSize (cfg (asm c)) > 0 \<and> Length h > MaxFrameSize (cfg (asm c)))"
    and fuel: "plain_size fl rest (fragments s @ p) < dfuel"
    and spec: "spec_one lib (cfg (asm c)) (inflated fl final rest (MaxFrameSize (cfg (asm c)))) h p s = (es, err, s')"
  shows "\<exists>c'. serveRound lib fl dfuel md np k c =
      Return (case err of Some e \<Rightarrow> Done (Some e) c' | None \<Rightarrow> Again c') \<and>
    advances c es c' s' \<and> pending (net c') = drop n (pending (net c)) \<and> later (net c) (net c')"
proof -
  let ?st = "arrive (arrived np k) (net c)" and ?d = "pending (net c)"
  obtain h' hb where hb: "parseHeader lib ?d = (h', hb, None)" "0 < hb" "0 \<le> Length h'"
    "n = hb + nat (Length h')" "n \<le> length ?d"
    using frameExtent_Some [OF n] by metis
  from decodeFrame_take [OF n hb(1,2)] f
  have h: "h' = h" and p: "p = unmaskBytes lib h (take (nat (Length h)) (drop hb ?d))" by auto
  obtain st1 where st1: "readFrameHeader lib md np k ?st = (Inr h, st1)" "pending st1 = drop hb ?d"
    "later (arrive (arrived np k) (net c)) st1"
    using readFrameHeader_ready [OF md np(2) _ ready(1), of lib h hb] n hb h by auto
  have len: "0 \<le> Length h" "nat (Length h) \<le> length (pending st1)" using hb h st1(2) by auto
  obtain q st2 m2 where q: "readPayload md np (Length h) st1 (mem c) = Return (None, q, st2, m2)"
    "content q = take (nat (Length h)) (pending st1)" "pending st2 = drop (nat (Length h)) (pending st1)"
    "later st1 st2" "assembles (asm c, m2) s" "foreign (asm c, m2) q" "slice_ok q"
    "\<And>t. foreign (asm c, mem c) t \<Longrightarrow> foreign (asm c, m2) t \<and> addr t \<noteq> addr q"
    using readPayload_ready [OF disjI1 [OF md] len rel] by metis
  let ?c2 = "c\<lparr>net := st2, mem := m2\<rparr>"
  have "p = unmaskBytes lib h (content q)" using p q(2) st1(2) by simp
  with processFrame_spec [OF lib, of ?c2 s q h dfuel] q(5-7) fuel spec
  obtain c3 where c3: "processFrame lib fl dfuel h q ?c2 = Return (err, unmask lib h q, c3)"
    "advances ?c2 es c3 s'" "net c3 = st2"
    by auto
  let ?c4 = "putBack md (unmask lib h q) c3"
  have "advances c es ?c4 s'"
    using putBack_advances [OF c3(2), of q "unmask lib h q" c md] q(6,8) unmask_facts(1) [OF lib(1) q(7)]
    by simp
  moreover have "serveRound lib fl dfuel md np k c =
      Return (case err of Some e \<Rightarrow> Done (Some e) ?c4 | None \<Rightarrow> Again ?c4)"
    using md np ready(2) limit st1(1) q(1) c3(1)
    by (auto simp: serveRound_def serveFrame_def Let_def afterFrame_def split: option.split)
  moreover have "pending (net ?c4) = drop n ?d" "later (net c) (net ?c4)"
    using c3(3) q(3) st1(2) hb(4) h later_trans [OF later_trans [OF later_arrive st1(3)] q(4)]
    by (simp_all add: add.commute)
  ultimately show ?thesis by blast
qed

section \<open>The loop implements the abstract connection\<close>

text \<open>
  The bytes left over do not make the loop act: a reader that blocks has not enough of them to
  start on a header, and netpoll's own buffer holds no header with an absurd length.
\<close>

definition sane :: "ws_lib \<Rightarrow> bytes \<Rightarrow> bool" where
  "sane lib d =
     (case parseHeader lib d of
        (h, n, None) \<Rightarrow> n = 0 \<or> 0 \<le> Length h \<and> int n + Length h \<le> maxInt
      | (h, n, Some e) \<Rightarrow> True)"

definition quiet :: "ws_lib \<Rightarrow> mode \<Rightarrow> bytes \<Rightarrow> bool" where
  "quiet lib md d \<longleftrightarrow> (if hasRW md then length d < 2 else sane lib d)"

text \<open>Nothing to do for now: the loop returns and every byte stays where it is.\<close>

definition idle :: "ws_lib \<Rightarrow> mode \<Rightarrow> bytes \<Rightarrow> bool" where
  "idle lib md d \<longleftrightarrow> (if hasRW md then length d < 2 else frameExtent lib d = None)"

lemma sane_frame:
  assumes "frameExtent lib d = Some n" "int (length d) \<le> maxInt"
  shows "sane lib d"
proof -
  obtain h k where "parseHeader lib d = (h, k, None)" "0 \<le> Length h" "n = k + nat (Length h)" "n \<le> length d"
    using frameExtent_Some [OF assms(1)] by metis
  with assms(2) show ?thesis by (auto simp: sane_def)
qed

lemma readFrameHeader_wait:
  assumes "\<not> hasRW md" "isNetpoll md" "\<not> peekErr np k"
    and idle: "frameExtent lib (recv st) = None" and sane: "sane lib (pending st)"
  shows "readFrameHeader lib md np k st = (Inl None, st)"
proof -
  let ?b = "take (min (length (recv st)) 14) (recv st)"
  obtain h hb e where p: "parseHeader lib ?b = (h, hb, e)" by (metis prod_cases3)
  have "int (length (recv st)) < wrap64 (int hb + Length h)" if hb: "hb \<noteq> 0"
  proof -
    have e: "e = None" using p hb by (auto simp: parseHeader_def split: if_splits)
    note p = p [unfolded e]
    have len: "hb \<le> length ?b" using parseHeader_Some [OF p] hb by auto
    have r: "parseHeader lib (recv st) = (h, hb, None)"
      using hb len by (intro parseHeader_cong [OF p]) (auto simp: min_def)
    then have "parseHeader lib (pending st) = (h, hb, None)"
      using hb len by (intro parseHeader_cong [OF r]) (auto simp: pending_def)
    with sane hb have bound: "0 \<le> Length h" "int hb + Length h \<le> maxInt" by (auto simp: sane_def)
    then have "wrap64 (int hb + Length h) = int hb + Length h"
      by (intro wrap64_id) (simp add: int64_range_def maxInt_def)
    moreover have "length (recv st) < hb + nat (Length h)"
      using idle r hb bound(1) by (auto simp: frameExtent_def split: if_splits)
    ultimately show ?thesis using bound(1) by simp
  qed
  then show ?thesis using assms(1-3) p by (auto simp: readFrameHeader_def Let_def)
qed

lemma serveRound_wait:
  fixes c :: "('r, 'w) conn"
  defines "st \<equiv> \<lambda>np k c. arrive (arrived np k) (net (c :: ('r, 'w) conn))"
  assumes "isNetpoll md" "IsActive np k" "\<not> peekErr np k"
    and idle: "idle lib md (recv (st np k c))" and sane: "\<not> hasRW md \<longrightarrow> sane lib (pending (net c))"
  shows "serveRound lib fl dfuel md np k c = Return (Done None (c\<lparr>net := st np k c\<rparr>))"
proof (cases "length (recv (st np k c)) < 2")
  case True
  then show ?thesis using assms by (simp add: serveRound_def Let_def)
next
  case False
  with idle have "\<not> hasRW md" "frameExtent lib (recv (st np k c)) = None"
    by (auto simp: idle_def split: if_splits)
  with readFrameHeader_wait [of md np k lib "st np k c"] assms False show ?thesis
    by (simp add: serveRound_def Let_def)
qed

lemma spec_one_fragments:
  "spec_one lib cf inflate h p s = (es, err, s') \<Longrightarrow> length (fragments s') \<le> length (fragments s) + length p"
  by (auto simp: spec_one_def spec_frame_def fragments_def Let_def deliver_def
      split: if_splits option.splits prod.splits delivery.splits sum.splits)

lemma advances_trans:
  "advances c es c' s' \<Longrightarrow> advances c' es' c'' s'' \<Longrightarrow> advances c (es @ es') c'' s''"
  by (simp add: advances_def)

lemma advances_wait: "assembles (asm c, mem c) s \<Longrightarrow> advances c [] (c\<lparr>net := st\<rparr>) s"
  by (simp add: advances_def)

text \<open>The frame at the front is whole, or the loop has to wait.\<close>

lemma ready_or_idle:
  assumes "int (length (pending st)) \<le> maxInt"
    and "frames (frameExtent lib) (pending st) = (ms, left)" "quiet lib md left"
  obtains (ready) n ms' where "frameExtent lib (pending st) = Some n" "ready md n st" "2 \<le> length (recv st)"
      "ms = take n (pending st) # ms'" "frames (frameExtent lib) (drop n (pending st)) = (ms', left)"
  | (idle) "idle lib md (recv st)" "\<not> hasRW md \<longrightarrow> sane lib (pending st)"
proof (cases "frameExtent lib (pending st)")
  case None
  then have left: "left = pending st" using ws_frame.frames_None [OF None] assms(2) by simp
  have "frameExtent lib (recv st) = None"
    using None ws_frame.extent_append [of lib "recv st" _ "concat (segs st)"]
    by (cases "frameExtent lib (recv st)") (auto simp: pending_def)
  moreover have "length (recv st) \<le> length (pending st)" by (simp add: pending_def)
  ultimately show thesis using assms(3) left by (intro idle) (auto simp: idle_def quiet_def)
next
  case (Some n)
  have n: "2 \<le> n"
    using frameExtent_Some [OF Some] announcedBytes_ge [of "pending st"] by (metis trans_le_add1)
  from ws_frame.frames_Some [OF Some] assms(2)
  have ms: "ms = take n (pending st) # fst (frames (frameExtent lib) (drop n (pending st)))"
    "frames (frameExtent lib) (drop n (pending st)) = (fst (frames (frameExtent lib) (drop n (pending st))), left)"
    by (auto simp: prod_eq_iff)
  show thesis
  proof (cases "ready md n st")
    case True
    with n have "2 \<le> length (recv st)" by (auto simp: ready_def split: if_splits)
    with True Some ms show thesis by (intro ready)
  next
    case False
    have "frameExtent lib (recv st) = None" if "\<not> hasRW md"
    proof (cases "frameExtent lib (recv st)")
      case (Some n')
      from ws_frame.extent_append [OF this, of "concat (segs st)"] \<open>frameExtent lib (pending st) = Some n\<close>
      have "n' = n" by (simp add: pending_def)
      with Some that False ws_frame.extent_bound [OF Some] show ?thesis by (simp add: ready_def)
    qed
    with False sane_frame [OF Some assms(1)] show thesis
      by (intro idle) (auto simp: idle_def ready_def split: if_splits)
  qed
qed

lemma serve_frames:
  fixes c :: "('r, 'w) conn" and fl :: "('r, 'w) flate_lib"
  assumes lib: "rfc6455 lib" "inflates fl final rest" "resets_readers fl final rest"
    and md: "isNetpoll md" and np: "\<And>k. IsActive np k" "\<And>k. \<not> peekErr np k"
    and rel: "assembles (asm c, mem c) s"
    and ms: "frames (frameExtent lib) (pending (net c)) = (ms, left)" "quiet lib md left"
    and size: "int (length (pending (net c))) \<le> maxInt"
    and limit: "\<forall>m \<in> set ms. \<not> (MaxFrameSize cf > 0 \<and> Length (fst (decodeFrame lib m)) > MaxFrameSize cf)"
    and dfuel: "\<And>d. length d \<le> length (fragments s) + length (pending (net c)) \<Longrightarrow> plain_size fl rest d < dfuel"
    and fuel: "length ms < fuel" and cf: "cfg (asm c) = cf"
  shows "\<exists>j c' es err s'. j \<le> length ms \<and>
    spec_conn lib cf (inflated fl final rest (MaxFrameSize cf)) (map (decodeFrame lib) (take j ms)) s = (es, err, s') \<and>
    ServeConn lib fl dfuel md np fuel k c = Return (err, c') \<and> advances c es c' s' \<and>
    pending (net c') = concat (drop j ms) @ left \<and> later (net c) (net c') \<and>
    (err = None \<longrightarrow> idle lib md (recv (net c')))"
  using rel ms size limit dfuel fuel cf
proof (induction fuel arbitrary: c s ms k)
  case 0
  then show ?case by simp
next
  case (Suc fuel)
  let ?st = "arrive (arrived np k) (net c)"
  have "int (length (pending ?st)) \<le> maxInt" "frames (frameExtent lib) (pending ?st) = (ms, left)"
    using Suc.prems(2,4) by simp_all
  then show ?case using Suc.prems(3)
  proof (cases rule: ready_or_idle)
    case idle
    have "ServeConn lib fl dfuel md np (Suc fuel) k c = Return (None, c\<lparr>net := ?st\<rparr>)"
      using serveRound_wait [where md = md and np = np and k = k and c = c] md np idle by simp
    moreover have "pending ?st = concat ms @ left"
      using ws_frame.frames_concat [of lib "pending ?st"] Suc.prems(2) by simp
    ultimately show ?thesis
      using idle(1) Suc.prems(1) by (intro exI [of _ 0]) (simp add: advances_wait later_arrive)
  next
    case (ready n ms')
    let ?m = "take n (pending (net c))" and ?inf = "inflated fl final rest (MaxFrameSize cf)"
    have n: "frameExtent lib (pending (net c)) = Some n" and ms: "ms = ?m # ms'"
      and ms': "frames (frameExtent lib) (drop n (pending (net c))) = (ms', left)" using ready by simp_all
    obtain h p where hp: "decodeFrame lib ?m = (h, p)" by fastforce
    obtain es err s' where one: "spec_one lib cf ?inf h p s = (es, err, s')" by (metis prod_cases3)
    obtain hk k' where hk: "parseHeader lib (pending (net c)) = (hk, k', None)" "0 < k'"
      "n = k' + nat (Length hk)" "n \<le> length (pending (net c))"
      using frameExtent_Some [OF n] by metis
    from decodeFrame_take [OF n hk(1,2)] hp hk(3,4)
    have p: "length p \<le> n" using lib(1) by (auto simp: unmaskBytes_def rfc6455_def)
    have "plain_size fl rest (fragments s @ p) < dfuel"
      using p hk(4) by (intro Suc.prems(6)) simp
    with serveRound_frame [OF lib md np Suc.prems(1) n ready(2,3) hp _ _ one [folded Suc.prems(8)], of dfuel]
      Suc.prems(5,8) ms hp
    obtain c1 where c1: "serveRound lib fl dfuel md np k c =
        Return (case err of Some e \<Rightarrow> Done (Some e) c1 | None \<Rightarrow> Again c1)"
      "advances c es c1 s'" "pending (net c1) = drop n (pending (net c))" "later (net c) (net c1)"
      by auto
    show ?thesis
    proof (cases err)
      case (Some e)
      have "pending (net c1) = concat ms' @ left"
        using ws_frame.frames_concat [of lib "drop n (pending (net c))"] ms' c1(3) by simp
      then show ?thesis
        using Some c1 one hp ms by (intro exI [of _ 1] exI [of _ c1] exI [of _ es] exI [of _ err] exI [of _ s']) simp
    next
      case None
      have "plain_size fl rest d < dfuel"
        if "length d \<le> length (fragments s') + length (pending (net c1))" for d
        using that c1(3) p hk(4) spec_one_fragments [OF one] by (intro Suc.prems(6)) simp
      moreover have "int (length (pending (net c1))) \<le> maxInt" using Suc.prems(4) c1(3) by simp
      moreover have "frames (frameExtent lib) (pending (net c1)) = (ms', left)" using ms' c1(3) by simp
      ultimately obtain j c' es' err' s'' where IH: "j \<le> length ms'"
        "spec_conn lib cf ?inf (map (decodeFrame lib) (take j ms')) s' = (es', err', s'')"
        "ServeConn lib fl dfuel md np fuel (Suc k) c1 = Return (err', c')" "advances c1 es' c' s''"
        "pending (net c') = concat (drop j ms') @ left" "later (net c1) (net c')" "err' = None \<longrightarrow> idle lib md (recv (net c'))"
        using Suc.IH [of c1 s' ms' "Suc k"] Suc.prems(3,5,7,8) ms c1(2) by (auto simp: advances_def)
      have "ServeConn lib fl dfuel md np (Suc fuel) k c = Return (err', c')"
        using None c1(1) IH(3) by simp
      moreover have "spec_conn lib cf ?inf (map (decodeFrame lib) (take (Suc j) ms)) s = (es @ es', err', s'')"
        using None one hp ms IH(2) by simp
      ultimately show ?thesis
        using IH(1,5,7) advances_trans [OF c1(2) IH(4)] later_trans [OF c1(4) IH(6)] ms
        by (intro exI [of _ "Suc j"] exI [of _ c'] exI [of _ "es @ es'"] exI [of _ err'] exI [of _ s'']) simp
    qed
  qed
qed

section \<open>The handler is told of the end once\<close>

definition closes :: "ws_event list \<Rightarrow> nat" where
  "closes es = length (filter (\<lambda>e. case e of OnClose _ \<Rightarrow> True | _ \<Rightarrow> False) es)"

lemma closes_simps [simp]:
  "closes [] = 0" "closes (OnClose e # es) = Suc (closes es)" "closes (ConnClosed # es) = closes es"
  "closes (OnMessage op p # es) = closes es" "closes (OnPing p # es) = closes es"
  "closes (OnPong p # es) = closes es" "closes (ServerMessage op p # es) = closes es"
  "closes (es @ es') = closes es + closes es'"
  by (simp_all add: closes_def)

text \<open>
  \<open>c'\<close> continues \<open>c\<close>, with one more report of an end exactly when there is an error, and with none of a start.
\<close>

definition reports :: "go_error option \<Rightarrow> ('r, 'w) conn \<Rightarrow> ('r, 'w) conn \<Rightarrow> bool" where
  "reports err c c' \<longleftrightarrow>
     (\<exists>es. trace c' = trace c @ es \<and> closes es = (if err = None then 0 else 1) \<and> OnOpen \<notin> set es)"

lemma reports_emit: "reports err c (emit es c) \<longleftrightarrow> closes es = (if err = None then 0 else 1) \<and> OnOpen \<notin> set es"
  by (simp add: reports_def emit_def)

lemma reports_cong: "trace c1 = trace c \<Longrightarrow> trace c2 = trace c' \<Longrightarrow> reports err c1 c2 = reports err c c'"
  by (simp add: reports_def)

lemma reports_trans: "reports None c c' \<Longrightarrow> reports err c' c'' \<Longrightarrow> reports err c c''"
  by (auto simp: reports_def)

lemma bind_outcome_Return_iff:
  "bind_outcome x f = Return y \<longleftrightarrow> (\<exists>z. x = Return z \<and> f z = Return y)"
  by (cases x) simp_all

lemma processFrame_reports:
  assumes "processFrame lib fl dfuel h p c = Return (err, p', c')"
  shows "reports err c c'"
proof (cases "IsControl lib (OpCode h)")
  case True
  with assms show ?thesis by (auto simp: processFrame_def Let_def reports_def emit_def split: if_splits)
next
  case False
  with assms obtain r a m where "ProcessFrame lib fl dfuel h (unmask lib h p) (asm c, mem c) = Return (r, a, m)"
    by (auto simp: processFrame_def Let_def bind_outcome_Return_iff)
  with assms False show ?thesis
    by (cases r) (auto simp: processFrame_def Let_def reports_def emit_def)
qed

lemma trace_putBack [simp]: "trace (putBack md p c) = trace c"
  by (simp add: putBack_def)

definition step_reports :: "('r, 'w) conn \<Rightarrow> ('r, 'w) serve_step \<Rightarrow> bool" where
  "step_reports c s = (case s of Done err c' \<Rightarrow> reports err c c' | Again c' \<Rightarrow> reports None c c')"

lemma closeWith_reports: "trace c' = trace c \<Longrightarrow> step_reports c (closeWith err c')"
  by (simp add: step_reports_def closeWith_def reports_def emit_def)

lemma afterFrame_reports: "reports None c c' \<Longrightarrow> step_reports c (afterFrame md c')"
  by (auto simp: step_reports_def afterFrame_def closeWith_def reports_def emit_def
      split: prod.splits sum.splits)

lemma serveFrame_reports:
  assumes "serveFrame lib fl dfuel md np h c = Return s"
  shows "step_reports c s"
proof (cases "MaxFrameSize (cfg (asm c)) > 0 \<and> Length h > MaxFrameSize (cfg (asm c))")
  case True
  with assms show ?thesis by (auto simp: serveFrame_def Let_def step_reports_def reports_emit)
next
  case small: False
  then obtain err p st m where
    rp: "readPayload md np (Length h) (net c) (mem c) = Return (err, p, st, m)"
    using assms by (fastforce simp: serveFrame_def Let_def bind_outcome_Return_iff split: if_splits)
  let ?c = "c\<lparr>net := st, mem := m\<rparr>"
  show ?thesis
  proof (cases err)
    case (Some e)
    with assms small rp show ?thesis
      by (auto simp: serveFrame_def Let_def step_reports_def reports_def emit_def split: if_splits)
  next
    case None
    with assms small rp obtain err' p' c' where
      pf: "processFrame lib fl dfuel h p ?c = Return (err', p', c')"
      and s: "s = (case err' of Some err \<Rightarrow> Done (Some err) (putBack md p' c')
              | None \<Rightarrow> afterFrame md (putBack md p' c'))"
      by (auto simp: serveFrame_def Let_def bind_outcome_Return_iff split: if_splits)
    have "reports err' c (putBack md p' c')"
      using processFrame_reports [OF pf] by (simp add: reports_def)
    then show ?thesis unfolding s
      by (cases err') (simp_all add: step_reports_def [of c "Done x y" for x y] afterFrame_reports)
  qed
qed

lemma serveRound_reports:
  assumes "serveRound lib fl dfuel md np k c = Return s"
  shows "step_reports c s"
proof -
  let ?st = "arrive (arrived np k) (net c)"
  have cong: "step_reports (c\<lparr>net := st\<rparr>) s \<Longrightarrow> step_reports c s" for st
    by (cases s) (simp_all add: step_reports_def reports_def)
  obtain r st where r: "readFrameHeader lib md np k ?st = (r, st)" by fastforce
  show ?thesis
  proof (cases "isNetpoll md \<and> (\<not> IsActive np k \<or> length (recv ?st) < 2)")
    case True
    with assms show ?thesis
      by (auto simp: serveRound_def Let_def step_reports_def closeWith_def reports_def emit_def split: if_splits)
  next
    case False
    with assms r have "(case r of Inl None \<Rightarrow> Return (Done None (c\<lparr>net := st\<rparr>))
        | Inl (Some err) \<Rightarrow> Return (closeWith err (c\<lparr>net := st\<rparr>))
        | Inr h \<Rightarrow> serveFrame lib fl dfuel md np h (c\<lparr>net := st\<rparr>)) = Return s"
      by (auto simp: serveRound_def Let_def split: if_splits sum.splits option.splits)
    then show ?thesis
      by (auto simp: step_reports_def [of c "Done x y" for x y] reports_def closeWith_reports
          split: sum.splits option.splits intro: cong dest: serveFrame_reports)
  qed
qed

section \<open>The server side always returns\<close>

lemma readPayload_short:
  fixes m :: "('r, 'w) comp_state"
  assumes md: "hasRW md" and n: "0 \<le> len" "length (pending st) < nat len"
    and rel: "assembles (a, m) s"
  obtains e p st' m' where "readPayload md np len st m = Return (Some e, p, st', m')"
    "assembles (a, m') s" "foreign (a, m') p"
proof -
  have wf: "pools_wf (bufs m)" using rel by (simp add: assembles_def)
  obtain b ps where b: "getPayloadBuffer len (bufs m) = Return (b, ps)" "pools_wf ps" "pool_held ps b"
    "slen b = nat len" "\<And>t. pool_held (bufs m) t \<Longrightarrow> pool_held ps t \<and> addr t \<noteq> addr b"
    using payload.get_buffer [OF wf n(1)] by auto
  note rel' = assembles_fresh [OF rel b(2,5,3)]
  obtain e st' where "ReadFull (nat len) st = (Inl e, st')"
    using ReadFull_short [OF n(2)] by metis
  then have "readPayload md np len st m = Return (Some e, b, st', m\<lparr>bufs := ps\<rparr>)"
    using md b(1,4) by (simp add: readPayload_def Let_def)
  then show thesis using rel' by (intro that)
qed

lemma putBack_assembles:
  assumes "assembles (asm c, mem c) s" "foreign (asm c, mem c) p"
  shows "assembles (asm (putBack md p c), mem (putBack md p c)) s"
  using foreign_put(1) [OF assms] assms(1) by (simp add: putBack_def)

text \<open>
  What a round of the server can come to: a panic on a negative length, an end, or a connection
  with at least a header's bytes less to come and at most those more under way.
\<close>

definition round_ok :: "ws_lib \<Rightarrow> ('r, 'w) conn \<Rightarrow> partial \<Rightarrow> ('r, 'w) serve_step outcome \<Rightarrow> bool" where
  "round_ok lib c s out \<longleftrightarrow>
     (case out of
        Panic \<Rightarrow> Length (fst (parseHeader lib (pending (net c)))) < 0
      | NoFuel \<Rightarrow> False
      | Return (Done err c') \<Rightarrow> \<exists>s'. assembles (asm c', mem c') s'
      | Return (Again c') \<Rightarrow>
          \<exists>n s'. 2 \<le> n \<and> n \<le> length (pending (net c)) \<and> pending (net c') = drop n (pending (net c)) \<and>
            assembles (asm c', mem c') s' \<and> length (fragments s') \<le> length (fragments s) + n)"

lemma round_ok_Done: "assembles (asm c', mem c') s' \<Longrightarrow> round_ok lib c s (Return (Done err c'))"
  by (auto simp: round_ok_def)

lemma afterFrame_ok:
  assumes "assembles (asm c', mem c') s'" "2 \<le> n" "n \<le> length (pending (net c))"
    "pending (net c') = drop n (pending (net c))" "length (fragments s') \<le> length (fragments s) + n"
  shows "round_ok lib c s (Return (afterFrame md c'))"
proof (cases "\<not> isNetpoll md \<and> hasRW md \<and> recv (net c') = []")
  case True
  with assms(1) show ?thesis
    by (auto simp: afterFrame_def closeWith_def emit_def Peek_eq intro: round_ok_Done)
next
  case False
  then have "afterFrame md c' = Again c'" by (auto simp: afterFrame_def)
  with assms show ?thesis by (auto simp: round_ok_def)
qed

lemma serveFrame_ok:
  fixes c :: "('r, 'w) conn"
  assumes lib: "rfc6455 lib" "inflates fl final rest" "resets_readers fl final rest" and md: "hasRW md"
    and rel: "assembles (asm c, mem c) s"
    and h: "headerOf lib e (pending (net c0)) = Inr (h, n)" and c: "pending (net c) = drop n (pending (net c0))"
    and dfuel: "\<And>d. length d \<le> length (fragments s) + length (pending (net c0)) \<Longrightarrow> plain_size fl rest d < dfuel"
  shows "round_ok lib c0 s (serveFrame lib fl dfuel md np h c)"
proof -
  let ?d = "pending (net c0)"
  from h have p: "parseHeader lib ?d = (h, n, None)" and len: "2 \<le> length ?d" "announcedBytes ?d \<le> length ?d"
    by (auto simp: headerOf_def split: if_splits prod.splits option.splits)
  have n: "2 \<le> n" "n \<le> length ?d" using parseHeader_size [OF len p] len announcedBytes_ge [of ?d] by auto
  show ?thesis
  proof (cases "MaxFrameSize (cfg (asm c)) > 0 \<and> Length h > MaxFrameSize (cfg (asm c))")
    case True
    with rel show ?thesis by (auto simp: serveFrame_def Let_def emit_def intro: round_ok_Done)
  next
    case small: False
    consider (negative) "Length h < 0" | (short) "0 \<le> Length h" "length (pending (net c)) < nat (Length h)"
      | (whole) "0 \<le> Length h" "nat (Length h) \<le> length (pending (net c))" by linarith
    then show ?thesis
    proof cases
      case negative
      then have "serveFrame lib fl dfuel md np h c = Panic"
        using small md by (auto simp: serveFrame_def readPayload_def Let_def getPayloadBuffer_negative)
      with negative p show ?thesis by (simp add: round_ok_def)
    next
      case short
      obtain e' q st' m' where q: "readPayload md np (Length h) (net c) (mem c) = Return (Some e', q, st', m')"
        "assembles (asm c, m') s" "foreign (asm c, m') q"
        using readPayload_short [OF md short rel] by blast
      let ?c = "c\<lparr>net := st', mem := m'\<rparr>"
      have "serveFrame lib fl dfuel md np h c = Return (Done (Some e') (emit [OnClose (Some e')] (putBack md q ?c)))"
        using small q(1) by (auto simp: serveFrame_def Let_def)
      with putBack_assembles [of ?c s q md] q(2,3) show ?thesis by (auto simp: emit_def intro: round_ok_Done)
    next
      case whole
      obtain q st2 m2 where q: "readPayload md np (Length h) (net c) (mem c) = Return (None, q, st2, m2)"
        "content q = take (nat (Length h)) (pending (net c))" "pending st2 = drop (nat (Length h)) (pending (net c))"
        "assembles (asm c, m2) s" "foreign (asm c, m2) q" "slice_ok q"
        "\<And>t. foreign (asm c, mem c) t \<Longrightarrow> foreign (asm c, m2) t \<and> addr t \<noteq> addr q"
        using readPayload_ready [OF _ whole rel, of md np] md by metis
      let ?c2 = "c\<lparr>net := st2, mem := m2\<rparr>" and ?p = "unmaskBytes lib h (content q)"
      have lenp: "length ?p = nat (Length h)"
        using whole q(2) lib(1) by (auto simp: unmaskBytes_def rfc6455_def)
      have total: "n + nat (Length h) \<le> length ?d" using whole(2) c n by simp
      obtain es err s' where one: "spec_one lib (cfg (asm c)) (inflated fl final rest (MaxFrameSize (cfg (asm c)))) h ?p s = (es, err, s')"
        by (metis prod_cases3)
      have "plain_size fl rest (fragments s @ ?p) < dfuel" using lenp total by (intro dfuel) simp
      with processFrame_spec [OF lib, of ?c2 s q h dfuel es err s'] q(4-6) one
      obtain c3 where c3: "processFrame lib fl dfuel h q ?c2 = Return (err, unmask lib h q, c3)"
        "advances ?c2 es c3 s'" "net c3 = st2"
        by auto
      let ?c4 = "putBack md (unmask lib h q) c3"
      have "advances c es ?c4 s'"
        using putBack_advances [OF c3(2), of q "unmask lib h q" c md] q(5,7) unmask_facts(1) [OF lib(1) q(6)] by simp
      then have rel4: "assembles (asm ?c4, mem ?c4) s'" by (simp add: advances_def)
      have "serveFrame lib fl dfuel md np h c =
          Return (case err of Some e \<Rightarrow> Done (Some e) ?c4 | None \<Rightarrow> afterFrame md ?c4)"
        using small q(1) c3(1) by (auto simp: serveFrame_def Let_def)
      moreover have "pending (net ?c4) = drop (n + nat (Length h)) ?d"
        using c3(3) q(3) c by (simp add: add.commute)
      moreover have "length (fragments s') \<le> length (fragments s) + (n + nat (Length h))"
        using spec_one_fragments [OF one] lenp by simp
      ultimately show ?thesis
        using afterFrame_ok [OF rel4, of "n + nat (Length h)" c0 s lib md] n total rel4
        by (cases err) (auto intro: round_ok_Done)
    qed
  qed
qed

lemma serveRound_ok:
  fixes c :: "('r, 'w) conn"
  assumes lib: "rfc6455 lib" "inflates fl final rest" "resets_readers fl final rest" and md: "hasRW md"
    and rel: "assembles (asm c, mem c) s"
    and dfuel: "\<And>d. length d \<le> length (fragments s) + length (pending (net c)) \<Longrightarrow> plain_size fl rest d < dfuel"
  shows "round_ok lib c s (serveRound lib fl dfuel md np k c)"
proof (cases "isNetpoll md \<and> (\<not> IsActive np k \<or> length (recv (arrive (arrived np k) (net c))) < 2)")
  case True
  with rel show ?thesis
    by (auto simp: serveRound_def Let_def closeWith_def emit_def intro: round_ok_Done)
next
  case False
  let ?st = "arrive (arrived np k) (net c)"
  show ?thesis
  proof (cases "headerOf lib (failure ?st) (pending ?st)")
    case (Inl e)
    from readHeader_error [OF this] obtain st' where "readHeaderZeroAlloc lib ?st = (Inl e, st')" by blast
    with False md rel show ?thesis
      by (auto simp: serveRound_def Let_def readFrameHeader_def closeWith_def emit_def intro: round_ok_Done)
  next
    case (Inr hn)
    obtain h n where hn: "hn = (h, n)" by (cases hn)
    from readHeader_whole [OF Inr [unfolded hn]] obtain st' where st':
      "readHeaderZeroAlloc lib ?st = (Inr h, st')" "pending st' = drop n (pending ?st)" by blast
    then have "serveRound lib fl dfuel md np k c = serveFrame lib fl dfuel md np h (c\<lparr>net := st'\<rparr>)"
      using False md by (auto simp: serveRound_def Let_def readFrameHeader_def)
    with serveFrame_ok [OF lib md, of "c\<lparr>net := st'\<rparr>" s "failure ?st" c h n dfuel np] rel Inr hn st'(2) dfuel
    show ?thesis by simp
  qed
qed

lemma ServeConn_reports:
  "ServeConn lib fl dfuel md np fuel k c = Return (err, c') \<Longrightarrow> reports err c c'"
proof (induction fuel arbitrary: k c)
  case (Suc fuel)
  then obtain s where s: "serveRound lib fl dfuel md np k c = Return s"
    "(case s of Done err c \<Rightarrow> Return (err, c)
      | Again c \<Rightarrow> ServeConn lib fl dfuel md np fuel (Suc k) c) = Return (err, c')"
    by (auto simp: bind_outcome_Return_iff)
  from serveRound_reports [OF s(1)] s(2) Suc.IH show ?case
    by (auto simp: step_reports_def split: serve_step.splits intro: reports_trans)
qed simp

section \<open>Properties\<close>

text \<open>
  C18: the handler hears of the end of a connection exactly once: in every way of calling it and
  whatever the peer sends, a return of \<open>ServeConn\<close> with an error comes with exactly one
  \<open>OnClose\<close>, and a return without an error with none.
\<close>

theorem serve_conn_close_once:
  assumes "ServeConn lib fl dfuel md np fuel k c = Return (err, c')"
  shows "\<exists>es. trace c' = trace c @ es \<and> closes es = (if err = None then 0 else 1)"
  using ServeConn_reports [OF assms] by (auto simp: reports_def)

text \<open>
  C3: \<open>ServeConn\<close> is a refinement of the abstract connection.  On an active netpoll connection, called
  with a \<open>bufio.ReadWriter\<close> (the server) or without (the client), however the bytes have come
  in or come in while the loop runs, the loop returns, the handler is told exactly what the frames of
  the stream say in their order (messages reassembled and decompressed, pings answered), the bytes
  of the frames handled are gone and all others are still there, and without an error the
  loop only returns when no frame is left that it could start on; the pools are in order after it.
\<close>

theorem serve_conn_refines:
  fixes c :: "('r, 'w) conn" and fl :: "('r, 'w) flate_lib"
  assumes "rfc6455 lib" "inflates fl final rest" "resets_readers fl final rest"
    and "isNetpoll md" "\<forall>k. IsActive np k" "\<forall>k. \<not> peekErr np k"
    and "assembles (asm c, mem c) s"
    and "frames (frameExtent lib) (pending (net c)) = (ms, left)" "quiet lib md left"
    and "int (length (pending (net c))) \<le> maxInt" "cf = cfg (asm c)"
    and "\<forall>m \<in> set ms. \<not> (MaxFrameSize cf > 0 \<and> Length (fst (decodeFrame lib m)) > MaxFrameSize cf)"
    and "\<forall>d. length d \<le> length (fragments s) + length (pending (net c)) \<longrightarrow> plain_size fl rest d < dfuel"
    and "length ms < fuel"
  shows "\<exists>j c' es err s'. j \<le> length ms \<and>
    spec_conn lib cf (inflated fl final rest (MaxFrameSize cf)) (map (decodeFrame lib) (take j ms)) s = (es, err, s') \<and>
    ServeConn lib fl dfuel md np fuel k c = Return (err, c') \<and> advances c es c' s' \<and>
    pending (net c') = concat (drop j ms) @ left \<and> later (net c) (net c') \<and>
    (err = None \<longrightarrow> idle lib md (recv (net c')))"
  using assms by (intro serve_frames) simp_all


text \<open>
  C40: a peer can crash the server.  A data frame whose 64-bit length has its top bit set passes the
  frame-size limit whatever it is and makes \<open>ServeConn\<close> panic.
\<close>

theorem serve_conn_negative_length:
  assumes "rfc6455 lib" "hasRW md" "IsActive np k" "recv (net c) = [130, 127] @ ext @ behind"
    "length ext = 8" "128 \<le> hd ext"
  shows "ServeConn lib fl dfuel md np (Suc fuel) k c = Panic"
proof -
  let ?st = "arrive (arrived np k) (net c)"
  have ctl: "\<not> IsControl lib 2" using assms(1) by (simp add: rfc6455_def)
  from negative_length [OF assms(5,6) ctl, of "MaxFrameSize (cfg (asm c))"] obtain h
    where h: "parseHeader lib ([130, 127] @ ext) = (h, 10, None)" "Length h < 0"
      "\<not> (0 < MaxFrameSize (cfg (asm c)) \<and> Length h > MaxFrameSize (cfg (asm c)))" by blast
  have len: "2 \<le> length (recv ?st)" using assms(4) by (simp add: arrive_def)
  have d: "pending ?st = ([130, 127] @ ext) @ behind @ concat (segs (net c))"
    using assms(4) unfolding pending_arrive by (simp add: pending_def)
  have p: "parseHeader lib (pending ?st) = (h, 10, None)"
    unfolding d by (rule parseHeader_cong [OF h(1)]) (simp_all add: assms(5))
  have "headerOf lib (failure ?st) (pending ?st) = Inr (h, 10)"
    using p parseHeader_Some [OF p] d assms(5) by (simp add: headerOf_def)
  from readHeader_whole [OF this] obtain st' where "readHeaderZeroAlloc lib ?st = (Inr h, st')" by blast
  then show ?thesis
    using assms(2,3) len h(2,3)
    by (auto simp: serveRound_def serveFrame_def Let_def readFrameHeader_def readPayload_def getPayloadBuffer_negative)
qed

text \<open>
  The two ways of reading disagree about an oversized control frame: with a
  \<open>bufio.ReadWriter\<close> the connection is closed with the header's error, while on netpoll's own buffer
  the call returns without an error and consumes nothing, so that every later call does the
  same and the connection is stuck.
\<close>

theorem serve_conn_oversized_control:
  assumes "isNetpoll md" "IsActive np k" "\<not> peekErr np k" "2 \<le> length (recv (net c))" "segs (net c) = []"
    "IsControl lib (OpCode (headerBits (recv (net c))))" "lengthBits (recv (net c)) > 125"
    "announcedBytes (recv (net c)) \<le> length (recv (net c))"
  shows "if hasRW md
    then \<exists>c'. ServeConn lib fl dfuel md np (Suc fuel) k c = Return (Some (Errorf ''control frame length > 125''), c') \<and>
      trace c' = trace c @ [OnClose (Some (Errorf ''control frame length > 125''))]
    else ServeConn lib fl dfuel md np (Suc fuel) k c = Return (None, c)"
proof -
  let ?d = "recv (net c)"
  have st: "arrive (arrived np k) (net c) = net c" "pending (net c) = ?d"
    using assms(5) by (simp_all add: arrive_def pending_def)
  have p: "parseHeader lib ?d = (headerBits ?d, 0, Some (Errorf ''control frame length > 125''))"
    using assms(4,6,7) by (simp add: parseHeader_def)
  show ?thesis
  proof (cases "hasRW md")
    case True
    have "headerOf lib (failure (net c)) (pending (net c)) = Inl (Errorf ''control frame length > 125'')"
      using p assms(4,8) st(2) by (simp add: headerOf_def)
    from readHeader_error [OF this] obtain st' where
      "readHeaderZeroAlloc lib (net c) = (Inl (Errorf ''control frame length > 125''), st')" by blast
    with True assms(1,2,4) st(1) show ?thesis
      by (simp add: serveRound_def Let_def readFrameHeader_def closeWith_def emit_def)
  next
    case False
    let ?b = "take (min (length ?d) 14) ?d"
    have "2 \<le> min (length ?d) 14" using assms(4) by simp
    note t = header_take [OF this, of ?d]
    have "parseHeader lib ?b = (headerBits ?d, 0, Some (Errorf ''control frame length > 125''))"
      using assms(4,6,7) t by (simp add: parseHeader_def)
    with False assms(1-4) st(1) show ?thesis
      by (simp add: serveRound_def Let_def readFrameHeader_def)
  qed
qed

section \<open>Witnesses\<close>

definition some_conn :: "bytes \<Rightarrow> (bytes, unit) conn" where
  "some_conn d = \<lparr>net = \<lparr>recv = d, segs = [], failure = EOF\<rparr>, asm = NewAssembler some_config,
     mem = empty_comp, trace = []\<rparr>"

definition always_active :: netpoll where
  "always_active = \<lparr>IsActive = (\<lambda>_. True), arrived = (\<lambda>_. 0), peekErr = (\<lambda>_. False), nextNegative = Inr []\<rparr>"

abbreviation server_mode :: mode where
  "server_mode \<equiv> \<lparr>isNetpoll = True, hasRW = True\<rparr>"

abbreviation client_mode :: mode where
  "client_mode \<equiv> \<lparr>isNetpoll = True, hasRW = False\<rparr>"

text \<open>A masked text message in two fragments with a ping between them, and one byte more.\<close>

definition some_wire :: bytes where
  "some_wire = [1, 130, 1, 0, 0, 0, 105, 105] @ [137, 0] @ [128, 1, 33] @ [129]"

lemma some_conn_assembles: "assembles (asm (some_conn d), mem (some_conn d)) None"
  by (simp add: assembles_def some_conn_def NewAssembler_def empty_comp_def pools_wf_def sizes_ok_def
      pooled_def empty_pools_def)

lemma stored_lib_size: "length d < n \<Longrightarrow> plain_size stored_lib (\<lambda>r. r) d < n"
  by (simp add: plain_size_def stored_lib_def trailer_def)

lemma always_active_simps [simp]: "IsActive always_active k" "\<not> peekErr always_active k"
  by (simp_all add: always_active_def)

theorem serve_conn_refines_witness:
  "\<exists>c'. ServeConn rfc_lib stored_lib 100 server_mode always_active 10 0 (some_conn some_wire) = Return (None, c') \<and>
    trace c' = [OnPing [], ServerMessage 10 [], OnMessage 1 [104, 105, 33]] \<and> pending (net c') = [129]"
proof -
  let ?c = "some_conn some_wire" and ?cf = some_config
  let ?spec = "\<lambda>fs. spec_conn rfc_lib ?cf (inflated stored_lib (\<lambda>_. EOF) (\<lambda>r. r) (MaxFrameSize ?cf)) fs None"
  let ?ms = "[[1, 130, 1, 0, 0, 0, 105, 105], [137, 0], [128, 1, 33]] :: bytes list"
  have ms: "frames (frameExtent rfc_lib) (pending (net ?c)) = (?ms, [129])" by code_simp
  have limit: "\<forall>m \<in> set ?ms. \<not> (MaxFrameSize ?cf > 0 \<and> Length (fst (decodeFrame rfc_lib m)) > MaxFrameSize ?cf)"
    by code_simp
  have quiet: "quiet rfc_lib server_mode [129]" by (simp add: quiet_def)
  have len: "length (pending (net ?c)) = 14" by (simp add: some_conn_def pending_def some_wire_def)
  then have size: "int (length (pending (net ?c))) \<le> maxInt" by (simp add: maxInt_def)
  have dfuel: "\<forall>d. length d \<le> length (fragments None) + length (pending (net ?c)) \<longrightarrow>
      plain_size stored_lib (\<lambda>r. r) d < 100"
    using len stored_lib_size [of _ 100] by (simp add: fragments_def)
  have cf: "?cf = cfg (asm ?c)" by (simp add: some_conn_def NewAssembler_def)
  have netpoll: "isNetpoll server_mode" "\<forall>k. IsActive always_active k" "\<forall>k. \<not> peekErr always_active k" by simp_all
  have fuel: "length ?ms < 10" by simp
  from serve_conn_refines [OF rfc_lib_rfc6455 stored_lib_inflates stored_lib_resets netpoll some_conn_assembles
      ms quiet size cf limit dfuel fuel, of 0]
  obtain j c' es err s' where j: "j \<le> length ?ms" "?spec (map (decodeFrame rfc_lib) (take j ?ms)) = (es, err, s')"
    "ServeConn rfc_lib stored_lib 100 server_mode always_active 10 0 ?c = Return (err, c')" "advances ?c es c' s'"
    "pending (net c') = concat (drop j ?ms) @ [129]" "later (net ?c) (net c')"
    "err = None \<longrightarrow> idle rfc_lib server_mode (recv (net c'))"
    by blast
  have "segs (net c') = []" using j(6) by (simp add: later_def some_conn_def)
  then have recv: "recv (net c') = concat (drop j ?ms) @ [129]" using j(5) by (simp add: pending_def)
  have none: "fst (snd (?spec (map (decodeFrame rfc_lib) (take i ?ms)))) = None" if "i \<in> {0, 1, 2}" for i
  proof -
    have "\<forall>i \<in> set [0, 1, 2]. fst (snd (?spec (map (decodeFrame rfc_lib) (take i ?ms)))) = None" by code_simp
    with that show ?thesis by (metis insert_iff list.set)
  qed
  have "j = 3"
  proof (rule ccontr)
    assume "j \<noteq> 3"
    with j(1) have i: "j \<in> {0, 1, 2}" by auto
    with none [OF i] j(2,7) have "length (recv (net c')) < 2" by (simp add: idle_def)
    with recv i show False by auto
  qed
  moreover have "?spec (map (decodeFrame rfc_lib) (take 3 ?ms)) =
      ([OnPing [], ServerMessage 10 [], OnMessage 1 [104, 105, 33]], None, None)"
    by code_simp
  ultimately show ?thesis using j(2-5) by (auto simp: advances_def some_conn_def)
qed

theorem serve_conn_close_once_witness:
  "\<exists>c' es. ServeConn rfc_lib stored_lib 100 server_mode always_active 10 0 (some_conn [136, 0]) = Return (Some EOF, c') \<and>
    trace c' = [] @ es \<and> closes es = 1"
proof -
  have "case ServeConn rfc_lib stored_lib 100 server_mode always_active 10 0 (some_conn [136, 0]) of
      Return (e, c') \<Rightarrow> e = Some EOF | _ \<Rightarrow> False"
    by code_simp
  then obtain c' where c': "ServeConn rfc_lib stored_lib 100 server_mode always_active 10 0 (some_conn [136, 0]) =
      Return (Some EOF, c')" by (auto split: outcome.splits)
  from serve_conn_close_once [OF this] show ?thesis using c' by (auto simp: some_conn_def)
qed


theorem serve_conn_negative_length_witness:
  "ServeConn rfc_lib stored_lib 100 server_mode always_active (Suc 5) 0
     (some_conn ([130, 127] @ [255, 255, 255, 255, 255, 255, 255, 254] @ [1])) = Panic"
  by (rule serve_conn_negative_length [OF rfc_lib_rfc6455, where ext = "[255, 255, 255, 255, 255, 255, 255, 254]"
        and behind = "[1]"]) (simp_all add: some_conn_def)

theorem serve_conn_oversized_control_witness:
  "ServeConn rfc_lib stored_lib 100 client_mode always_active (Suc 5) 0 (some_conn [137, 126, 1, 0]) =
     Return (None, some_conn [137, 126, 1, 0])"
  using serve_conn_oversized_control [of client_mode always_active 0 "some_conn [137, 126, 1, 0]" rfc_lib stored_lib 100 5]
  by (simp add: some_conn_def headerBits_def rfc_lib_def lengthBits_def announcedBytes_def maskBit_def)

end
