(* ===== verification/Ws_Writer.thy ===== *)
theory Ws_Writer
  imports Ws_Conn
begin

text \<open>
  Sending messages, \<open>src/pkg/websocket/writer.go\<close>, and the handler with optional callbacks,
  \<open>src/pkg/websocket/handler.go\<close>.  What is sent on one side is what \<open>ServeConn\<close> hands to the
  handler on the other.
\<close>

section \<open>Writing a message\<close>

text \<open>
  The two parameters of a write are outside the repository: \<open>rnd\<close> is what \<open>rand.Read\<close> puts into the
  mask, and \<open>wr i\<close> is the connection's \<open>Write\<close> in its \<open>i\<close>-th call, the part of the data that
  goes out and the error.  The result is the error, the bytes sent and the state of the pools.
\<close>

type_synonym net_write = "nat \<Rightarrow> bytes \<Rightarrow> bytes \<times> go_error option"

type_synonym ('r, 'w) written = "(go_error option \<times> bytes \<times> ('r, 'w) comp_state) outcome"

definition minCompressSize :: nat where
  "minCompressSize = 1024"

definition wantsCompression :: "ws_lib \<Rightarrow> Config option \<Rightarrow> byte \<Rightarrow> bytes \<Rightarrow> bool" where
  "wantsCompression lib co op payload \<longleftrightarrow>
     (case co of
        None \<Rightarrow> False
      | Some c \<Rightarrow> EnableCompression c \<and> op \<noteq> OpPing lib \<and> op \<noteq> OpPong lib \<and> op \<noteq> OpClose lib \<and>
          length payload \<ge> minCompressSize)"

text \<open>
  The payload after its header, a slice of the compressor's (\<open>Some\<close>) or the application's bytes; the
  application's bytes are masked in a pooled copy.
\<close>

definition writePayload ::
  "ws_lib \<Rightarrow> net_write \<Rightarrow> ws_header \<Rightarrow> slice option \<Rightarrow> bytes \<Rightarrow> ('r, 'w) comp_state \<Rightarrow> ('r, 'w) written" where
  "writePayload lib wr h compressed payload st =
     (if Masked h then
        case compressed of
          None \<Rightarrow>
            bind_outcome (getPayloadBuffer (int (length payload)) (bufs st)) (\<lambda>(b, ps).
            let b = copy_at b 0 payload;
                b = copy_at b 0 (Cipher lib (content b) (Mask h) 0);
                (sent, err) = wr 1 (content b) in
            Return (err, sent, st\<lparr>bufs := putPayloadBuffer b ps\<rparr>))
        | Some b \<Rightarrow>
            let b = copy_at b 0 (Cipher lib (content b) (Mask h) 0);
                (sent, err) = wr 1 (content b) in
            Return (err, sent, st\<lparr>bufs := putPayloadBuffer b (bufs st)\<rparr>)
      else
        let (sent, err) = wr 1 payload in
        Return (err, sent,
          case compressed of
            None \<Rightarrow> st
          | Some b \<Rightarrow> st\<lparr>bufs := putPayloadBuffer b (bufs st)\<rparr>))"

definition writeFrame ::
  "ws_lib \<Rightarrow> go_error + bytes \<Rightarrow> net_write \<Rightarrow> ws_header \<Rightarrow> slice option \<Rightarrow> bytes \<Rightarrow> ('r, 'w) comp_state \<Rightarrow>
     ('r, 'w) written" where
  "writeFrame lib rnd wr h compressed payload st =
     (case (if Masked h then rnd else Inr (Mask h)) of
        Inl err \<Rightarrow> Return (Some err, [], st)
      | Inr key \<Rightarrow>
          let h = h\<lparr>Mask := key\<rparr>;
              (sent, err) = wr 0 (WriteHeader lib h) in
          if err \<noteq> None then Return (err, sent, st)
          else if payload \<noteq> [] then
            bind_outcome (writePayload lib wr h compressed payload st) (\<lambda>(err, sent', st).
            Return (err, sent @ sent', st))
          else Return (None, sent, st))"

definition writeMessageInternal ::
  "ws_lib \<Rightarrow> ('r, 'w) flate_lib \<Rightarrow> go_error + bytes \<Rightarrow> net_write \<Rightarrow> byte \<Rightarrow> bytes \<Rightarrow> Config option \<Rightarrow> bool \<Rightarrow>
     ('r, 'w) comp_state \<Rightarrow> ('r, 'w) written" where
  "writeMessageInternal lib fl rnd wr op payload co masked st =
     (let header = zero_header\<lparr>Fin := True, OpCode := op, Length := int (length payload), Masked := masked\<rparr> in
      if wantsCompression lib co op payload then
        bind_outcome (CompressData fl payload st) (\<lambda>(r, st).
        case r of
          Inl err \<Rightarrow> Return (Some err, [], st)
        | Inr data \<Rightarrow>
            writeFrame lib rnd wr (header\<lparr>Length := int (slen data), Rsv := 4\<rparr>) (Some data) (content data) st)
      else writeFrame lib rnd wr header None payload st)"

definition WriteMessage ::
  "ws_lib \<Rightarrow> ('r, 'w) flate_lib \<Rightarrow> net_write \<Rightarrow> byte \<Rightarrow> bytes \<Rightarrow> Config option \<Rightarrow> ('r, 'w) comp_state \<Rightarrow>
     ('r, 'w) written" where
  "WriteMessage lib fl wr op payload co st = writeMessageInternal lib fl (Inr []) wr op payload co False st"

definition WriteClientMessage ::
  "ws_lib \<Rightarrow> ('r, 'w) flate_lib \<Rightarrow> go_error + bytes \<Rightarrow> net_write \<Rightarrow> byte \<Rightarrow> bytes \<Rightarrow> Config option \<Rightarrow>
     ('r, 'w) comp_state \<Rightarrow> ('r, 'w) written" where
  "WriteClientMessage lib fl rnd wr op payload co st = writeMessageInternal lib fl rnd wr op payload co True st"

section \<open>The handler with optional callbacks\<close>

text \<open>
  \<open>DefaultHandler\<close> calls the functions that are set and ignores the other events; the effect of
  a callback is a change of the application's state.
\<close>

record 'u DefaultHandler =
  OnOpenFunc :: "('u \<Rightarrow> 'u) option"
  OnMessageFunc :: "(byte \<Rightarrow> bytes \<Rightarrow> 'u \<Rightarrow> 'u) option"
  OnCloseFunc :: "(go_error option \<Rightarrow> 'u \<Rightarrow> 'u) option"
  OnPingFunc :: "(bytes \<Rightarrow> 'u \<Rightarrow> 'u) option"
  OnPongFunc :: "(bytes \<Rightarrow> 'u \<Rightarrow> 'u) option"

fun handle_event :: "'u DefaultHandler \<Rightarrow> ws_event \<Rightarrow> 'u \<Rightarrow> 'u" where
  "handle_event h OnOpen u = (case OnOpenFunc h of None \<Rightarrow> u | Some f \<Rightarrow> f u)"
| "handle_event h (OnMessage op p) u = (case OnMessageFunc h of None \<Rightarrow> u | Some f \<Rightarrow> f op p u)"
| "handle_event h (OnClose e) u = (case OnCloseFunc h of None \<Rightarrow> u | Some f \<Rightarrow> f e u)"
| "handle_event h (OnPing p) u = (case OnPingFunc h of None \<Rightarrow> u | Some f \<Rightarrow> f p u)"
| "handle_event h (OnPong p) u = (case OnPongFunc h of None \<Rightarrow> u | Some f \<Rightarrow> f p u)"
| "handle_event h (ServerMessage op p) u = u"
| "handle_event h ConnClosed u = u"

section \<open>What is written is a frame\<close>

text \<open>A connection that takes everything, and random bytes for the mask.\<close>

definition writes_all :: "net_write \<Rightarrow> bool" where
  "writes_all wr \<longleftrightarrow> (\<forall>i d. wr i d = (d, None))"

definition sent_header :: "byte \<Rightarrow> bool \<Rightarrow> bool \<Rightarrow> bytes \<Rightarrow> bytes \<Rightarrow> ws_header" where
  "sent_header op z masked key body =
     \<lparr>Fin = True, Rsv = (if z then 4 else 0), OpCode = op, Masked = masked,
      Mask = (if masked then key else [0, 0, 0, 0]), Length = int (length body)\<rparr>"

definition wire :: "ws_lib \<Rightarrow> ws_header \<Rightarrow> bytes \<Rightarrow> bytes" where
  "wire lib h body = rfcHeader h @ unmaskBytes lib h body"

lemma writeFrame_eq:
  assumes "(if Masked h0 then rnd else Inr (Mask h0)) = Inr key" "writes_all wr" "h0\<lparr>Mask := key\<rparr> = h"
  shows "writeFrame lib rnd wr h0 compressed body st =
    (if body \<noteq> [] then bind_outcome (writePayload lib wr h compressed body st) (\<lambda>(err, sent', st).
       Return (err, WriteHeader lib h @ sent', st)) else Return (None, WriteHeader lib h, st))"
  unfolding writeFrame_def assms(1) using assms(2,3) by (simp add: writes_all_def Let_def)

lemma writeFrame_wire:
  assumes lib: "rfc6455 lib" and wr: "writes_all wr" and wf: "pools_wf (bufs st)"
    and h: "valid_header lib (sent_header op z masked key body)" and rnd: "masked \<longrightarrow> rnd = Inr key"
    and comp: "case compressed of None \<Rightarrow> True | Some b \<Rightarrow> owned (b, bufs st) \<and> content b = body"
  shows "\<exists>st'. writeFrame lib rnd wr (zero_header\<lparr>Fin := True, OpCode := op, Length := int (length body),
      Masked := masked, Rsv := if z then 4 else 0\<rparr>) compressed body st =
    Return (None, wire lib (sent_header op z masked key body) body, st') \<and> pools_wf (bufs st')"
proof -
  let ?h = "sent_header op z masked key body"
  have head: "WriteHeader lib ?h = rfcHeader ?h" using lib h by (simp add: rfc6455_def)
  have hh: "zero_header\<lparr>Fin := True, OpCode := op, Length := int (length body), Masked := masked,
      Rsv := if z then 4 else 0\<rparr>\<lparr>Mask := if masked then key else [0, 0, 0, 0]\<rparr> = ?h"
    by (simp add: zero_header_def sent_header_def)
  have len: "length (Cipher lib d m 0) = length d" for d m using lib by (simp add: rfc6455_def)
  have body: "\<exists>st'. writePayload lib wr ?h compressed body st = Return (None, unmaskBytes lib ?h body, st') \<and>
      pools_wf (bufs st')"
  proof (cases compressed)
    case None
    show ?thesis
    proof (cases masked)
      case True
      obtain b ps where b: "getPayloadBuffer (int (length body)) (bufs st) = Return (b, ps)" "pools_wf ps"
        "pool_held ps b" "slice_ok b" "slen b = length body"
        using payload.get_buffer [OF wf, of "int (length body)"] by auto
      let ?b1 = "copy_at b 0 body"
      have b1: "content ?b1 = body" "slice_ok ?b1" using b(4,5) by (simp_all add: content_copy_all)
      let ?b2 = "copy_at ?b1 0 (Cipher lib body key 0)"
      have b2: "content ?b2 = Cipher lib body key 0" using b1 b(5) len by (intro content_copy_all) simp_all
      have "pool_held ps ?b2" using b(3) payload.held_addr by simp
      then have "pools_wf (putPayloadBuffer ?b2 ps)" by (rule payload.put_wf [OF b(2)])
      then show ?thesis
        using None True b(1) b1(1) b2 wr
        by (simp add: writePayload_def sent_header_def writes_all_def unmaskBytes_def Let_def)
    next
      case False
      with None wf wr show ?thesis
        by (simp add: writePayload_def sent_header_def writes_all_def unmaskBytes_def)
    qed
  next
    case (Some b)
    with comp have b: "pool_held (bufs st) b" "slice_ok b" "content b = body" by (auto simp: owned_def)
    let ?b2 = "copy_at b 0 (Cipher lib body key 0)"
    have slen: "slen b = length body" using b(2,3) by auto
    have b2: "content ?b2 = Cipher lib body key 0" using b(2) len slen by (intro content_copy_all) simp_all
    have "pool_held (bufs st) ?b2" using b(1) payload.held_addr by simp
    then have "pools_wf (putPayloadBuffer ?b2 (bufs st))" "pools_wf (putPayloadBuffer b (bufs st))"
      using payload.put_wf [OF wf] b(1) by simp_all
    then show ?thesis
      using Some b(3) b2 wr
      by (simp add: writePayload_def sent_header_def writes_all_def unmaskBytes_def Let_def)
  qed
  have empty: "unmaskBytes lib ?h [] = []"
    using len [of "[]"] by (simp add: unmaskBytes_def)
  have key: "(if masked then rnd else Inr [0, 0, 0, 0]) = Inr (if masked then key else [0, 0, 0, 0])"
    using rnd by simp
  let ?h0 = "zero_header\<lparr>Fin := True, OpCode := op, Length := int (length body), Masked := masked,
      Rsv := if z then 4 else 0\<rparr>"
  have "Masked ?h0 = masked" "Mask ?h0 = [0, 0, 0, 0]" by (simp_all add: zero_header_def)
  then have k: "(if Masked ?h0 then rnd else Inr (Mask ?h0)) = Inr (if masked then key else [0, 0, 0, 0])"
    using key by (simp only:)
  from body empty wf show ?thesis
    unfolding writeFrame_eq [OF k wr hh] head by (auto simp: wire_def)
qed

section \<open>What is written is what the peer's handler gets\<close>

text \<open>The largest message the peer takes, and the messages that can be sent to it.\<close>

definition bound :: "Config \<Rightarrow> int" where
  "bound cf = (if MaxFrameSize cf > 0 then MaxFrameSize cf else maxInt)"

definition deliverable ::
  "ws_lib \<Rightarrow> ('r, 'w) flate_lib \<Rightarrow> Config option \<Rightarrow> Config \<Rightarrow> byte \<times> bytes \<Rightarrow> bool" where
  "deliverable lib fl co cf = (\<lambda>(op, payload).
     op < 16 \<and> \<not> IsControl lib op \<and> op \<noteq> OpContinuation lib \<and> int (length payload) \<le> bound cf \<and>
     (wantsCompression lib co op payload \<longrightarrow>
        EnableCompression cf \<and>
        (\<forall>st data st'. CompressData fl payload st = Return (Inr data, st') \<longrightarrow> int (slen data) \<le> bound cf)))"

text \<open>Messages sent one after the other, each with its mask; the frames in their order.\<close>

fun sendAll ::
  "ws_lib \<Rightarrow> ('r, 'w) flate_lib \<Rightarrow> net_write \<Rightarrow> Config option \<Rightarrow> bool \<Rightarrow> ((byte \<times> bytes) \<times> bytes) list \<Rightarrow>
     ('r, 'w) comp_state \<Rightarrow> (go_error option \<times> bytes list \<times> ('r, 'w) comp_state) outcome" where
  "sendAll lib fl wr co masked [] st = Return (None, [], st)"
| "sendAll lib fl wr co masked (((op, payload), key) # msgs) st =
     bind_outcome (writeMessageInternal lib fl (Inr key) wr op payload co masked st) (\<lambda>(err, sent, st).
     case err of
       Some e \<Rightarrow> Return (Some e, [sent], st)
     | None \<Rightarrow> bind_outcome (sendAll lib fl wr co masked msgs st) (\<lambda>(err, sents, st). Return (err, sent # sents, st)))"

lemma wire_frame:
  assumes "rfc6455 lib" "valid_header lib h" "Length h = int (length body)"
  shows "frameExtent lib (wire lib h body) = Some (length (wire lib h body))"
    and "decodeFrame lib (wire lib h body) = (h, body)"
proof -
  have len: "length (unmaskBytes lib h body) = length body"
    using assms(1) by (simp add: unmaskBytes_def rfc6455_def)
  have "2 \<le> length (rfcHeader h)" by (simp add: rfcHeader_def Let_def)
  then show "frameExtent lib (wire lib h body) = Some (length (wire lib h body))"
    using assms(3) len by (auto simp: frameExtent_def wire_def parseHeader_rfcHeader [OF assms(2)])
  have "length (Mask h) = 4" using assms(2) by (simp add: valid_header_def)
  then have "unmaskBytes lib h (unmaskBytes lib h body) = body"
    using assms(1) by (simp add: unmaskBytes_def rfc6455_def)
  then show "decodeFrame lib (wire lib h body) = (h, body)"
    by (simp add: decodeFrame_def wire_def parseHeader_rfcHeader [OF assms(2)])
qed

text \<open>A message that is sent compressed.\<close>

lemma write_compressed:
  fixes fl :: "('r, 'w) flate_lib"
  assumes lib: "rfc6455 lib" "deflates fl final rest" and wr: "writes_all wr" and wf: "pools_wf (bufs st)"
    and want: "wantsCompression lib co op payload" and op: "op < 16" "\<not> IsControl lib op"
    and rnd: "masked \<longrightarrow> rnd = Inr key" and key: "length key = 4"
    and size: "\<forall>data st'. CompressData fl payload st = Return (Inr data, st') \<longrightarrow> int (slen data) \<le> maxInt"
  obtains data st1 st' where "CompressData fl payload st = Return (Inr data, st1)" "slen data = length (content data)"
    "writeMessageInternal lib fl rnd wr op payload co masked st =
       Return (None, wire lib (sent_header op True masked key (content data)) (content data), st')"
    "pools_wf (bufs st')" "valid_header lib (sent_header op True masked key (content data))"
    "final (fr_new fl (content data @ trailer)) = EOF" "rest (fr_new fl (content data @ trailer)) = payload"
proof -
  obtain data st1 where d: "CompressData fl payload st = Return (Inr data, st1)" "owned (data, bufs st1)"
    "final (fr_new fl (content data @ trailer)) = EOF" "rest (fr_new fl (content data @ trailer)) = payload"
    using CompressData_exact [OF lib(2) wf] by blast
  let ?body = "content data" and ?h = "sent_header op True masked key (content data)"
  have slen: "slen data = length ?body" using d(2) by (simp add: owned_def)
  have valid: "valid_header lib ?h" using size d(1) slen op key by (simp add: valid_header_def sent_header_def)
  have wf1: "pools_wf (bufs st1)" using d(2) by (simp add: owned_def)
  from writeFrame_wire [OF lib(1) wr wf1 valid, of rnd "Some data"] d(2) rnd
  obtain st' where "writeFrame lib rnd wr (zero_header\<lparr>Fin := True, OpCode := op,
      Length := int (length ?body), Masked := masked, Rsv := 4\<rparr>) (Some data) ?body st1 =
      Return (None, wire lib ?h ?body, st')" "pools_wf (bufs st')"
    by auto
  with want d(1) slen have "writeMessageInternal lib fl rnd wr op payload co masked st = Return (None, wire lib ?h ?body, st')"
    by (simp add: writeMessageInternal_def Let_def zero_header_def)
  from that [OF d(1) slen this \<open>pools_wf (bufs st')\<close> valid d(3,4)] show thesis .
qed

lemma write_one:
  fixes fl :: "('r, 'w) flate_lib"
  assumes lib: "rfc6455 lib" "inflates fl final rest" "resets_readers fl final rest" "deflates fl final rest"
    and wr: "writes_all wr" and wf: "pools_wf (bufs st)" and limit: "MaxFrameSize cf \<le> maxInt"
    and msg: "deliverable lib fl co cf (op, payload)" and rnd: "masked \<longrightarrow> rnd = Inr key" and key: "length key = 4"
  obtains h body st' where
    "writeMessageInternal lib fl rnd wr op payload co masked st = Return (None, wire lib h body, st')"
    "pools_wf (bufs st')" "valid_header lib h" "Length h = int (length body)" "int (length body) \<le> bound cf"
    "spec_one lib cf (inflated fl final rest (MaxFrameSize cf)) h body None = ([OnMessage op payload], None, None)"
proof -
  have bound: "bound cf \<le> maxInt" using limit by (simp add: bound_def)
  from msg have op: "op < 16" "\<not> IsControl lib op" "op \<noteq> OpContinuation lib" "int (length payload) \<le> bound cf"
    by (simp_all add: deliverable_def)
  show thesis
  proof (cases "wantsCompression lib co op payload")
    case False
    let ?h = "sent_header op False masked key payload"
    have valid: "valid_header lib ?h" using op bound key by (simp add: valid_header_def sent_header_def)
    from writeFrame_wire [OF lib(1) wr wf valid, of rnd None] rnd
    obtain st' where "writeFrame lib rnd wr (zero_header\<lparr>Fin := True, OpCode := op,
        Length := int (length payload), Masked := masked, Rsv := 0\<rparr>) None payload st =
        Return (None, wire lib ?h payload, st')" "pools_wf (bufs st')"
      by auto
    with False have "writeMessageInternal lib fl rnd wr op payload co masked st =
        Return (None, wire lib ?h payload, st')"
      by (simp add: writeMessageInternal_def Let_def zero_header_def)
    then show thesis
    proof (rule that)
      show "spec_one lib cf (inflated fl final rest (MaxFrameSize cf)) ?h payload None =
          ([OnMessage op payload], None, None)"
        using op by (simp add: spec_one_def spec_frame_def deliver_def sent_header_def)
    qed (use \<open>pools_wf (bufs st')\<close> op(4) valid in \<open>simp_all add: sent_header_def\<close>)
  next
    case True
    have size: "\<forall>data st'. CompressData fl payload st = Return (Inr data, st') \<longrightarrow> int (slen data) \<le> bound cf"
      and z: "EnableCompression cf"
      using msg True by (auto simp: deliverable_def)
    with bound have size': "\<forall>data st'. CompressData fl payload st = Return (Inr data, st') \<longrightarrow> int (slen data) \<le> maxInt" by force
    obtain data st1 st' where d: "CompressData fl payload st = Return (Inr data, st1)" "slen data = length (content data)"
      "writeMessageInternal lib fl rnd wr op payload co masked st =
         Return (None, wire lib (sent_header op True masked key (content data)) (content data), st')"
      "pools_wf (bufs st')" "valid_header lib (sent_header op True masked key (content data))"
      "final (fr_new fl (content data @ trailer)) = EOF" "rest (fr_new fl (content data @ trailer)) = payload"
      by (rule write_compressed [OF lib(1,4) wr wf True op(1,2) rnd key size'])
    have fits: "int (length (content data)) \<le> bound cf" using size d(1,2) by auto
    have "inflated fl final rest (MaxFrameSize cf) (content data) = Inr payload"
      using d(6,7) op(4) by (auto simp: inflated_def Let_def bound_def split: if_splits)
    then have "spec_one lib cf (inflated fl final rest (MaxFrameSize cf)) (sent_header op True masked key (content data))
        (content data) None = ([OnMessage op payload], None, None)"
      using op z by (simp add: spec_one_def spec_frame_def deliver_def sent_header_def)
    from that [OF d(3-5) _ fits this] show thesis by (simp add: sent_header_def)
  qed
qed
text \<open>The frames of a sequence of messages.\<close>

lemma sendAll_wire:
  fixes fl :: "('r, 'w) flate_lib"
  assumes lib: "rfc6455 lib" "inflates fl final rest" "resets_readers fl final rest" "deflates fl final rest"
    and wr: "writes_all wr" and limit: "MaxFrameSize cf \<le> maxInt"
  shows "pools_wf (bufs st) \<Longrightarrow> (\<forall>m \<in> set msgs. deliverable lib fl co cf (fst m) \<and> length (snd m) = 4) \<Longrightarrow>
    \<exists>ws st'. sendAll lib fl wr co masked msgs st = Return (None, ws, st') \<and> pools_wf (bufs st') \<and>
      (\<forall>w \<in> set ws. frameExtent lib w = Some (length w) \<and> Length (fst (decodeFrame lib w)) \<le> bound cf) \<and>
      length ws = length msgs \<and>
      (\<forall>j \<le> length msgs. spec_conn lib cf (inflated fl final rest (MaxFrameSize cf)) (map (decodeFrame lib) (take j ws)) None =
        (map (\<lambda>((op, p), key). OnMessage op p) (take j msgs), None, None))"
proof (induction msgs arbitrary: st)
  case Nil
  then show ?case by simp
next
  case (Cons m msgs)
  obtain op payload key where m: "m = ((op, payload), key)" by (metis surj_pair)
  from Cons.prems(2) m have msg: "deliverable lib fl co cf (op, payload)" "length key = 4" by auto
  have "masked \<longrightarrow> Inr key = (Inr key :: go_error + bytes)" by simp
  from write_one [OF lib wr Cons.prems(1) limit msg(1) this msg(2)] obtain h body st1 where
    one: "writeMessageInternal lib fl (Inr key) wr op payload co masked st = Return (None, wire lib h body, st1)"
    "pools_wf (bufs st1)" "valid_header lib h" "Length h = int (length body)" "int (length body) \<le> bound cf"
    "spec_one lib cf (inflated fl final rest (MaxFrameSize cf)) h body None = ([OnMessage op payload], None, None)"
    by metis
  from Cons.IH [OF one(2)] Cons.prems(2) obtain ws st2 where
    ws: "sendAll lib fl wr co masked msgs st1 = Return (None, ws, st2)" "pools_wf (bufs st2)"
    "\<forall>w \<in> set ws. frameExtent lib w = Some (length w) \<and> Length (fst (decodeFrame lib w)) \<le> bound cf"
    "length ws = length msgs"
    "\<And>j. j \<le> length msgs \<Longrightarrow> spec_conn lib cf (inflated fl final rest (MaxFrameSize cf)) (map (decodeFrame lib) (take j ws)) None =
        (map (\<lambda>((op, p), key). OnMessage op p) (take j msgs), None, None)"
    by auto
  note w = wire_frame [OF lib(1) one(3,4)]
  have "spec_conn lib cf (inflated fl final rest (MaxFrameSize cf)) (map (decodeFrame lib) (take j (wire lib h body # ws))) None =
      (map (\<lambda>((op, p), key). OnMessage op p) (take j (m # msgs)), None, None)" if "j \<le> length (m # msgs)" for j
    using that ws(5) [of "j - 1"] w(2) one(6) m by (cases j) simp_all
  moreover have "sendAll lib fl wr co masked (m # msgs) st = Return (None, wire lib h body # ws, st2)"
    using m one(1) ws(1) by simp
  ultimately show ?case
    using ws(2,3,4) w one(4,5)
    by (intro exI [of _ "wire lib h body # ws"] exI [of _ st2]) simp
qed

text \<open>A connection is idle after whole frames only when none of them is left.\<close>

lemma idle_after_frames:
  assumes "idle lib md (concat (drop j ws))" "j \<le> length ws" "\<forall>w \<in> set ws. frameExtent lib w = Some (length w)"
  shows "j = length ws"
proof (rule ccontr)
  assume "j \<noteq> length ws"
  then have w: "drop j ws = ws ! j # drop (Suc j) ws" "ws ! j \<in> set ws"
    using assms(2) by (simp_all add: Cons_nth_drop_Suc)
  then have f: "frameExtent lib (concat (drop j ws)) = Some (length (ws ! j))"
    using assms(3) ws_frame.extent_append [of lib "ws ! j"] by simp
  then have "2 \<le> length (concat (drop j ws))"
    using frameExtent_Some [OF f] announcedBytes_ge by (metis le_trans trans_le_add1)
  with f assms(1) show False by (auto simp: idle_def split: if_splits)
qed

text \<open>
  Frames that one side has sent, whose meaning is a sequence of messages, reach the handler of the other
  side.
\<close>

lemma frames_arrive:
  fixes fl :: "('r, 'w) flate_lib" and c :: "('r, 'w) conn"
  assumes lib: "rfc6455 lib" "inflates fl final rest" "resets_readers fl final rest" and cf: "cf = cfg (asm c)"
    and ws: "\<forall>w \<in> set ws. frameExtent lib w = Some (length w) \<and> Length (fst (decodeFrame lib w)) \<le> bound cf"
    "length ws = length msgs"
    "\<forall>j \<le> length msgs. spec_conn lib cf (inflated fl final rest (MaxFrameSize cf)) (map (decodeFrame lib) (take j ws)) None =
        (map (\<lambda>((op, p), key). OnMessage op p) (take j msgs), None, None)"
    and md: "isNetpoll md" and np: "\<forall>k. IsActive np k \<and> \<not> peekErr np k" and rel: "assembles (asm c, mem c) None"
    and net: "recv (net c) = concat ws" "segs (net c) = []" and size: "int (length (concat ws)) \<le> maxInt"
    and dfuel: "\<forall>d. length d \<le> length (concat ws) \<longrightarrow> plain_size fl rest d < dfuel" and fuel: "length msgs < fuel"
  shows "\<exists>c'. ServeConn lib fl dfuel md np fuel k c = Return (None, c') \<and>
    trace c' = trace c @ map (\<lambda>((op, p), key). OnMessage op p) msgs \<and> pending (net c') = []"
proof -
  have pend: "pending (net c) = concat ws" using net by (simp add: pending_def)
  have ms: "frames (frameExtent lib) (pending (net c)) = (ws, [])"
    unfolding pend using ws(1) by (intro ws_frame.frames_messages) (auto simp: frameExtent_def parseHeader_def)
  have quiet: "quiet lib md []" by (simp add: quiet_def sane_def parseHeader_def)
  have limit: "\<forall>m \<in> set ws. \<not> (MaxFrameSize cf > 0 \<and> Length (fst (decodeFrame lib m)) > MaxFrameSize cf)"
    using ws(1) by (auto simp: bound_def split: if_splits)
  have "\<exists>j c' es err s'. j \<le> length ws \<and>
      spec_conn lib cf (inflated fl final rest (MaxFrameSize cf)) (map (decodeFrame lib) (take j ws)) None = (es, err, s') \<and>
      ServeConn lib fl dfuel md np fuel k c = Return (err, c') \<and> advances c es c' s' \<and>
      pending (net c') = concat (drop j ws) @ [] \<and> later (net c) (net c') \<and>
      (err = None \<longrightarrow> idle lib md (recv (net c')))"
    using md np rel ms quiet size limit dfuel fuel ws(2) lib cf pend
    by (intro serve_frames) (simp_all add: fragments_def)
  then obtain j c' where j: "j \<le> length msgs" "ServeConn lib fl dfuel md np fuel k c = Return (None, c')"
    "trace c' = trace c @ map (\<lambda>((op, p), key). OnMessage op p) (take j msgs)"
    "pending (net c') = concat (drop j ws)" "later (net c) (net c')" "idle lib md (recv (net c'))"
    using ws(2,3) by (auto simp: advances_def)
  have "segs (net c') = []" using j(5) net(2) by (simp add: later_def)
  then have recv: "recv (net c') = concat (drop j ws)" using j(4) by (simp add: pending_def)
  have "j = length ws"
    by (rule idle_after_frames [OF j(6) [unfolded recv]]) (use j(1) ws(1,2) in simp_all)
  with j ws(2) show ?thesis by auto
qed

text \<open>
  C4: messages arrive.  Whatever sequence of data messages one side sends with \<open>WriteMessage\<close> or
  \<open>WriteClientMessage\<close>, compressed or not, masked or not, within the other side's size limit, the
  sender succeeds, and \<open>ServeConn\<close> on the bytes sent tells the other side's handler exactly these
  messages with their opcodes and payloads, in order, and nothing else.
\<close>

theorem messages_arrive:
  fixes fl :: "('r, 'w) flate_lib" and c :: "('r, 'w) conn"
  assumes "rfc6455 lib" "inflates fl final rest" "resets_readers fl final rest" "deflates fl final rest"
    and "writes_all wr" "pools_wf (bufs st)" "cf = cfg (asm c)" "MaxFrameSize cf \<le> maxInt"
    and "\<forall>m \<in> set msgs. deliverable lib fl co cf (fst m) \<and> length (snd m) = 4"
  shows "\<exists>ws st'. sendAll lib fl wr co masked msgs st = Return (None, ws, st') \<and>
    (isNetpoll md \<and> (\<forall>k. IsActive np k \<and> \<not> peekErr np k) \<and> assembles (asm c, mem c) None \<and>
     recv (net c) = concat ws \<and> segs (net c) = [] \<and> int (length (concat ws)) \<le> maxInt \<and>
     (\<forall>d. length d \<le> length (concat ws) \<longrightarrow> plain_size fl rest d < dfuel) \<and> length msgs < fuel \<longrightarrow>
     (\<exists>c'. ServeConn lib fl dfuel md np fuel k c = Return (None, c') \<and>
        trace c' = trace c @ map (\<lambda>((op, p), key). OnMessage op p) msgs \<and> pending (net c') = []))"
proof -
  obtain ws st' where ws: "sendAll lib fl wr co masked msgs st = Return (None, ws, st')"
    "\<forall>w \<in> set ws. frameExtent lib w = Some (length w) \<and> Length (fst (decodeFrame lib w)) \<le> bound cf"
    "length ws = length msgs"
    "\<forall>j \<le> length msgs. spec_conn lib cf (inflated fl final rest (MaxFrameSize cf)) (map (decodeFrame lib) (take j ws)) None =
        (map (\<lambda>((op, p), key). OnMessage op p) (take j msgs), None, None)"
    using sendAll_wire [OF assms(1-5,8,6,9), of masked] by auto
  with frames_arrive [OF assms(1-3,7) ws(2-4)] show ?thesis by auto
qed

lemma stored_lib_deflates: "deflates stored_lib (\<lambda>_. EOF) (\<lambda>r. r)"
  by (simp add: deflates_def stored_lib_def trailer_def)

text \<open>Two masked messages to a server, the first of them empty.\<close>

theorem messages_arrive_witness:
  "\<exists>c'. ServeConn rfc_lib stored_lib 100 server_mode always_active 10 0
      (some_conn ([129, 128, 1, 2, 3, 4] @ [130, 129, 1, 2, 3, 4, 8])) = Return (None, c') \<and>
    trace c' = [OnMessage 1 [], OnMessage 2 [9]]"
proof -
  let ?msgs = "[((1, []), [1, 2, 3, 4]), ((2, [9]), [1, 2, 3, 4])] :: ((byte \<times> bytes) \<times> bytes) list"
  let ?wr = "\<lambda>i d. (d, None)" and ?st = "empty_comp :: (bytes, unit) comp_state"
  let ?ws = "[[129, 128, 1, 2, 3, 4], [130, 129, 1, 2, 3, 4, 8]] :: bytes list"
  let ?c = "some_conn ([129, 128, 1, 2, 3, 4] @ [130, 129, 1, 2, 3, 4, 8])"
  have wf: "pools_wf (bufs ?st)" by code_simp
  have cf: "some_config = cfg (asm ?c)" by (simp add: some_conn_def NewAssembler_def)
  have limit: "MaxFrameSize some_config \<le> maxInt" by (simp add: some_config_def maxInt_def)
  have msgs: "\<forall>m \<in> set ?msgs. deliverable rfc_lib stored_lib None some_config (fst m) \<and> length (snd m) = 4"
    by (simp add: deliverable_def rfc_lib_def wantsCompression_def bound_def some_config_def)
  have sent: "case sendAll rfc_lib stored_lib ?wr None True ?msgs ?st of
      Return (e, ws, st) \<Rightarrow> e = None \<and> ws = ?ws | _ \<Rightarrow> False"
    by code_simp
  have "writes_all ?wr" by (simp add: writes_all_def)
  from messages_arrive [OF rfc_lib_rfc6455 stored_lib_inflates stored_lib_resets stored_lib_deflates this wf cf limit
      msgs, of True server_mode always_active 100 10 0]
  obtain ws st' where ws: "sendAll rfc_lib stored_lib ?wr None True ?msgs ?st = Return (None, ws, st')"
    "isNetpoll server_mode \<and> (\<forall>k. IsActive always_active k \<and> \<not> peekErr always_active k) \<and>
     assembles (asm ?c, mem ?c) None \<and> recv (net ?c) = concat ws \<and> segs (net ?c) = [] \<and>
     int (length (concat ws)) \<le> maxInt \<and>
     (\<forall>d. length d \<le> length (concat ws) \<longrightarrow> plain_size stored_lib (\<lambda>r. r) d < 100) \<and> length ?msgs < 10 \<longrightarrow>
     (\<exists>c'. ServeConn rfc_lib stored_lib 100 server_mode always_active 10 0 ?c = Return (None, c') \<and>
        trace c' = trace ?c @ map (\<lambda>((op, p), key). OnMessage op p) ?msgs \<and> pending (net c') = [])"
    by blast
  from ws(1) sent have w: "ws = ?ws" by simp
  have "plain_size stored_lib (\<lambda>r. r) d < 100" if "length d \<le> length (concat ?ws)" for d
    using that by (intro stored_lib_size) simp
  with ws(2) [unfolded w] some_conn_assembles [of "[129, 128, 1, 2, 3, 4] @ [130, 129, 1, 2, 3, 4, 8]"]
  show ?thesis by (auto simp: maxInt_def some_conn_def)
qed

end
