(* ===== verification/Sha1_Base64.thy ===== *)
theory Sha1_Base64
  imports Go_Base
begin

text \<open>
  The two library functions behind the accept key of a WebSocket handshake: \<open>crypto/sha1\<close>
  (FIPS 180-4) and the standard encoding of \<open>encoding/base64\<close> (RFC 4648).
\<close>

section \<open>SHA-1\<close>

definition rotl :: "nat \<Rightarrow> 32 word \<Rightarrow> 32 word" where
  "rotl n x = push_bit n x OR drop_bit (32 - n) x"

definition be32 :: "bytes \<Rightarrow> 32 word" where
  "be32 bs = fold (\<lambda>b acc. push_bit 8 acc OR ucast b) bs 0"

definition word_bytes :: "32 word \<Rightarrow> bytes" where
  "word_bytes x = map (\<lambda>k. ucast (drop_bit k x)) [24, 16, 8, 0]"

text \<open>The message, a one bit, zeros up to a multiple of 64 bytes and the length in bits.\<close>

definition sha1_pad :: "bytes \<Rightarrow> bytes" where
  "sha1_pad m =
     m @ [128] @ replicate ((119 - length m mod 64) mod 64) 0 @
     word_bytes (word_of_int (int (length m) * 8 div 2 ^ 32)) @ word_bytes (word_of_int (int (length m) * 8))"

type_synonym sha1_state = "32 word \<times> 32 word \<times> 32 word \<times> 32 word \<times> 32 word"

definition sha1_init :: sha1_state where
  "sha1_init = (0x67452301, 0xEFCDAB89, 0x98BADCFE, 0x10325476, 0xC3D2E1F0)"

definition sha1_f :: "nat \<Rightarrow> 32 word \<Rightarrow> 32 word \<Rightarrow> 32 word \<Rightarrow> 32 word" where
  "sha1_f t b c d =
     (if t < 20 then (b AND c) OR (NOT b AND d)
      else if t < 40 then b XOR c XOR d
      else if t < 60 then (b AND c) OR (b AND d) OR (c AND d)
      else b XOR c XOR d)"

definition sha1_k :: "nat \<Rightarrow> 32 word" where
  "sha1_k t = (if t < 20 then 0x5A827999 else if t < 40 then 0x6ED9EBA1 else if t < 60 then 0x8F1BBCDC else 0xCA62C1D6)"

text \<open>
  Rounds \<open>t\<close> to \<open>79\<close>: \<open>w\<close> holds the sixteen words of the message schedule from round \<open>t\<close> on.
\<close>

fun sha1_rounds :: "nat \<Rightarrow> nat \<Rightarrow> 32 word list \<Rightarrow> sha1_state \<Rightarrow> sha1_state" where
  "sha1_rounds 0 t w s = s"
| "sha1_rounds (Suc n) t w (a, b, c, d, e) =
     sha1_rounds n (Suc t) (tl w @ [rotl 1 (w ! 13 XOR w ! 8 XOR w ! 2 XOR w ! 0)])
       (rotl 5 a + sha1_f t b c d + e + sha1_k t + hd w, a, rotl 30 b, c, d)"

fun groups :: "nat \<Rightarrow> nat \<Rightarrow> bytes \<Rightarrow> bytes list" where
  "groups 0 n bs = []"
| "groups (Suc k) n bs = take n bs # groups k n (drop n bs)"

definition sha1_block :: "bytes \<Rightarrow> sha1_state \<Rightarrow> sha1_state" where
  "sha1_block blk = (\<lambda>(a, b, c, d, e).
     case sha1_rounds 80 0 (map be32 (groups 16 4 blk)) (a, b, c, d, e) of
       (a', b', c', d', e') \<Rightarrow> (a + a', b + b', c + c', d + d', e + e'))"

definition sha1 :: "bytes \<Rightarrow> bytes" where
  "sha1 m =
     (let p = sha1_pad m in
      case fold sha1_block (groups (length p div 64) 64 p) sha1_init of
        (a, b, c, d, e) \<Rightarrow> word_bytes a @ word_bytes b @ word_bytes c @ word_bytes d @ word_bytes e)"

lemma length_word_bytes [simp]: "length (word_bytes x) = 4"
  by (simp add: word_bytes_def)

lemma length_sha1 [simp]: "length (sha1 m) = 20"
proof -
  obtain a b c d e where "fold sha1_block (groups (length (sha1_pad m) div 64) 64 (sha1_pad m)) sha1_init = (a, b, c, d, e)"
    by (metis prod_cases5)
  then show ?thesis by (simp add: sha1_def)
qed

text \<open>The padded message is a whole number of blocks.\<close>

lemma sha1_pad_blocks: "64 dvd length (sha1_pad m)"
proof -
  have len: "length (sha1_pad m) = length m + 9 + (119 - length m mod 64) mod 64" by (simp add: sha1_pad_def)
  have pad: "(r + 9 + (119 - r) mod 64) mod 64 = 0" if "r < 64" for r :: nat
  proof (cases "r \<le> 55")
    case True
    then have "(119 - r) mod 64 = (55 - r + 64) mod 64" by simp
    also have "\<dots> = 55 - r" using True by (subst mod_add_self2) simp
    finally show ?thesis using True by simp
  qed (use that in simp)
  have "(length m + 9 + (119 - length m mod 64) mod 64) mod 64 =
      (length m mod 64 + 9 + (119 - length m mod 64) mod 64) mod 64"
    by (metis mod_add_left_eq add.assoc)
  also have "\<dots> = 0" by (rule pad) simp
  finally show ?thesis unfolding dvd_eq_mod_eq_0 len .
qed

section \<open>Base64\<close>

definition base64_alphabet :: bytes where
  "base64_alphabet = str ''ABCDEFGHIJKLMNOPQRSTUVWXYZabcdefghijklmnopqrstuvwxyz0123456789+/''"

definition base64_digit :: "int \<Rightarrow> byte" where
  "base64_digit n = base64_alphabet ! nat (n mod 64)"

fun base64 :: "bytes \<Rightarrow> bytes" where
  "base64 [] = []"
| "base64 [a] = [base64_digit (uint a div 4), base64_digit (uint a * 16), 61, 61]"
| "base64 [a, b] =
     [base64_digit (uint a div 4), base64_digit (uint a * 16 + uint b div 16), base64_digit (uint b * 4), 61]"
| "base64 (a # b # c # rest) =
     [base64_digit (uint a div 4), base64_digit (uint a * 16 + uint b div 16),
      base64_digit (uint b * 4 + uint c div 64), base64_digit (uint c)] @ base64 rest"

lemma length_base64: "length (base64 bs) = 4 * ((length bs + 2) div 3)"
proof (induction bs rule: base64.induct)
  case (4 a b c rest)
  have "(n + 3 + 2) div 3 = Suc ((n + 2) div 3)" for n :: nat by presburger
  from this [of "length rest"] 4 show ?case by simp
qed simp_all

end
