(* ===== verification/Radix.thy ===== *)
theory Radix
  imports Go_Base
begin

text \<open>
  Reading and printing numbers in a base.  The parser's two digit loops (\<open>parseInt\<close> in base 10,
  \<open>parseHexInt\<close> in base 16) share one shape, stated as the locale \<open>radix_loop\<close>: their overflow
  guard is proved exact once, for both.  \<open>append_radix\<close> is \<open>strconv.AppendInt\<close> on non-negative
  numbers, which the response writer uses for chunk sizes and the status line.
\<close>

text \<open>The number a digit string denotes, with no bound.\<close>

fun radix_value :: "int \<Rightarrow> (byte \<Rightarrow> int option) \<Rightarrow> int \<Rightarrow> bytes \<Rightarrow> int option" where
  "radix_value base digit n [] = Some n"
| "radix_value base digit n (c # b) =
     (case digit c of None \<Rightarrow> None | Some v \<Rightarrow> radix_value base digit (n * base + v) b)"

lemma radix_value_append:
  "radix_value base digit n (b @ b') =
     (case radix_value base digit n b of None \<Rightarrow> None | Some m \<Rightarrow> radix_value base digit m b')"
  by (induction b arbitrary: n) (auto split: option.splits)

text \<open>The guard \<open>n > (max - digit) / base\<close> holds exactly when the next value passes the maximum.\<close>

lemma overflow_guard:
  fixes n :: int
  assumes "0 < base"
  shows "n > (m - v) div base \<longleftrightarrow> n * base + v > m"
proof -
  have "n \<le> (m - v) div base \<longleftrightarrow> n * base \<le> m - v"
  proof
    assume "n \<le> (m - v) div base"
    then have "n * base \<le> (m - v) div base * base"
      using assms by (intro mult_right_mono) simp_all
    also have "\<dots> \<le> m - v"
      using assms by (metis div_mult_mod_eq le_add_same_cancel1 pos_mod_sign)
    finally show "n * base \<le> m - v" .
  next
    assume "n * base \<le> m - v"
    then have "n * base div base \<le> (m - v) div base"
      using assms by (intro zdiv_mono1) simp_all
    with assms show "n \<le> (m - v) div base" by simp
  qed
  then show ?thesis by linarith
qed

locale radix_loop =
  fixes base :: int
    and digit :: "byte \<Rightarrow> int option"
    and loop :: "int \<Rightarrow> bytes \<Rightarrow> go_error + int"
  assumes base: "1 < base"
    and digit_range: "digit c = Some v \<Longrightarrow> 0 \<le> v \<and> v < base"
    and loop_Nil: "loop n [] = Inr n"
    and loop_Cons: "loop n (c # b) =
      (case digit c of
         None \<Rightarrow> Inl ErrSyntax
       | Some v \<Rightarrow>
           if n > (maxInt - v) div base then Inl ErrRange else loop (wrap64 (n * base + v)) b)"
begin

lemma guard: "n > (maxInt - v) div base \<longleftrightarrow> n * base + v > maxInt"
  using overflow_guard [of base maxInt v n] base by simp

lemma step_mono: "0 \<le> n \<Longrightarrow> digit c = Some v \<Longrightarrow> n \<le> n * base + v"
  using base digit_range [of c v] mult_left_mono [of 1 base n] by simp

lemma no_wrap:
  assumes "0 \<le> n" "digit c = Some v" "\<not> n * base + v > maxInt"
  shows "wrap64 (n * base + v) = n * base + v"
  using assms step_mono [OF assms(1,2)] by (intro wrap64_id) (simp add: int64_range_def)

lemma value_mono: "0 \<le> n \<Longrightarrow> radix_value base digit n b = Some m \<Longrightarrow> n \<le> m"
proof (induction b arbitrary: n)
  case Nil
  then show ?case by simp
next
  case (Cons c b)
  then obtain v where v: "digit c = Some v" "radix_value base digit (n * base + v) b = Some m"
    by (auto split: option.splits)
  have "n \<le> n * base + v"
    using Cons.prems(1) v(1) by (rule step_mono)
  with Cons.IH [OF _ v(2)] Cons.prems(1) show ?case by linarith
qed

text \<open>The loop never wraps: it returns the value where that fits and fails everywhere else.\<close>

lemma loop_Inr:
  assumes "0 \<le> n" "n \<le> maxInt"
  shows "loop n b = Inr m \<longleftrightarrow> radix_value base digit n b = Some m \<and> m \<le> maxInt"
  using assms
proof (induction b arbitrary: n)
  case Nil
  then show ?case by (auto simp: loop_Nil)
next
  case (Cons c b)
  show ?case
  proof (cases "digit c")
    case None
    then show ?thesis by (simp add: loop_Cons)
  next
    case (Some v)
    have le: "n \<le> n * base + v"
      using Cons.prems(1) Some by (rule step_mono)
    show ?thesis
    proof (cases "n * base + v > maxInt")
      case True
      have "m > maxInt" if "radix_value base digit (n * base + v) b = Some m"
        using value_mono [OF _ that] True le Cons.prems(1) by linarith
      with True Some show ?thesis by (fastforce simp: loop_Cons guard)
    next
      case False
      then show ?thesis
        using Cons.IH [of "n * base + v"] Cons.prems le Some no_wrap [OF Cons.prems(1) Some]
        by (simp add: loop_Cons guard)
    qed
  qed
qed

lemma loop_range: "loop 0 b = Inr m \<Longrightarrow> 0 \<le> m \<and> m \<le> maxInt"
  using loop_Inr [of 0 b m] value_mono [of 0 b m] by (simp add: maxInt_def)

text \<open>A value too large is a range error, never a wrong number.\<close>

lemma loop_ErrRange:
  assumes "0 \<le> n" "n \<le> maxInt" "radix_value base digit n b = Some m" "maxInt < m"
  shows "loop n b = Inl ErrRange"
  using assms
proof (induction b arbitrary: n)
  case Nil
  then show ?case by simp
next
  case (Cons c b)
  then obtain v where v: "digit c = Some v" "radix_value base digit (n * base + v) b = Some m"
    by (auto split: option.splits)
  have le: "n \<le> n * base + v"
    using Cons.prems(1) v(1) by (rule step_mono)
  show ?case
  proof (cases "n * base + v > maxInt")
    case True
    with v show ?thesis by (simp add: loop_Cons guard)
  next
    case False
    with Cons.IH [of "n * base + v"] Cons.prems v le show ?thesis
      by (simp add: loop_Cons guard no_wrap [OF Cons.prems(1) v(1)])
  qed
qed

lemma loop_not_digits:
  assumes "radix_value base digit n b = None" "0 \<le> n" "n \<le> maxInt"
  shows "loop n b = Inl ErrSyntax \<or> loop n b = Inl ErrRange"
  using assms
proof (induction b arbitrary: n)
  case Nil
  then show ?case by simp
next
  case (Cons c b)
  show ?case
  proof (cases "digit c")
    case None
    then show ?thesis by (simp add: loop_Cons)
  next
    case (Some v)
    have le: "n \<le> n * base + v"
      using Cons.prems(2) Some by (rule step_mono)
    with Cons Some show ?thesis
      by (auto simp: loop_Cons guard no_wrap [OF Cons.prems(2) Some])
  qed
qed

end

section \<open>Printing\<close>

definition digit_char :: "nat \<Rightarrow> byte" where
  "digit_char d = (if d < 10 then word_of_nat (48 + d) else word_of_nat (87 + d))"

function append_radix :: "nat \<Rightarrow> nat \<Rightarrow> bytes" where
  "append_radix base n =
     (if n < base \<or> base < 2 then [digit_char n]
      else append_radix base (n div base) @ [digit_char (n mod base)])"
  by pat_completeness auto
termination
  by (relation "measure snd") auto

declare append_radix.simps [simp del]

lemma append_radix_not_Nil [simp]: "append_radix base n \<noteq> []"
  by (subst append_radix.simps) simp

lemma radix_value_append_radix:
  assumes "2 \<le> b" and "\<And>d. d < b \<Longrightarrow> digit (digit_char d) = Some (int d)"
  shows "radix_value (int b) digit 0 (append_radix b n) = Some (int n)"
proof (induction n rule: less_induct)
  case (less n)
  show ?case
  proof (cases "n < b")
    case True
    with assms show ?thesis by (simp add: append_radix.simps [of b n])
  next
    case False
    have "int (n div b) * int b + int (n mod b) = int n"
      by (simp flip: of_nat_mult of_nat_add)
    moreover have "n div b < n" "n mod b < b" using False assms(1) by auto
    ultimately show ?thesis
      using False assms less [of "n div b"]
      by (simp add: append_radix.simps [of b n] radix_value_append)
  qed
qed

lemma append_radix_digits:
  assumes "2 \<le> b" "\<And>d. d < b \<Longrightarrow> P (digit_char d)" "c \<in> set (append_radix b n)"
  shows "P c"
  using assms(3)
proof (induction n rule: less_induct)
  case (less n)
  show ?case
  proof (cases "n < b")
    case True
    with less.prems assms(2) show ?thesis by (simp add: append_radix.simps [of b n])
  next
    case False
    then have "n div b < n" "n mod b < b" using assms(1) by auto
    with less.prems less.IH [of "n div b"] False assms(1) assms(2) [of "n mod b"] show ?thesis
      by (auto simp: append_radix.simps [of b n])
  qed
qed

end
