(* ===== verification/Http_Parser.thy ===== *)
theory Http_Parser
  imports Framing Radix
begin

text \<open>
  The request framing check of \<open>src/pkg/engine/parser/parser.go\<close>: \<open>CheckRequest\<close> decides, from the
  bytes received so far, whether a whole HTTP/1.1 request has arrived, and \<open>parseInt\<close>,
  \<open>parseHexInt\<close> and \<open>containsCaseInsensitive\<close> are the routines it is built from.
\<close>

section \<open>Constants and results\<close>

definition headerCL :: bytes where
  "headerCL = str ''Content-Length:''"

definition headerTE :: bytes where
  "headerTE = str ''Transfer-Encoding:''"

definition valChunked :: bytes where
  "valChunked = str ''chunked''"

definition MaxHeaderSize :: nat where
  "MaxHeaderSize = 8 * 1024"

record CheckResult =
  Complete :: bool
  BytesConsumed :: int
  Error :: "go_error option"

definition incomplete :: CheckResult where
  "incomplete = \<lparr>Complete = False, BytesConsumed = 0, Error = None\<rparr>"

definition rejected :: "go_error \<Rightarrow> CheckResult" where
  "rejected e = \<lparr>Complete = False, BytesConsumed = 0, Error = Some e\<rparr>"

definition complete :: "int \<Rightarrow> CheckResult" where
  "complete n = \<lparr>Complete = True, BytesConsumed = n, Error = None\<rparr>"

lemmas result_defs = incomplete_def rejected_def complete_def

section \<open>Numbers\<close>

text \<open>
  The loop of \<open>parseInt\<close>.  \<open>(maxInt-digit)/10\<close> divides a non-negative number, where Go's division
  and \<open>div\<close> agree.
\<close>

fun parseInt_loop :: "int \<Rightarrow> bytes \<Rightarrow> go_error + int" where
  "parseInt_loop n [] = Inr n"
| "parseInt_loop n (ch # b) =
     (if ch < 48 \<or> ch > 57 then Inl ErrSyntax
      else let digit = uint (ch - 48) in
        if n > (maxInt - digit) div 10 then Inl ErrRange
        else parseInt_loop (wrap64 (n * 10 + digit)) b)"

definition parseInt :: "bytes \<Rightarrow> go_error + int" where
  "parseInt b =
     (if b = [] then Inl ErrSyntax
      else let neg = (hd b = 45);
               b = (if hd b = 45 then tl b else if hd b = 43 then tl b else b)
        in if b = [] then Inl ErrSyntax
           else case parseInt_loop 0 b of
                  Inl e \<Rightarrow> Inl e
                | Inr n \<Rightarrow> Inr (if neg then wrap64 (- n) else n))"

definition hex_val :: "byte \<Rightarrow> int option" where
  "hex_val ch =
     (if ch \<ge> 48 \<and> ch \<le> 57 then Some (uint (ch - 48))
      else if ch \<ge> 97 \<and> ch \<le> 102 then Some (uint (ch - 97 + 10))
      else if ch \<ge> 65 \<and> ch \<le> 70 then Some (uint (ch - 65 + 10))
      else None)"

fun parseHexInt_loop :: "int \<Rightarrow> bytes \<Rightarrow> go_error + int" where
  "parseHexInt_loop n [] = Inr n"
| "parseHexInt_loop n (ch # b) =
     (case hex_val ch of
        None \<Rightarrow> Inl ErrSyntax
      | Some val \<Rightarrow>
          if n > (maxInt - val) div 16 then Inl ErrRange
          else parseHexInt_loop (wrap64 (n * 16 + val)) b)"

definition parseHexInt :: "bytes \<Rightarrow> go_error + int" where
  "parseHexInt b = (if b = [] then Inl ErrSyntax else parseHexInt_loop 0 b)"

text \<open>Both loops are digit loops in the sense of \<^theory_text>\<open>Radix\<close>.\<close>

definition dec_val :: "byte \<Rightarrow> int option" where
  "dec_val ch = (if ch < 48 \<or> ch > 57 then None else Some (uint (ch - 48)))"

lemma uint_sub_byte: "(b :: byte) \<le> a \<Longrightarrow> uint (a - b) = uint a - uint b"
  by (simp add: uint_minus_simple_alt)

lemma dec_val_range: "dec_val ch = Some v \<Longrightarrow> 0 \<le> v \<and> v < 10"
  by (auto simp: dec_val_def uint_sub_byte word_le_def word_less_def split: if_splits)

lemma hex_val_cases:
  "hex_val ch =
     (if 48 \<le> uint ch \<and> uint ch \<le> 57 then Some (uint ch - 48)
      else if 97 \<le> uint ch \<and> uint ch \<le> 102 then Some (uint ch - 87)
      else if 65 \<le> uint ch \<and> uint ch \<le> 70 then Some (uint ch - 55)
      else None)"
proof -
  have "uint (ch - b + 10) = uint ch - uint b + 10"
    if "b \<le> ch" "uint ch - uint b < 16" for b :: byte
  proof -
    have "uint (ch - b + 10) = (uint (ch - b) + 10) mod 256"
      by (simp add: uint_word_ariths)
    with that show ?thesis by (simp add: uint_sub_byte word_le_def)
  qed
  then show ?thesis
    by (auto simp: hex_val_def uint_sub_byte word_le_def)
qed

lemma hex_val_range: "hex_val ch = Some v \<Longrightarrow> 0 \<le> v \<and> v < 16"
  by (auto simp: hex_val_cases split: if_splits)

interpretation dec: radix_loop 10 dec_val parseInt_loop
proof unfold_locales
  show "parseInt_loop n (c # b) =
    (case dec_val c of None \<Rightarrow> Inl ErrSyntax
     | Some v \<Rightarrow> if n > (maxInt - v) div 10 then Inl ErrRange
                 else parseInt_loop (wrap64 (n * 10 + v)) b)" for n c b
    by (simp add: dec_val_def Let_def)
qed (auto dest: dec_val_range)

interpretation hex: radix_loop 16 hex_val parseHexInt_loop
  by unfold_locales (auto dest: hex_val_range split: option.splits)

lemma parseHexInt_range: "parseHexInt b = Inr n \<Longrightarrow> 0 \<le> n \<and> n \<le> maxInt"
  by (auto simp: parseHexInt_def split: if_splits dest: hex.loop_range)

section \<open>Case-insensitive containment\<close>

text \<open>The inner loop compares \<open>substr\<close> with the bytes of \<open>s\<close> from position \<open>i\<close> on.\<close>

fun cci_match :: "bytes \<Rightarrow> bytes \<Rightarrow> bool" where
  "cci_match s [] = True"
| "cci_match [] (p # ps) = False"
| "cci_match (c # s) (p # ps) =
     (let c = (if c \<ge> 65 \<and> c \<le> 90 then c + (97 - 65) else c)
      in if c \<noteq> p then False else cci_match s ps)"

fun cci_loop :: "bytes \<Rightarrow> bytes \<Rightarrow> nat \<Rightarrow> nat \<Rightarrow> bool" where
  "cci_loop s substr i 0 = False"
| "cci_loop s substr i (Suc k) =
     (if cci_match (drop i s) substr then True else cci_loop s substr (Suc i) k)"

text \<open>The outer loop runs over \<open>i = 0, ..., len(s)-len(substr)\<close>; \<open>k\<close> counts the rounds left.\<close>

definition containsCaseInsensitive :: "bytes \<Rightarrow> bytes \<Rightarrow> bool" where
  "containsCaseInsensitive s substr =
     (if length substr = 0 then True
      else if length s < length substr then False
      else cci_loop s substr 0 (length s - length substr + 1))"

section \<open>The header scan\<close>

definition headerNamed :: "bytes \<Rightarrow> bytes \<Rightarrow> bool" where
  "headerNamed line name \<longleftrightarrow> length line > length name \<and> EqualFold (take (length name) line) name"

definition chunkedValue :: "bytes \<Rightarrow> bool" where
  "chunkedValue val \<longleftrightarrow>
     length val \<ge> length valChunked \<and>
     (EqualFold val valChunked \<or> containsCaseInsensitive val valChunked)"

text \<open>
  The loop over the header lines, with \<open>contentLength\<close> and \<open>isChunked\<close> as its variables; an error
  leaves \<open>CheckRequest\<close> at once.
\<close>

fun scanHeaders :: "bytes list \<Rightarrow> int \<Rightarrow> bool \<Rightarrow> go_error + int \<times> bool" where
  "scanHeaders [] contentLength isChunked = Inr (contentLength, isChunked)"
| "scanHeaders (line # rest) contentLength isChunked =
     (if headerNamed line headerCL then
        (case parseInt (TrimSpace (drop (length headerCL) line)) of
           Inl e \<Rightarrow> Inl e
         | Inr cl \<Rightarrow> if cl < 0 then Inl ErrSyntax else scanHeaders rest cl isChunked)
      else if headerNamed line headerTE then
        scanHeaders rest contentLength
          (isChunked \<or> chunkedValue (TrimSpace (drop (length headerTE) line)))
      else scanHeaders rest contentLength isChunked)"

section \<open>The chunk scan\<close>

definition chunkSizeField :: "bytes \<Rightarrow> bytes" where
  "chunkSizeField line =
     TrimSpace (case IndexByte line 59 of None \<Rightarrow> line | Some semi \<Rightarrow> take semi line)"

text \<open>
  One round of the chunk loop from \<open>offset\<close>: more data is needed, the size line is bad, the last
  chunk with its trailer ends at a position, or the loop goes on after the data of a chunk.
\<close>

datatype chunk_step = NeedMore | Bad go_error | Last nat | Skip nat

definition chunkStep :: "bytes \<Rightarrow> nat \<Rightarrow> chunk_step" where
  "chunkStep bodyData offset =
     (case Index (drop offset bodyData) crlf of
        None \<Rightarrow> NeedMore
      | Some idx \<Rightarrow>
          (case parseHexInt (chunkSizeField (take idx (drop offset bodyData))) of
             Inl e \<Rightarrow> Bad e
           | Inr chunkSize \<Rightarrow>
               let offset' = offset + idx + 2; rest = drop offset' bodyData in
               if chunkSize = 0 then
                 (if length rest \<ge> 2 \<and> HasPrefix rest crlf then Last (offset' + 2)
                  else case Index rest headerEnd of
                         None \<Rightarrow> NeedMore
                       | Some trailerEnd \<Rightarrow> Last (offset' + trailerEnd + length headerEnd))
               else if chunkSize > maxInt - 2 then Bad ErrRange
               else if int (length rest) < chunkSize + 2 then NeedMore
               else Skip (offset' + (nat chunkSize + 2))))"

lemma chunkStep_Skip:
  assumes "chunkStep bodyData offset = Skip offset'"
  shows "offset + 2 < offset' \<and> offset' \<le> length bodyData"
proof -
  from assms obtain idx c where idx: "Index (drop offset bodyData) crlf = Some idx"
    and c: "parseHexInt (chunkSizeField (take idx (drop offset bodyData))) = Inr c" "c \<noteq> 0"
      "\<not> int (length (drop (offset + idx + 2) bodyData)) < c + 2"
    and "offset' = offset + idx + 2 + (nat c + 2)"
    by (auto simp: chunkStep_def Let_def split: option.splits sum.splits if_splits)
  moreover have "idx + 2 \<le> length (drop offset bodyData)"
    using Index_bound [OF idx] by simp
  moreover have "0 \<le> c"
    using parseHexInt_range [OF c(1)] by simp
  ultimately show ?thesis using c(2) by auto
qed

function chunkLoop :: "nat \<Rightarrow> bytes \<Rightarrow> nat \<Rightarrow> CheckResult" where
  "chunkLoop headerBodySep bodyData offset =
     (case chunkStep bodyData offset of
        NeedMore \<Rightarrow> incomplete
      | Bad e \<Rightarrow> rejected e
      | Last end_offset \<Rightarrow> complete (int (headerBodySep + end_offset))
      | Skip offset' \<Rightarrow> chunkLoop headerBodySep bodyData offset')"
  by pat_completeness auto
termination
  by (relation "measure (\<lambda>(sep, body, offset). length body - offset)")
    (auto dest!: chunkStep_Skip)

declare chunkLoop.simps [simp del]

section \<open>CheckRequest\<close>

definition CheckRequest :: "bytes \<Rightarrow> CheckResult" where
  "CheckRequest data =
     (case Index data headerEnd of
        None \<Rightarrow> if length data > MaxHeaderSize then rejected ErrRange else incomplete
      | Some headerEndIdx \<Rightarrow>
          if headerEndIdx > MaxHeaderSize then rejected ErrRange
          else
            let headerBodySep = headerEndIdx + 4; headers = take headerEndIdx data in
            (case Index headers crlf of
               None \<Rightarrow> incomplete
             | Some idx \<Rightarrow>
                 (case scanHeaders (header_lines (drop (idx + 2) headers)) (-1) False of
                    Inl e \<Rightarrow> rejected e
                  | Inr (contentLength, isChunked) \<Rightarrow>
                      if isChunked then chunkLoop headerBodySep (drop headerBodySep data) 0
                      else if contentLength \<ge> 0 then
                        let totalLen = wrap64 (int headerBodySep + contentLength) in
                        if int (length data) \<ge> totalLen then complete totalLen else incomplete
                      else complete (int headerBodySep))))"

section \<open>Facts on the parts\<close>

lemma result_simps [simp]:
  "Complete (complete n)" "BytesConsumed (complete n) = n" "Error (complete n) = None"
  "\<not> Complete incomplete" "Error incomplete = None"
  "\<not> Complete (rejected e)" "Error (rejected e) = Some e"
  "complete n \<noteq> incomplete" "complete n \<noteq> rejected e" "incomplete \<noteq> rejected e"
  "incomplete \<noteq> complete n" "rejected e \<noteq> complete n" "rejected e \<noteq> incomplete"
  "complete n = complete m \<longleftrightarrow> n = m" "rejected e = rejected e' \<longleftrightarrow> e = e'"
  by (simp_all add: result_defs)

lemma parseInt_range: "parseInt b = Inr n \<Longrightarrow> - maxInt \<le> n \<and> n \<le> maxInt"
  by (auto simp: parseInt_def Let_def wrap64_id int64_range_def maxInt_def
      split: if_splits sum.splits dest!: dec.loop_range)

lemma scanHeaders_range:
  "scanHeaders ls cl ch = Inr (cl', ch') \<Longrightarrow> cl \<le> maxInt \<Longrightarrow> cl' \<le> maxInt"
  by (induction ls cl ch rule: scanHeaders.induct)
    (auto split: if_splits sum.splits dest: parseInt_range)

lemma chunkStep_Last:
  assumes "chunkStep body off = Last e"
  shows "off + 2 < e \<and> e \<le> length body"
proof -
  from assms obtain idx where idx: "Index (drop off body) crlf = Some idx"
    and e: "e = off + idx + 2 + 2 \<and> length (drop (off + idx + 2) body) \<ge> 2 \<or>
      (\<exists>t. Index (drop (off + idx + 2) body) headerEnd = Some t \<and> e = off + idx + 2 + t + 4)"
    by (auto simp: chunkStep_def Let_def split: option.splits sum.splits if_splits)
  have "idx + 2 \<le> length body - off"
    using Index_bound [OF idx] by simp
  with e show ?thesis
    by (auto dest!: Index_bound)
qed

text \<open>Two bodies that agree up to a position below which a round decided are treated alike.\<close>

lemma chunkStep_Last_cong:
  assumes step: "chunkStep body off = Last e" and agree: "take e body' = take e body"
  shows "chunkStep body' off = Last e"
proof -
  note e = chunkStep_Last [OF step]
  have len: "e \<le> length body'" using agree e by (blast intro: take_agree_length)
  from step obtain idx where idx: "Index (drop off body) crlf = Some idx"
    and c: "parseHexInt (chunkSizeField (take idx (drop off body))) = Inr 0"
    and body: "(if length (drop (off + idx + 2) body) \<ge> 2 \<and> HasPrefix (drop (off + idx + 2) body) crlf
       then Last (off + idx + 2 + 2)
       else case Index (drop (off + idx + 2) body) headerEnd of
              None \<Rightarrow> NeedMore | Some t \<Rightarrow> Last (off + idx + 2 + t + 4)) = Last e"
    by (auto simp: chunkStep_def Let_def split: option.splits sum.splits if_splits)
  have e4: "off + idx + 4 \<le> e"
    using body by (auto split: if_splits option.splits)
  have pre: "take (idx + 2) (drop off body') = take (idx + 2) (drop off body)"
    by (rule take_drop_agree [OF agree]) (use e4 in linarith)
  then have idx': "Index (drop off body') crlf = Some idx"
    using Index_cong [OF idx] by simp
  have line: "take idx (drop off body') = take idx (drop off body)"
    by (rule take_drop_agree [OF agree]) (use e4 in linarith)
  have pref: "HasPrefix (drop (off + idx + 2) body') crlf = HasPrefix (drop (off + idx + 2) body) crlf"
    by (rule HasPrefix_cong, rule take_drop_agree [OF agree]) (use e4 in simp)
  have len2: "2 \<le> length (drop (off + idx + 2) body')" "2 \<le> length (drop (off + idx + 2) body)"
    using len e e4 by auto
  show ?thesis
  proof (cases "HasPrefix (drop (off + idx + 2) body) crlf")
    case True
    with body idx' c line pref len2 show ?thesis by (simp add: chunkStep_def Let_def)
  next
    case False
    with body obtain t where t: "Index (drop (off + idx + 2) body) headerEnd = Some t"
      "e = off + idx + 2 + t + 4"
      by (auto split: option.splits)
    have "Index (drop (off + idx + 2) body') headerEnd = Some t"
      by (rule Index_cong [OF t(1)], rule take_drop_agree [OF agree]) (use t(2) in simp)
    with False t(2) idx' c line pref len2 show ?thesis by (simp add: chunkStep_def Let_def)
  qed
qed

lemma chunkStep_Skip_cong:
  assumes step: "chunkStep body off = Skip o'" and agree: "take o' body' = take o' body"
  shows "chunkStep body' off = Skip o'"
proof -
  note o' = chunkStep_Skip [OF step]
  have len: "o' \<le> length body'" using agree o' by (blast intro: take_agree_length)
  from step obtain idx c where idx: "Index (drop off body) crlf = Some idx"
    and c: "parseHexInt (chunkSizeField (take idx (drop off body))) = Inr c" "c \<noteq> 0"
      "\<not> c > maxInt - 2"
    and o'_eq: "o' = off + idx + 2 + (nat c + 2)"
    by (auto simp: chunkStep_def Let_def split: option.splits sum.splits if_splits)
  have "take (idx + 2) (drop off body') = take (idx + 2) (drop off body)"
    by (rule take_drop_agree [OF agree]) (use o'_eq in linarith)
  then have "Index (drop off body') crlf = Some idx"
    using Index_cong [OF idx] by simp
  moreover have "take idx (drop off body') = take idx (drop off body)"
    by (rule take_drop_agree [OF agree]) (use o'_eq in linarith)
  moreover have "\<not> int (length (drop (off + idx + 2) body')) < c + 2"
    using len o'_eq parseHexInt_range [OF c(1)] by simp
  ultimately show ?thesis
    using c o'_eq by (simp add: chunkStep_def Let_def)
qed

lemma chunkLoop_complete:
  assumes "Complete (chunkLoop sep body off)"
  shows "\<exists>e. chunkLoop sep body off = complete (int (sep + e)) \<and> off + 2 < e \<and> e \<le> length body"
  using assms
proof (induction sep body off rule: chunkLoop.induct)
  case (1 sep body off)
  show ?case
  proof (cases "chunkStep body off")
    case (Last e)
    then show ?thesis
      using chunkStep_Last [OF Last] by (simp add: chunkLoop.simps [of sep body off])
  next
    case (Skip o')
    with 1 obtain e where "chunkLoop sep body o' = complete (int (sep + e))"
      "o' + 2 < e \<and> e \<le> length body"
      by (auto simp: chunkLoop.simps [of sep body off])
    with Skip chunkStep_Skip [OF Skip] show ?thesis
      by (intro exI [of _ e]) (simp add: chunkLoop.simps [of sep body off])
  qed (use 1 in \<open>auto simp: chunkLoop.simps [of sep body off]\<close>)
qed

lemma chunkLoop_cong:
  assumes "chunkLoop sep body off = complete (int (sep + e))" "take e body' = take e body"
  shows "chunkLoop sep body' off = complete (int (sep + e))"
  using assms
proof (induction sep body off rule: chunkLoop.induct)
  case (1 sep body off)
  note loop = \<open>chunkLoop sep body off = complete (int (sep + e))\<close>
    and agree = \<open>take e body' = take e body\<close>
  show ?case
  proof (cases "chunkStep body off")
    case (Last e')
    with loop have "e' = e" by (simp add: chunkLoop.simps [of sep body off])
    with Last agree have "chunkStep body' off = Last e"
      using chunkStep_Last_cong [of body off e body'] by simp
    then show ?thesis by (simp add: chunkLoop.simps [of sep body' off])
  next
    case (Skip o')
    with loop have loop': "chunkLoop sep body o' = complete (int (sep + e))"
      by (simp add: chunkLoop.simps [of sep body off])
    then have "o' \<le> e"
      using chunkLoop_complete [of sep body o'] by auto
    then have "take o' body' = take o' body"
      using agree by (metis min.absorb1 take_take)
    with Skip have "chunkStep body' off = Skip o'"
      by (rule chunkStep_Skip_cong)
    with "1.IH" [OF Skip loop' agree] show ?thesis
      by (simp add: chunkLoop.simps [of sep body' off])
  qed (use loop in \<open>simp_all add: chunkLoop.simps [of sep body off]\<close>)
qed

section \<open>Framing\<close>

text \<open>
  The length of the request at the front of the data, where \<open>CheckRequest\<close> says it is complete with
  a length that is not negative.
\<close>

definition requestExtent :: "bytes \<Rightarrow> nat option" where
  "requestExtent d =
     (let r = CheckRequest d in
      if Complete r \<and> 0 \<le> BytesConsumed r then Some (nat (BytesConsumed r)) else None)"

lemma fixed_total:
  assumes "cl \<le> maxInt" "0 \<le> cl" "i \<le> MaxHeaderSize" "0 \<le> wrap64 (int (i + 4) + cl)"
  shows "wrap64 (int (i + 4) + cl) = int (i + 4) + cl"
proof (cases "int (i + 4) + cl \<le> maxInt")
  case True
  with assms show ?thesis by (intro wrap64_id) (simp add: int64_range_def)
next
  case False
  with assms have "wrap64 (int (i + 4) + cl) = int (i + 4) + cl - 2 ^ 64"
    by (intro wrap64_overflow) (simp_all add: maxInt_def MaxHeaderSize_def)
  with assms show ?thesis by (simp add: maxInt_def MaxHeaderSize_def)
qed

text \<open>How the header block decides: its extent is enough to know the answer.\<close>

lemma CheckRequest_found:
  assumes "Index d headerEnd = Some i" "i \<le> MaxHeaderSize"
  shows "CheckRequest d =
    (case Index (take i d) crlf of
       None \<Rightarrow> incomplete
     | Some idx \<Rightarrow>
         (case scanHeaders (header_lines (drop (idx + 2) (take i d))) (-1) False of
            Inl e \<Rightarrow> rejected e
          | Inr (contentLength, isChunked) \<Rightarrow>
              if isChunked then chunkLoop (i + 4) (drop (i + 4) d) 0
              else if contentLength \<ge> 0 then
                if int (length d) \<ge> wrap64 (int (i + 4) + contentLength)
                then complete (wrap64 (int (i + 4) + contentLength)) else incomplete
              else complete (int (i + 4))))"
  using assms unfolding CheckRequest_def Let_def by simp

lemma requestExtent_Some:
  assumes "requestExtent d = Some n"
  obtains i where "Index d headerEnd = Some i" "i \<le> MaxHeaderSize" "i + 4 \<le> n" "n \<le> length d"
    "CheckRequest d = complete (int n)"
proof -
  from assms have compl: "Complete (CheckRequest d)" and n: "0 \<le> BytesConsumed (CheckRequest d)"
    "n = nat (BytesConsumed (CheckRequest d))"
    by (auto simp: requestExtent_def Let_def split: if_splits)
  from compl obtain i where i: "Index d headerEnd = Some i" "i \<le> MaxHeaderSize"
    by (auto simp: CheckRequest_def split: option.splits if_splits)
  have i4: "i + 4 \<le> length d" using Index_bound [OF i(1)] by simp
  note found = CheckRequest_found [OF i]
  from compl obtain idx cl ch where scan:
    "Index (take i d) crlf = Some idx"
    "scanHeaders (header_lines (drop (idx + 2) (take i d))) (-1) False = Inr (cl, ch)"
    by (auto simp: found split: option.splits sum.splits)
  have cl: "cl \<le> maxInt" using scanHeaders_range [OF scan(2)] by (simp add: maxInt_def)
  consider (chunked) "ch" | (fixed) "\<not> ch" "0 \<le> cl" | (none) "\<not> ch" "\<not> 0 \<le> cl" by blast
  then show thesis
  proof cases
    case chunked
    then have loop: "CheckRequest d = chunkLoop (i + 4) (drop (i + 4) d) 0"
      using scan by (simp add: found)
    then obtain e where "CheckRequest d = complete (int (i + 4 + e))" "e \<le> length (drop (i + 4) d)"
      using chunkLoop_complete compl by metis
    with n i i4 show thesis by (intro that) auto
  next
    case fixed
    then have r: "CheckRequest d = complete (wrap64 (int (i + 4) + cl))"
      "int (length d) \<ge> wrap64 (int (i + 4) + cl)"
      using scan compl by (auto simp: found split: if_splits)
    then have "wrap64 (int (i + 4) + cl) = int (i + 4) + cl"
      using fixed cl i n by (intro fixed_total) simp_all
    with r n i fixed show thesis by (intro that) auto
  next
    case none
    then have "CheckRequest d = complete (int (i + 4))"
      using scan by (simp add: found)
    with n i i4 show thesis by (intro that) auto
  qed
qed

lemma CheckRequest_prefix:
  assumes "requestExtent d = Some n" "take n d' = take n d"
  shows "CheckRequest d' = CheckRequest d"
proof -
  from assms(1) obtain i where i: "Index d headerEnd = Some i" "i \<le> MaxHeaderSize" "i + 4 \<le> n"
    "n \<le> length d" and r: "CheckRequest d = complete (int n)"
    by (rule requestExtent_Some)
  have agree: "take m d' = take m d" if "m \<le> n" for m
    using assms(2) that by (metis min.absorb1 take_take)
  have i': "Index d' headerEnd = Some i"
    using i(3) by (intro Index_cong [OF i(1)] agree) simp
  have len: "n \<le> length d'" using assms(2) i(4) by (rule take_agree_length)
  have hd: "take i d' = take i d" using i(3) by (intro agree) simp
  have body: "take (n - (i + 4)) (drop (i + 4) d') = take (n - (i + 4)) (drop (i + 4) d)"
    using i(3) by (intro take_drop_agree [OF assms(2)]) simp
  have loop: "chunkLoop (i + 4) (drop (i + 4) d') 0 = complete (int n)"
    if "chunkLoop (i + 4) (drop (i + 4) d) 0 = complete (int n)"
    using chunkLoop_cong [OF _ body, of "i + 4" 0] that i(3) by simp
  show ?thesis
    using r len i(4) loop unfolding CheckRequest_found [OF i(1,2)] CheckRequest_found [OF i' i(2)] hd
    by (auto split: option.splits sum.splits if_splits)
qed

interpretation request: framing requestExtent
proof unfold_locales
  show "0 < n \<and> n \<le> length d" if "requestExtent d = Some n" for d n
    using that by (rule requestExtent_Some) simp
  show "requestExtent d' = Some n" if "requestExtent d = Some n" "take n d' = take n d" for d d' n
    using that CheckRequest_prefix [OF that] by (simp add: requestExtent_def)
qed

section \<open>Properties\<close>

subsection \<open>Numbers\<close>

text \<open>What \<open>parseInt\<close> should accept: an optional sign and at least one digit.\<close>

fun decimal_number :: "bytes \<Rightarrow> int option" where
  "decimal_number [] = None"
| "decimal_number (c # ds) =
     (if c = 45 then (if ds = [] then None else map_option uminus (radix_value 10 dec_val 0 ds))
      else if c = 43 then (if ds = [] then None else radix_value 10 dec_val 0 ds)
      else radix_value 10 dec_val 0 (c # ds))"

lemma wrap64_uminus: "0 \<le> n \<Longrightarrow> n \<le> maxInt \<Longrightarrow> wrap64 (- n) = - n"
  by (rule wrap64_id) (simp add: int64_range_def maxInt_def)

text \<open>
  \<open>parseInt\<close> never wraps and never misreads: it returns a number exactly when the text is a
  decimal number whose magnitude fits in \<open>int\<close>, and it returns that number.
\<close>

theorem parseInt_exact:
  "parseInt b = Inr n \<longleftrightarrow> decimal_number b = Some n \<and> \<bar>n\<bar> \<le> maxInt"
proof (cases b)
  case Nil
  then show ?thesis by (simp add: parseInt_def)
next
  case (Cons c ds)
  have loop: "parseInt_loop 0 xs = Inr m \<longleftrightarrow> radix_value 10 dec_val 0 xs = Some m \<and> m \<le> maxInt"
    for xs m by (rule dec.loop_Inr) (simp_all add: maxInt_def)
  have pos: "radix_value 10 dec_val 0 xs = Some m \<Longrightarrow> 0 \<le> m" for xs m
    using dec.value_mono [of 0 xs m] by simp
  have neg: "parseInt_loop 0 xs = Inr m \<Longrightarrow> wrap64 (- m) = - m" for xs m
    by (rule wrap64_uminus) (auto simp: loop dest: pos)
  show ?thesis
  proof (cases "c = 45")
    case True
    have "parseInt b = Inr n \<longleftrightarrow> ds \<noteq> [] \<and> (\<exists>m. parseInt_loop 0 ds = Inr m \<and> n = - m)"
      using True neg by (auto simp: Cons parseInt_def split: sum.splits)
    also have "\<dots> \<longleftrightarrow> decimal_number b = Some n \<and> \<bar>n\<bar> \<le> maxInt"
      using True pos by (auto simp: Cons loop dest: pos)
    finally show ?thesis .
  next
    case False
    let ?ds = "if c = 43 then ds else c # ds"
    have "parseInt b = Inr n \<longleftrightarrow> ?ds \<noteq> [] \<and> parseInt_loop 0 ?ds = Inr n"
      using False by (auto simp: Cons parseInt_def split: sum.splits simp del: parseInt_loop.simps)
    also have "\<dots> \<longleftrightarrow> decimal_number b = Some n \<and> \<bar>n\<bar> \<le> maxInt"
      using False pos by (auto simp: Cons loop dest: pos simp del: radix_value.simps)
    finally show ?thesis .
  qed
qed

lemma parseHexInt_printed:
  "parseHexInt (append_radix 16 n) = (if int n \<le> maxInt then Inr (int n) else Inl ErrRange)"
proof -
  have digit: "hex_val (digit_char d) = Some (int d)" if "d < 16" for d
  proof -
    have "\<forall>d \<in> set [0..<16]. hex_val (digit_char d) = Some (int d)" by code_simp
    with that show ?thesis by simp
  qed
  have val: "radix_value 16 hex_val 0 (append_radix 16 n) = Some (int n)"
    using radix_value_append_radix [of 16 hex_val n] digit by simp
  show ?thesis
  proof (cases "int n \<le> maxInt")
    case True
    with val have "parseHexInt_loop 0 (append_radix 16 n) = Inr (int n)"
      using hex.loop_Inr [of 0] by (simp add: maxInt_def)
    with True show ?thesis by (simp add: parseHexInt_def)
  next
    case False
    with val have "parseHexInt_loop 0 (append_radix 16 n) = Inl ErrRange"
      using hex.loop_ErrRange [of 0] by (simp add: maxInt_def)
    with False show ?thesis by (simp add: parseHexInt_def)
  qed
qed

text \<open>
  \<open>parseHexInt\<close> reads back every size that \<open>strconv.AppendInt\<close> prints in base 16, as the
  response writer does for its chunks, and rejects as out of range every printed size that does
  not fit in \<open>int64\<close>.
\<close>

theorem parseHexInt_append_radix:
  "parseHexInt (append_radix 16 n) = (if int n \<le> maxInt then Inr (int n) else Inl ErrRange)"
  by (rule parseHexInt_printed)

subsection \<open>Containment\<close>

lemma cci_match_iff: "cci_match s p \<longleftrightarrow> length p \<le> length s \<and> map lower (take (length p) s) = p"
  by (induction s p rule: cci_match.induct) (auto simp: lower_def Let_def)

lemma cci_loop_iff:
  "cci_loop s p i k \<longleftrightarrow> (\<exists>j. i \<le> j \<and> j < i + k \<and> cci_match (drop j s) p)"
proof (induction k arbitrary: i)
  case 0
  then show ?case by simp
next
  case (Suc k)
  show ?case
  proof (cases "cci_match (drop i s) p")
    case True
    then show ?thesis by (auto intro: exI [of _ i])
  next
    case False
    then have "(\<exists>j. i \<le> j \<and> j < i + Suc k \<and> cci_match (drop j s) p) \<longleftrightarrow>
        (\<exists>j. Suc i \<le> j \<and> j < Suc i + k \<and> cci_match (drop j s) p)"
      by (metis Suc_leI add_Suc_shift le_eq_less_or_eq Suc_leD)
    with False Suc.IH [of "Suc i"] show ?thesis by simp
  qed
qed

text \<open>
  \<open>containsCaseInsensitive s p\<close> holds exactly when some slice of \<open>s\<close>, put in lower case, is \<open>p\<close>.
\<close>

theorem containsCaseInsensitive_iff:
  "containsCaseInsensitive s p \<longleftrightarrow> (\<exists>pre mid post. s = pre @ mid @ post \<and> map lower mid = p)"
proof
  assume "containsCaseInsensitive s p"
  then consider "p = []" | j where "cci_match (drop j s) p"
    by (auto simp: containsCaseInsensitive_def cci_loop_iff split: if_splits)
  then show "\<exists>pre mid post. s = pre @ mid @ post \<and> map lower mid = p"
  proof cases
    case 1
    then show ?thesis by force
  next
    case 2
    then have "map lower (take (length p) (drop j s)) = p" by (simp add: cci_match_iff)
    then show ?thesis by (metis append_take_drop_id)
  qed
next
  assume "\<exists>pre mid post. s = pre @ mid @ post \<and> map lower mid = p"
  then obtain pre mid post where s: "s = pre @ mid @ post" and p: "map lower mid = p" by blast
  then have "cci_match (drop (length pre) s) p" by (auto simp: cci_match_iff)
  moreover have "length pre < 0 + (length s - length p + 1)" using s p by auto
  ultimately have "cci_loop s p 0 (length s - length p + 1)"
    unfolding cci_loop_iff by blast
  with s p show "containsCaseInsensitive s p"
    by (auto simp: containsCaseInsensitive_def)
qed

subsection \<open>Framing of requests\<close>

text \<open>
  C1: once \<open>CheckRequest\<close> has found a whole request of \<open>n\<close> bytes, its answer rests on those \<open>n\<close>
  bytes alone: the request lies within the data, and whatever follows it (a pipelined request,
  more of it or less of it) leaves the answer unchanged.
\<close>

theorem check_request_prefix:
  assumes "requestExtent d = Some n"
  shows "n \<le> length d \<and> CheckRequest (take n d @ rest) = CheckRequest d"
  using request.extent_bound [OF assms] CheckRequest_prefix [OF assms, of "take n d @ rest"] by simp

theorem check_request_prefix_witness:
  "CheckRequest (take 12 (str ''A'' @ crlf @ str ''Host:'' @ headerEnd @ str ''XY'') @ str ''Z'') =
   CheckRequest (str ''A'' @ crlf @ str ''Host:'' @ headerEnd @ str ''XY'')"
proof -
  have "requestExtent (str ''A'' @ crlf @ str ''Host:'' @ headerEnd @ str ''XY'') = Some 12"
    by code_simp
  from check_request_prefix [OF this, of "str ''Z''"] show ?thesis by simp
qed


subsection \<open>Chunked bodies\<close>

text \<open>A chunk as it stands on the wire, and a chunked body with no trailer.\<close>

definition encodeChunk :: "bytes \<Rightarrow> bytes" where
  "encodeChunk p = append_radix 16 (length p) @ crlf @ p @ crlf"

definition encodeChunked :: "bytes list \<Rightarrow> bytes" where
  "encodeChunked ps = concat (map encodeChunk ps) @ str ''0'' @ headerEnd"

definition sendable :: "bytes \<Rightarrow> bool" where
  "sendable p \<longleftrightarrow> p \<noteq> [] \<and> int (length p) \<le> maxInt - 2"

lemma hex_digits:
  assumes "c \<in> set (append_radix 16 n)"
  shows "printable c \<and> c \<noteq> 13 \<and> c \<noteq> 59"
proof -
  have "printable (digit_char d) \<and> digit_char d \<noteq> 13 \<and> digit_char d \<noteq> 59" if "d < 16" for d
  proof -
    have "d \<in> set [0..<16]" using that by simp
    moreover have "\<forall>d \<in> set [0..<16]. printable (digit_char d) \<and> digit_char d \<noteq> 13 \<and> digit_char d \<noteq> 59"
      by code_simp
    ultimately show ?thesis by blast
  qed
  from append_radix_digits [of 16 "\<lambda>c. printable c \<and> c \<noteq> 13 \<and> c \<noteq> 59", OF _ this assms]
  show ?thesis by simp
qed

lemma chunkSizeField_hex: "chunkSizeField (append_radix 16 n) = append_radix 16 n"
proof -
  have "IndexByte (append_radix 16 n) 59 = None"
    unfolding IndexByte_def by (rule Index_absent) (use hex_digits in blast)
  moreover have "printable (hd (append_radix 16 n))"
    using hex_digits [of "hd (append_radix 16 n)" n] by simp
  moreover have "printable (last (append_radix 16 n))"
    using hex_digits [of "last (append_radix 16 n)" n] by simp
  ultimately show ?thesis by (simp add: chunkSizeField_def)
qed

lemma chunkStep_size_line:
  assumes "drop off body = append_radix 16 n @ crlf @ tail" "int n \<le> maxInt"
  shows "chunkStep body off =
    (let offset' = off + length (append_radix 16 n) + 2 in
     if n = 0 then
       (if length tail \<ge> 2 \<and> HasPrefix tail crlf then Last (offset' + 2)
        else case Index tail headerEnd of None \<Rightarrow> NeedMore | Some t \<Rightarrow> Last (offset' + t + 4))
     else if int n > maxInt - 2 then Bad ErrRange
     else if int (length tail) < int n + 2 then NeedMore
     else Skip (offset' + (n + 2)))"
proof -
  define hex where "hex = append_radix 16 n"
  have idx: "Index (hex @ crlf @ tail) crlf = Some (length hex)"
    unfolding hex_def by (rule Index_crlf) (use hex_digits in blast)
  have drop: "drop off body = hex @ crlf @ tail" using assms(1) by (simp add: hex_def)
  then have rest: "drop (off + length hex + 2) body = tail"
    using drop_past [of off body "hex @ crlf" tail] by simp
  have "parseHexInt (chunkSizeField hex) = Inr (int n)"
    using parseHexInt_printed [of n] assms(2) by (simp add: chunkSizeField_hex hex_def)
  then show ?thesis
    unfolding chunkStep_def drop idx hex_def [symmetric] length_headerEnd using rest by (simp add: Let_def)
qed

lemma chunkStep_encodeChunk:
  assumes "drop off body = encodeChunk p @ tail" "sendable p"
  shows "chunkStep body off = Skip (off + length (encodeChunk p))"
proof -
  have "drop off body = append_radix 16 (length p) @ crlf @ (p @ crlf @ tail)"
    using assms(1) by (simp add: encodeChunk_def)
  from chunkStep_size_line [OF this] assms(2) show ?thesis
    by (simp add: sendable_def encodeChunk_def Let_def)
qed

lemma chunkStep_last:
  assumes "drop off body = str ''0'' @ headerEnd @ tail"
  shows "chunkStep body off = Last (off + 5)"
proof -
  have zero: "append_radix 16 0 = str ''0''" by (simp add: append_radix.simps digit_char_def str_def)
  have "drop off body = append_radix 16 0 @ crlf @ (crlf @ tail)"
    using assms by (simp add: zero headerEnd_crlf)
  from chunkStep_size_line [OF this] show ?thesis
    by (simp add: Let_def zero str_def maxInt_def)
qed

lemma chunkLoop_encodeChunked:
  assumes "drop off body = encodeChunked ps @ tail" "\<forall>p \<in> set ps. sendable p"
  shows "chunkLoop sep body off = complete (int (sep + off + length (encodeChunked ps)))"
  using assms
proof (induction ps arbitrary: off)
  case Nil
  then have "chunkStep body off = Last (off + 5)"
    by (intro chunkStep_last) (simp add: encodeChunked_def)
  then show ?case
    by (simp add: chunkLoop.simps [of sep body off] encodeChunked_def str_def)
next
  case (Cons p ps)
  have drop: "drop off body = encodeChunk p @ (encodeChunked ps @ tail)"
    using Cons.prems(1) by (simp add: encodeChunked_def)
  then have "chunkStep body off = Skip (off + length (encodeChunk p))"
    by (rule chunkStep_encodeChunk) (use Cons.prems(2) in simp)
  moreover have "drop (off + length (encodeChunk p)) body = encodeChunked ps @ tail"
    using drop by (rule drop_past)
  ultimately show ?case
    using Cons.IH [of "off + length (encodeChunk p)"] Cons.prems(2)
    by (simp add: chunkLoop.simps [of sep body off] encodeChunked_def add.assoc)
qed

text \<open>
  A header block as \<open>CheckRequest\<close> sees it: it is ended by the first empty line, is short enough,
  has a request line and at least one more line, and its length and coding fields scan to \<open>r\<close>.
\<close>

definition headerBlock :: "bytes \<Rightarrow> int \<times> bool \<Rightarrow> bool" where
  "headerBlock head r \<longleftrightarrow>
     Index (head @ headerEnd) headerEnd = Some (length head) \<and> length head \<le> MaxHeaderSize \<and>
     (case Index head crlf of
        None \<Rightarrow> False
      | Some idx \<Rightarrow> scanHeaders (header_lines (drop (idx + 2) head)) (-1) False = Inr r)"

lemma CheckRequest_headerBlock:
  assumes "headerBlock head (contentLength, isChunked)"
  shows "CheckRequest (head @ headerEnd @ body) =
    (let sep = length head + 4 in
     if isChunked then chunkLoop sep body 0
     else if contentLength \<ge> 0 then
       if int (sep + length body) \<ge> wrap64 (int sep + contentLength)
       then complete (wrap64 (int sep + contentLength)) else incomplete
     else complete (int sep))"
proof -
  from assms have "Index (head @ headerEnd @ body) headerEnd = Some (length head)"
    using Index_append [of "head @ headerEnd" headerEnd "length head" body]
    by (simp add: headerBlock_def)
  from CheckRequest_found [OF this] assms show ?thesis
    by (auto simp: headerBlock_def Let_def split: option.splits)
qed

text \<open>
  C10: a request whose header block announces the chunked coding is complete as soon as its chunks
  and the last chunk have arrived, whatever the chunks are, and \<open>CheckRequest\<close> consumes
  exactly the header and the encoded body and nothing of what follows.
\<close>

theorem check_request_chunked:
  assumes "headerBlock head (cl, True)" "\<forall>p \<in> set ps. sendable p"
  shows "CheckRequest (head @ headerEnd @ encodeChunked ps @ rest) =
    complete (int (length (head @ headerEnd @ encodeChunked ps)))"
  using CheckRequest_headerBlock [OF assms(1), of "encodeChunked ps @ rest"]
    chunkLoop_encodeChunked [of 0 "encodeChunked ps @ rest" ps rest "length head + 4"] assms(2)
  by (simp add: Let_def)

theorem check_request_chunked_witness:
  "CheckRequest (str ''P'' @ crlf @ str ''Transfer-Encoding: chunked'' @ headerEnd @
     encodeChunked [str ''Hello'', str ''you''] @ str ''G'') = complete 56"
proof -
  have "headerBlock (str ''P'' @ crlf @ str ''Transfer-Encoding: chunked'') (-1, True)"
    by code_simp
  moreover have "\<forall>p \<in> set [str ''Hello'', str ''you'']. sendable p"
    by code_simp
  moreover have "length ((str ''P'' @ crlf @ str ''Transfer-Encoding: chunked'') @ headerEnd @
     encodeChunked [str ''Hello'', str ''you'']) = 56"
    by code_simp
  ultimately show ?thesis
    using check_request_chunked [of "str ''P'' @ crlf @ str ''Transfer-Encoding: chunked''" "-1"
        "[str ''Hello'', str ''you'']" "str ''G''"]
    by simp
qed

subsection \<open>Bodies of a given length\<close>



text \<open>
  The exception.  A \<open>Content-Length\<close> that \<open>parseInt\<close> accepts but that passes the largest
  integer when the header length is added wraps around: the request counts as complete at
  once, with a negative number of bytes consumed and no error, although its body has not come.
\<close>

theorem check_request_length_overflow:
  assumes "headerBlock head (n, False)" "n \<le> maxInt" "maxInt < int (length head + 4) + n"
  shows "CheckRequest (head @ headerEnd @ body) = complete (int (length head + 4) + n - 2 ^ 64)
    \<and> int (length head + 4) + n - 2 ^ 64 < 0"
proof -
  have len: "length head \<le> MaxHeaderSize" using assms(1) by (simp add: headerBlock_def)
  then have n: "0 \<le> n" using assms(3) by (simp add: maxInt_def MaxHeaderSize_def)
  have "wrap64 (int (length head + 4) + n) = int (length head + 4) + n - 2 ^ 64"
    using assms len n by (intro wrap64_overflow) (simp_all add: maxInt_def MaxHeaderSize_def)
  moreover have "int (length head + 4) + n - 2 ^ 64 < 0"
    using assms(2) len by (simp add: maxInt_def MaxHeaderSize_def)
  ultimately show ?thesis
    using CheckRequest_headerBlock [OF assms(1), of body] n by (simp add: Let_def)
qed

theorem check_request_length_overflow_witness:
  "CheckRequest ((str ''P'' @ crlf @ str ''Content-Length: 9223372036854775807'') @ headerEnd @ []) =
     complete (- 9223372036854775767)"
proof -
  have "headerBlock (str ''P'' @ crlf @ str ''Content-Length: 9223372036854775807'')
    (9223372036854775807, False)"
    by code_simp
  from check_request_length_overflow [OF this, of "[]"] show ?thesis
    by (simp add: str_def crlf_def maxInt_def)
qed

subsection \<open>Limits\<close>

text \<open>
  C38: the denial-of-service bound: a request is only ever accepted with a header block of at most
  \<open>MaxHeaderSize\<close> bytes, and as long as \<open>CheckRequest\<close> asks for more bytes of an unfinished header
  block no more than \<open>MaxHeaderSize\<close> bytes have piled up.
\<close>

theorem check_request_header_bound:
  "(Complete (CheckRequest d) \<longrightarrow> (\<exists>i \<le> MaxHeaderSize. Index d headerEnd = Some i)) \<and>
   (CheckRequest d = incomplete \<and> Index d headerEnd = None \<longrightarrow> length d \<le> MaxHeaderSize) \<and>
   (Error (CheckRequest d) \<noteq> None \<longrightarrow> \<not> Complete (CheckRequest d))"
proof -
  have "Complete (CheckRequest d) \<longrightarrow> (\<exists>i \<le> MaxHeaderSize. Index d headerEnd = Some i)"
    by (auto simp: CheckRequest_def split: option.splits if_splits)
  moreover have "CheckRequest d = incomplete \<and> Index d headerEnd = None \<longrightarrow> length d \<le> MaxHeaderSize"
    by (cases "Index d headerEnd") (auto simp: CheckRequest_def)
  moreover have "Error r \<noteq> None \<longrightarrow> \<not> Complete r" if "r = complete n \<or> \<not> Complete r" for r n
    using that by auto
  then have "Error (chunkLoop sep body off) \<noteq> None \<longrightarrow> \<not> Complete (chunkLoop sep body off)"
    for sep body off using chunkLoop_complete by fastforce
  then have "Error (CheckRequest d) \<noteq> None \<longrightarrow> \<not> Complete (CheckRequest d)"
    by (auto simp: CheckRequest_def Let_def split: option.splits sum.splits if_splits)
  ultimately show ?thesis by blast
qed

theorem check_request_header_bound_witness:
  "\<not> Complete (CheckRequest (str ''P'' @ crlf @ str ''Content-Length: x'' @ headerEnd))"
proof -
  have "Error (CheckRequest (str ''P'' @ crlf @ str ''Content-Length: x'' @ headerEnd)) = Some ErrSyntax"
    by code_simp
  with check_request_header_bound show ?thesis by (metis option.discI)
qed

text \<open>
  A request with no header line at all, such as \<open>GET / HTTP/1.0\<close> followed by an empty line, is
  never complete, however much data follows: \<open>headers\<close> excludes the final CRLF, so the search for
  the end of the request line fails, which the source's comment takes to be impossible.
\<close>

theorem check_request_no_header_lines:
  assumes "13 \<notin> set requestLine" "length requestLine \<le> MaxHeaderSize"
  shows "CheckRequest (requestLine @ headerEnd @ rest) = incomplete"
proof -
  have "Index requestLine crlf = None"
    unfolding crlf_def using assms(1) by (rule Index_absent)
  with CheckRequest_found [OF Index_headerEnd [OF assms(1)] assms(2), of rest] show ?thesis
    by simp
qed

theorem check_request_no_header_lines_witness:
  "CheckRequest (str ''GET / HTTP/1.0'' @ headerEnd @ str ''more'') = incomplete"
  by (rule check_request_no_header_lines) code_simp+

text \<open>
  The header limit depends on how the network cuts the data.  A header block of 8190 to 8192
  bytes is accepted when it arrives whole, but if all of it except the last byte of its
  terminator arrives first, the connection is rejected as over the limit.
\<close>

theorem check_request_limit_segmentation:
  assumes "13 \<notin> set requestLine" "13 \<notin> set field" "field \<noteq> []"
    "scanHeaders [field] (-1) False = Inr (-1, False)"
    "8190 \<le> length (requestLine @ crlf @ field)" "length (requestLine @ crlf @ field) \<le> MaxHeaderSize"
  shows "CheckRequest (requestLine @ crlf @ field @ [13, 10, 13]) = rejected ErrRange \<and>
    Complete (CheckRequest (requestLine @ crlf @ field @ [13, 10, 13, 10]))"
proof -
  let ?head = "requestLine @ crlf @ field"
  have field: "\<not> HasPrefix (field @ t) crlf" for t
    using assms(2,3) by (cases field) (auto simp: crlf_def)
  have split: "Index (?head @ t) headerEnd =
      map_option (\<lambda>k. length requestLine + (2 + (length field + k))) (Index t headerEnd)" for t
  proof -
    have "Index (field @ t) headerEnd = map_option (\<lambda>k. length field + k) (Index t headerEnd)"
      using Index_skip [of 13 field t "[10, 13, 10]"] assms(2) by (simp add: headerEnd_def)
    then have "Index (crlf @ field @ t) headerEnd =
        map_option (\<lambda>k. 2 + (length field + k)) (Index t headerEnd)"
      using Index_headerEnd_line [OF field] by (cases "Index t headerEnd") simp_all
    then show ?thesis
      using Index_skip [of 13 requestLine "crlf @ field @ t" "[10, 13, 10]"] assms(1)
      by (cases "Index t headerEnd") (simp_all add: headerEnd_def)
  qed
  have "Index [13, 10, 13] headerEnd = None" by (simp add: headerEnd_def)
  then have "Index (?head @ [13, 10, 13]) headerEnd = None"
    by (simp only: split option.map)
  then have "CheckRequest (?head @ [13, 10, 13]) = rejected ErrRange"
    using assms(5) by (simp add: CheckRequest_def MaxHeaderSize_def)
  moreover have "headerBlock ?head (-1, False)"
  proof -
    have "Index ?head crlf = Some (length requestLine)" using assms(1) by (rule Index_crlf)
    moreover have "header_lines field = [field]"
      using assms(2,3) by (intro header_lines_last) (simp_all add: crlf_def Index_absent)
    moreover have "Index (?head @ headerEnd) headerEnd = Some (length ?head)"
      by (simp only: split Index_here [of headerEnd headerEnd, OF HasPrefix_append [of _ "[]", simplified]])
        simp
    ultimately show ?thesis
      using assms(4,6) by (simp add: headerBlock_def)
  qed
  from CheckRequest_headerBlock [OF this, of "[]"]
  have "Complete (CheckRequest (?head @ headerEnd))" by (simp add: Let_def)
  ultimately show ?thesis by (simp add: headerEnd_def)
qed

theorem check_request_limit_segmentation_witness:
  "CheckRequest (str ''G'' @ crlf @ replicate (Suc 8188) 65 @ [13, 10, 13]) = rejected ErrRange \<and>
   Complete (CheckRequest (str ''G'' @ crlf @ replicate (Suc 8188) 65 @ [13, 10, 13, 10]))"
proof -
  have no_name: "\<not> headerNamed (replicate (Suc k) 65) name"
    if "hd name = 67 \<or> hd name = 84" "length name = Suc m" for k m and name :: bytes
    using that by (cases name) (auto simp: headerNamed_def lower_def)
  have "\<not> headerNamed (replicate (Suc 8188) 65) headerCL"
    by (rule no_name [of _ 14]) (simp_all add: headerCL_def str_def)
  moreover have "\<not> headerNamed (replicate (Suc 8188) 65) headerTE"
    by (rule no_name [of _ 17]) (simp_all add: headerTE_def str_def)
  ultimately have "scanHeaders [replicate (Suc 8188) 65] (-1) False = Inr (-1, False)"
    by (simp del: replicate_Suc)
  then show ?thesis
    using check_request_limit_segmentation [of "str ''G''" "replicate (Suc 8188) 65"]
    by (simp add: str_def MaxHeaderSize_def del: replicate_Suc)
qed

end
