(* ===== verification/Response_Writer.thy ===== *)
theory Response_Writer
  imports Http_Parser "HOL-Library.List_Lexorder"
begin

text \<open>
  The response writer of \<open>src/pkg/adaptor/adaptor.go\<close> on top of a \<open>bufio.Writer\<close> and an
  \<open>http.Header\<close>, with the pool that recycles the writers.

  What the code takes from its surroundings is the parameter \<open>http_env\<close>: the cached date, the
  content sniffer \<open>http.DetectContentType\<close>, what each call to the buffered writer comes to,
  and whether the connection can read from a reader by itself.
\<close>

section \<open>Headers\<close>

text \<open>
  \<open>http.Header\<close>: values under canonical keys.  \<open>Get\<close> returns the first value or the empty string,
  \<open>Set\<close> replaces all values.
\<close>

type_synonym header = "(bytes \<times> bytes list) list"

definition header_get :: "header \<Rightarrow> bytes \<Rightarrow> bytes" where
  "header_get h k = (case map_of h k of Some (v # vs) \<Rightarrow> v | _ \<Rightarrow> [])"

definition header_set :: "header \<Rightarrow> bytes \<Rightarrow> bytes \<Rightarrow> header" where
  "header_set h k v = (k, [v]) # filter (\<lambda>(k', vs). k' \<noteq> k) h"

text \<open>
  \<open>Header.Write\<close>: the keys in order, a line for each value; invalid field names are left out, line
  breaks in values become blanks and blanks around a value are cut.
\<close>

definition token_byte :: "byte \<Rightarrow> bool" where
  "token_byte c \<longleftrightarrow>
     48 \<le> c \<and> c \<le> 57 \<or> 65 \<le> c \<and> c \<le> 90 \<or> 97 \<le> c \<and> c \<le> 122 \<or>
     c \<in> set (str ''!#$%&*+-.^_`|~'') \<or> c = 39"

definition valid_name :: "bytes \<Rightarrow> bool" where
  "valid_name k \<longleftrightarrow> k \<noteq> [] \<and> list_all token_byte k"

definition ascii_space :: "byte \<Rightarrow> bool" where
  "ascii_space c \<longleftrightarrow> c = 32 \<or> c = 9 \<or> c = 10 \<or> c = 13"

definition trim_string :: "bytes \<Rightarrow> bytes" where
  "trim_string v = rev (dropWhile ascii_space (rev (dropWhile ascii_space v)))"

definition header_value :: "bytes \<Rightarrow> bytes" where
  "header_value v = trim_string (map (\<lambda>c. if c = 10 \<or> c = 13 then 32 else c) v)"

text \<open>The pieces handed to the writer one by one.\<close>

definition header_pieces :: "header \<Rightarrow> bytes list" where
  "header_pieces h =
     concat (map (\<lambda>(k, vs). if valid_name k then concat (map (\<lambda>v. [k, str '': '', header_value v, crlf]) vs) else [])
       (sort_key fst h))"

section \<open>The buffered writer\<close>

text \<open>
  \<open>bufio.Writer\<close>: the bytes it has accepted, in order, how many of them are known to be on the
  connection, and the error that, once there is one, every later call returns.
\<close>

record sink =
  accepted :: bytes
  flushed :: nat
  sticky :: "go_error option"
  calls :: nat

text \<open>
  The outcome of the \<open>n\<close>-th call to a sink: \<open>None\<close> is success, otherwise the call fails after some
  bytes.  \<open>copyFrom\<close> is the connection's own \<open>ReadFrom\<close> if it has one: the bytes it sends, the number
  it reports and its error for the results of the reader.
\<close>

type_synonym reads = "(bytes \<times> go_error option) list"

record http_env =
  date :: bytes
  detect :: "bytes \<Rightarrow> bytes"
  dev :: "nat \<Rightarrow> (nat \<times> go_error) option"
  copyFrom :: "(reads \<Rightarrow> bytes \<times> int \<times> go_error option) option"

definition sink_write :: "http_env \<Rightarrow> bytes \<Rightarrow> sink \<Rightarrow> (nat \<times> go_error option) \<times> sink" where
  "sink_write env p s =
     (let s' = s\<lparr>calls := Suc (calls s)\<rparr> in
      case sticky s of
        Some e \<Rightarrow> ((0, Some e), s')
      | None \<Rightarrow>
          (case dev env (calls s) of
             None \<Rightarrow> ((length p, None), s'\<lparr>accepted := accepted s @ p\<rparr>)
           | Some (n, e) \<Rightarrow>
               ((min n (length p), Some e), s'\<lparr>accepted := accepted s @ take n p, sticky := Some e\<rparr>)))"

definition sink_flush :: "http_env \<Rightarrow> sink \<Rightarrow> go_error option \<times> sink" where
  "sink_flush env s =
     (let s' = s\<lparr>calls := Suc (calls s)\<rparr> in
      case sticky s of
        Some e \<Rightarrow> (Some e, s')
      | None \<Rightarrow>
          (case dev env (calls s) of
             None \<Rightarrow> (None, s'\<lparr>flushed := length (accepted s)\<rparr>)
           | Some (n, e) \<Rightarrow> (Some e, s'\<lparr>sticky := Some e\<rparr>)))"

text \<open>Writes in sequence, up to the first error.\<close>

fun write_all :: "http_env \<Rightarrow> bytes list \<Rightarrow> sink \<Rightarrow> go_error option \<times> sink" where
  "write_all env [] s = (None, s)"
| "write_all env (p # ps) s =
     (case sink_write env p s of
        ((n, Some e), s) \<Rightarrow> (Some e, s)
      | ((n, None), s) \<Rightarrow> write_all env ps s)"

section \<open>ResponseWriter\<close>

text \<open>
  The fields of the writer; of the pointers \<open>ctx\<close> and \<open>bufWriter\<close> it is kept whether they are set,
  since a call through a nil pointer panics.
\<close>

record ResponseWriter =
  ctx_set :: bool
  header :: header
  trailer :: header
  statusCode :: int
  hijacked :: bool
  headerSent :: bool
  chunked :: bool
  bufWriter_set :: bool

definition StatusOK :: int where
  "StatusOK = 200"

definition StatusInternalServerError :: int where
  "StatusInternalServerError = 500"

text \<open>A writer as the pool's \<open>New\<close> makes it; \<open>Get\<close> takes one from the pool or makes one.\<close>

definition zero_writer :: ResponseWriter where
  "zero_writer = \<lparr>ctx_set = False, header = [], trailer = [], statusCode = 0, hijacked = False,
     headerSent = False, chunked = False, bufWriter_set = False\<rparr>"

definition NewResponseWriter :: "ResponseWriter list \<Rightarrow> ResponseWriter \<times> ResponseWriter list" where
  "NewResponseWriter rwPool =
     (let (w, rest) = (case rwPool of [] \<Rightarrow> (zero_writer, []) | w # ws \<Rightarrow> (w, ws)) in
      (w\<lparr>ctx_set := True, statusCode := StatusOK, hijacked := False, headerSent := False, chunked := False,
         bufWriter_set := True\<rparr>, rest))"

definition RW_Release :: "ResponseWriter \<Rightarrow> ResponseWriter list \<Rightarrow> ResponseWriter list" where
  "RW_Release w rwPool =
     w\<lparr>bufWriter_set := False, ctx_set := False, statusCode := 0, hijacked := False, headerSent := False,
       chunked := False, header := [], trailer := []\<rparr> # rwPool"

definition itoa :: "int \<Rightarrow> bytes" where
  "itoa i = (if i < 0 then str ''-'' @ append_radix 10 (nat (- i)) else append_radix 10 (nat i))"

text \<open>\<open>http.StatusText\<close>.\<close>

definition status_texts :: "(int \<times> string) list" where
  "status_texts =
     [(100, ''Continue''), (101, ''Switching Protocols''), (102, ''Processing''), (103, ''Early Hints''),
      (200, ''OK''), (201, ''Created''), (202, ''Accepted''), (203, ''Non-Authoritative Information''),
      (204, ''No Content''), (205, ''Reset Content''), (206, ''Partial Content''), (207, ''Multi-Status''),
      (208, ''Already Reported''), (226, ''IM Used''),
      (300, ''Multiple Choices''), (301, ''Moved Permanently''), (302, ''Found''), (303, ''See Other''),
      (304, ''Not Modified''), (305, ''Use Proxy''), (307, ''Temporary Redirect''), (308, ''Permanent Redirect''),
      (400, ''Bad Request''), (401, ''Unauthorized''), (402, ''Payment Required''), (403, ''Forbidden''),
      (404, ''Not Found''), (405, ''Method Not Allowed''), (406, ''Not Acceptable''),
      (407, ''Proxy Authentication Required''), (408, ''Request Timeout''), (409, ''Conflict''), (410, ''Gone''),
      (411, ''Length Required''), (412, ''Precondition Failed''), (413, ''Request Entity Too Large''),
      (414, ''Request URI Too Long''), (415, ''Unsupported Media Type''),
      (416, ''Requested Range Not Satisfiable''), (417, ''Expectation Failed''), (418, ''I'' @ [CHR 39] @ ''m a teapot''),
      (421, ''Misdirected Request''), (422, ''Unprocessable Entity''), (423, ''Locked''),
      (424, ''Failed Dependency''), (425, ''Too Early''), (426, ''Upgrade Required''),
      (428, ''Precondition Required''), (429, ''Too Many Requests''), (431, ''Request Header Fields Too Large''),
      (451, ''Unavailable For Legal Reasons''),
      (500, ''Internal Server Error''), (501, ''Not Implemented''), (502, ''Bad Gateway''),
      (503, ''Service Unavailable''), (504, ''Gateway Timeout''), (505, ''HTTP Version Not Supported''),
      (506, ''Variant Also Negotiates''), (507, ''Insufficient Storage''), (508, ''Loop Detected''),
      (510, ''Not Extended''), (511, ''Network Authentication Required'')]"

definition StatusText :: "int \<Rightarrow> bytes" where
  "StatusText code = (case map_of status_texts code of None \<Rightarrow> [] | Some t \<Rightarrow> str t)"

definition statusLine :: "int \<Rightarrow> bytes" where
  "statusLine code =
     (let statusText = (if StatusText code = [] then str ''status code '' @ itoa code else StatusText code) in
      str ''HTTP/1.1 '' @ itoa code @ str '' '' @ statusText @ crlf)"

abbreviation hContentLength :: bytes where "hContentLength \<equiv> str ''Content-Length''"
abbreviation hTransferEnc :: bytes where "hTransferEnc \<equiv> str ''Transfer-Encoding''"
abbreviation hContentType :: bytes where "hContentType \<equiv> str ''Content-Type''"
abbreviation hDate :: bytes where "hDate \<equiv> str ''Date''"

type_synonym 'a response = "('a \<times> ResponseWriter \<times> sink) outcome"

text \<open>What goes out before and after the choice of the transfer coding.\<close>

definition firstPieces :: "http_env \<Rightarrow> ResponseWriter \<Rightarrow> bytes list" where
  "firstPieces env w =
     statusLine (statusCode w) #
     (if header_get (header w) hDate = [] then [str ''Date: '', date env @ crlf] else [])"

definition usesChunks :: "ResponseWriter \<Rightarrow> bool" where
  "usesChunks w \<longleftrightarrow> header_get (header w) hContentLength = [] \<or> trailer w \<noteq> []"

definition otherPieces :: "ResponseWriter \<Rightarrow> bytes list" where
  "otherPieces w =
     header_pieces (header w) @
     (if usesChunks w \<and> header_get (header w) hTransferEnc = [] then
        [if trailer w \<noteq> [] then str ''Transfer-Encoding: chunked, trailers'' @ crlf
         else str ''Transfer-Encoding: chunked'' @ crlf]
      else []) @
     [crlf]"

definition ensureHeaderSent :: "http_env \<Rightarrow> ResponseWriter \<times> sink \<Rightarrow> (go_error option) response" where
  "ensureHeaderSent env = (\<lambda>(w, s).
     if headerSent w then Return (None, w, s)
     else if \<not> bufWriter_set w then Panic
     else
       case write_all env (firstPieces env w) s of
         (Some e, s) \<Rightarrow> Return (Some e, w, s)
       | (None, s) \<Rightarrow>
           let w = w\<lparr>chunked := usesChunks w\<rparr> in
           (case write_all env (otherPieces w) s of
              (Some e, s) \<Rightarrow> Return (Some e, w, s)
            | (None, s) \<Rightarrow> Return (None, w\<lparr>headerSent := True\<rparr>, s)))"

text \<open>A chunk: its size, a line break, the data and another line break.\<close>

definition writeChunkHeader :: "http_env \<Rightarrow> nat \<Rightarrow> sink \<Rightarrow> go_error option \<times> sink" where
  "writeChunkHeader env n s = write_all env [append_radix 16 n, crlf] s"

definition writeChunkTrailer :: "http_env \<Rightarrow> sink \<Rightarrow> go_error option \<times> sink" where
  "writeChunkTrailer env s = write_all env [crlf] s"

text \<open>The part of \<open>Write\<close> and \<open>WriteString\<close> after the header.\<close>

definition writeBody :: "http_env \<Rightarrow> bytes \<Rightarrow> ResponseWriter \<times> sink \<Rightarrow> (nat \<times> go_error option) response" where
  "writeBody env p = (\<lambda>(w, s).
     if \<not> bufWriter_set w then Panic
     else if chunked w then
       case writeChunkHeader env (length p) s of
         (Some e, s) \<Rightarrow> Return ((0, Some e), w, s)
       | (None, s) \<Rightarrow>
           (case sink_write env p s of
              ((n, Some e), s) \<Rightarrow> Return ((n, Some e), w, s)
            | ((n, None), s) \<Rightarrow>
                (case writeChunkTrailer env s of
                   (Some e, s) \<Rightarrow> Return ((n, Some e), w, s)
                 | (None, s) \<Rightarrow> Return ((n, None), w, s)))
     else case sink_write env p s of (r, s) \<Rightarrow> Return (r, w, s))"

definition sniffed :: "http_env \<Rightarrow> bytes \<Rightarrow> ResponseWriter \<Rightarrow> ResponseWriter" where
  "sniffed env p w =
     (if header_get (header w) hContentType = []
      then w\<lparr>header := header_set (header w) hContentType (detect env (take (min (length p) 512) p))\<rparr> else w)"

definition Write :: "http_env \<Rightarrow> bytes \<Rightarrow> ResponseWriter \<times> sink \<Rightarrow> (nat \<times> go_error option) response" where
  "Write env p = (\<lambda>(w, s).
     if hijacked w then Return ((0, Some ErrHijacked), w, s)
     else if p = [] then Return ((0, None), w, s)
     else if \<not> headerSent w then
       bind_outcome (ensureHeaderSent env (sniffed env p w, s)) (\<lambda>(err, w, s).
       case err of
         Some e \<Rightarrow> Return ((0, Some e), w, s)
       | None \<Rightarrow> writeBody env p (w, s))
     else writeBody env p (w, s))"

definition WriteString :: "http_env \<Rightarrow> bytes \<Rightarrow> ResponseWriter \<times> sink \<Rightarrow> (nat \<times> go_error option) response" where
  "WriteString env p = (\<lambda>(w, s).
     if hijacked w then Return ((0, Some ErrHijacked), w, s)
     else if length p = 0 then Return ((0, None), w, s)
     else
       bind_outcome
         (if \<not> headerSent w then
            let w = (if header_get (header w) hContentType = [] \<and> length p > 0
                     then w\<lparr>header := header_set (header w) hContentType (detect env (take (min (length p) 512) p))\<rparr>
                     else w)
            in ensureHeaderSent env (w, s)
          else Return (None, w, s))
         (\<lambda>(err, w, s).
            case err of
              Some e \<Rightarrow> Return ((0, Some e), w, s)
            | None \<Rightarrow> writeBody env p (w, s)))"

text \<open>
  The copy loop of \<open>ReadFrom\<close> over the results of the reader's calls.  A reader that has nothing
  more to say reports the end of file.
\<close>

fun copyLoop :: "http_env \<Rightarrow> bool \<Rightarrow> reads \<Rightarrow> int \<Rightarrow> sink \<Rightarrow> (int \<times> go_error option) \<times> sink" where
  "copyLoop env ch [] n s = ((n, None), s)"
| "copyLoop env ch ((data, er) # rs) n s =
     (let (ew, s) =
        (if data \<noteq> [] then
           write_all env (if ch then [append_radix 16 (length data), crlf, data, crlf] else [data]) s
         else (None, s)) in
      case ew of
        Some e \<Rightarrow> ((n, Some e), s)
      | None \<Rightarrow>
          let n = n + int (length data) in
          (case er of
             None \<Rightarrow> copyLoop env ch rs n s
           | Some e \<Rightarrow> ((n, if e = EOF then None else Some e), s)))"

definition ReadFrom :: "http_env \<Rightarrow> reads \<Rightarrow> ResponseWriter \<times> sink \<Rightarrow> (int \<times> go_error option) response" where
  "ReadFrom env rs = (\<lambda>(w, s).
     if hijacked w then Return ((0, Some ErrHijacked), w, s)
     else
       bind_outcome (if \<not> headerSent w then ensureHeaderSent env (w, s) else Return (None, w, s)) (\<lambda>(err, w, s).
       case err of
         Some e \<Rightarrow> Return ((0, Some e), w, s)
       | None \<Rightarrow>
           if \<not> chunked w then
             if \<not> bufWriter_set w then Panic
             else
               let (_, s) = sink_flush env s in
               if \<not> ctx_set w then Panic
               else
                 (case copyFrom env of
                    Some f \<Rightarrow>
                      let (sent, n, err) = f rs in
                      Return ((n, err), w, s\<lparr>accepted := accepted s @ sent, flushed := length (accepted s @ sent)\<rparr>)
                  | None \<Rightarrow> let (r, s) = copyLoop env False rs 0 s in Return (r, w, s))
           else if \<not> bufWriter_set w then Panic
           else let (r, s) = copyLoop env True rs 0 s in Return (r, w, s)))"

definition RW_WriteHeader :: "int \<Rightarrow> ResponseWriter \<Rightarrow> ResponseWriter" where
  "RW_WriteHeader code w = (if hijacked w \<or> headerSent w then w else w\<lparr>statusCode := code\<rparr>)"

definition Flush :: "http_env \<Rightarrow> ResponseWriter \<times> sink \<Rightarrow> unit response" where
  "Flush env = (\<lambda>(w, s).
     if hijacked w then Return ((), w, s)
     else
       bind_outcome (ensureHeaderSent env (w, s)) (\<lambda>(_, w, s).
       if \<not> bufWriter_set w then Panic
       else let (_, s) = sink_flush env s in Return ((), w, s)))"

text \<open>
  \<open>Hijack\<close>: what is buffered is flushed and the writer lets go of the buffered writer, which is part
  of the result together with the connection.
\<close>

definition Hijack :: "http_env \<Rightarrow> ResponseWriter \<times> sink \<Rightarrow> (go_error option) response" where
  "Hijack env = (\<lambda>(w, s).
     if hijacked w then Return (Some (Errorf ''already hijacked''), w, s)
     else if \<not> bufWriter_set w \<or> \<not> ctx_set w then Panic
     else let (_, s) = sink_flush env s in Return (None, w\<lparr>hijacked := True, bufWriter_set := False\<rparr>, s))"

definition EndResponse :: "http_env \<Rightarrow> ResponseWriter \<times> sink \<Rightarrow> (go_error option) response" where
  "EndResponse env = (\<lambda>(w, s).
     if hijacked w then Return (None, w, s)
     else
       bind_outcome
         (if \<not> headerSent w then ensureHeaderSent env (w\<lparr>header := header_set (header w) hContentLength (str ''0'')\<rparr>, s)
          else Return (None, w, s))
         (\<lambda>(err, w, s).
            case err of
              Some e \<Rightarrow> Return (Some e, w, s)
            | None \<Rightarrow>
                if \<not> bufWriter_set w then Panic
                else
                  case (if chunked w then
                          write_all env
                            (if trailer w \<noteq> [] then (str ''0'' @ crlf) # header_pieces (trailer w) @ [crlf]
                             else [str ''0'' @ headerEnd]) s
                        else (None, s)) of
                    (Some e, s) \<Rightarrow> Return (Some e, w, s)
                  | (None, s) \<Rightarrow> let (err, s) = sink_flush env s in Return (err, w, s)))"

section \<open>A handler's calls\<close>

text \<open>
  What an \<open>http.Handler\<close> can do with the writer: change the maps that \<open>Header()\<close> and \<open>Trailer()\<close>
  return and call its methods.
\<close>

datatype rw_op =
    SetHeader bytes bytes
  | SetTrailer bytes bytes
  | DoWriteHeader int
  | DoWrite bytes
  | DoWriteString bytes
  | DoReadFrom reads
  | DoFlush
  | DoHijack

definition forget :: "'a response \<Rightarrow> (ResponseWriter \<times> sink) outcome" where
  "forget r = bind_outcome r (\<lambda>(_, ws). Return ws)"

fun run_op :: "http_env \<Rightarrow> rw_op \<Rightarrow> ResponseWriter \<times> sink \<Rightarrow> (ResponseWriter \<times> sink) outcome" where
  "run_op env (SetHeader k v) (w, s) = Return (w\<lparr>header := header_set (header w) k v\<rparr>, s)"
| "run_op env (SetTrailer k v) (w, s) = Return (w\<lparr>trailer := header_set (trailer w) k v\<rparr>, s)"
| "run_op env (DoWriteHeader code) (w, s) = Return (RW_WriteHeader code w, s)"
| "run_op env (DoWrite p) ws = forget (Write env p ws)"
| "run_op env (DoWriteString p) ws = forget (WriteString env p ws)"
| "run_op env (DoReadFrom rs) ws = forget (ReadFrom env rs ws)"
| "run_op env DoFlush ws = forget (Flush env ws)"
| "run_op env DoHijack ws = forget (Hijack env ws)"

fun run_ops :: "http_env \<Rightarrow> rw_op list \<Rightarrow> ResponseWriter \<times> sink \<Rightarrow> (ResponseWriter \<times> sink) outcome" where
  "run_ops env [] ws = Return ws"
| "run_ops env (op # ops) ws = bind_outcome (run_op env op ws) (run_ops env ops)"

lemma WriteString_eq: "WriteString env p ws = Write env p ws"
  by (cases ws) (auto simp: WriteString_def Write_def sniffed_def Let_def)

section \<open>No panic\<close>

text \<open>A writer in use has its context, and its buffered writer until it is hijacked.\<close>

definition rw_inv :: "ResponseWriter \<Rightarrow> bool" where
  "rw_inv w \<longleftrightarrow> ctx_set w \<and> (hijacked w \<or> bufWriter_set w)"

text \<open>A call that returns, keeps the invariant and does not hijack.\<close>

definition returns :: "ResponseWriter \<Rightarrow> 'a response \<Rightarrow> bool" where
  "returns w r \<longleftrightarrow> (\<exists>x w' s'. r = Return (x, w', s') \<and> ctx_set w' = ctx_set w \<and>
     bufWriter_set w' = bufWriter_set w \<and> hijacked w' = hijacked w)"

lemma ensureHeaderSent_returns: "bufWriter_set w \<Longrightarrow> returns w (ensureHeaderSent env (w, s))"
  by (auto simp: returns_def ensureHeaderSent_def Let_def split: prod.split option.split)

lemma writeBody_returns: "bufWriter_set w \<Longrightarrow> returns w (writeBody env p (w, s))"
  by (auto simp: returns_def writeBody_def split: prod.split option.split)

lemma returns_bind:
  assumes "returns w r" "\<And>x w' s'. r = Return (x, w', s') \<Longrightarrow> ctx_set w' = ctx_set w \<Longrightarrow>
    bufWriter_set w' = bufWriter_set w \<Longrightarrow> hijacked w' = hijacked w \<Longrightarrow> returns w' (f (x, w', s'))"
  shows "returns w (bind_outcome r f)"
  using assms unfolding returns_def by fastforce

lemma returns_Return [simp]: "returns w (Return (x, w, s))"
  by (simp add: returns_def)

lemma returns_cong: "returns w' r \<Longrightarrow> ctx_set w' = ctx_set w \<Longrightarrow> bufWriter_set w' = bufWriter_set w \<Longrightarrow>
    hijacked w' = hijacked w \<Longrightarrow> returns w r"
  by (simp add: returns_def)

lemma Write_returns:
  assumes "rw_inv w"
  shows "returns w (Write env p (w, s))"
proof (cases "hijacked w \<or> p = []")
  case True
  then show ?thesis by (auto simp: Write_def)
next
  case False
  with assms have b: "bufWriter_set w" by (auto simp: rw_inv_def)
  let ?w = "sniffed env p w"
  have w: "ctx_set ?w = ctx_set w" "bufWriter_set ?w = bufWriter_set w" "hijacked ?w = hijacked w"
    by (simp_all add: sniffed_def)
  have "returns ?w (bind_outcome (ensureHeaderSent env (?w, s)) (\<lambda>(err, w, s).
       case err of Some e \<Rightarrow> Return ((0, Some e), w, s) | None \<Rightarrow> writeBody env p (w, s)))"
    using b w by (intro returns_bind ensureHeaderSent_returns) (auto split: option.split intro: writeBody_returns)
  then have "returns w (bind_outcome (ensureHeaderSent env (?w, s)) (\<lambda>(err, w, s).
       case err of Some e \<Rightarrow> Return ((0, Some e), w, s) | None \<Rightarrow> writeBody env p (w, s)))"
    by (rule returns_cong) (simp_all add: w)
  then show ?thesis using False b by (auto simp: Write_def intro: writeBody_returns)
qed

lemma ReadFrom_returns:
  assumes "rw_inv w"
  shows "returns w (ReadFrom env rs (w, s))"
proof (cases "hijacked w")
  case True
  then show ?thesis by (auto simp: ReadFrom_def)
next
  case False
  with assms have b: "bufWriter_set w" "ctx_set w" by (auto simp: rw_inv_def)
  have "returns w (if \<not> headerSent w then ensureHeaderSent env (w, s) else Return (None, w, s))"
    using b by (simp add: ensureHeaderSent_returns)
  then show ?thesis using False b
    by (auto simp: ReadFrom_def Let_def split: option.split prod.split intro!: returns_bind)
qed

lemma Flush_returns:
  assumes "rw_inv w"
  shows "returns w (Flush env (w, s))"
proof (cases "hijacked w")
  case True
  then show ?thesis by (auto simp: Flush_def)
next
  case False
  with assms have b: "bufWriter_set w" by (auto simp: rw_inv_def)
  then show ?thesis using False ensureHeaderSent_returns [OF b, of env s]
    by (auto simp: Flush_def Let_def split: prod.split intro!: returns_bind)
qed

lemma EndResponse_returns:
  assumes "rw_inv w"
  shows "returns w (EndResponse env (w, s))"
proof (cases "hijacked w")
  case True
  then show ?thesis by (auto simp: EndResponse_def)
next
  case False
  with assms have b: "bufWriter_set w" by (auto simp: rw_inv_def)
  let ?w = "w\<lparr>header := header_set (header w) hContentLength (str ''0'')\<rparr>"
  have "returns w (ensureHeaderSent env (?w, s))"
    by (rule returns_cong [OF ensureHeaderSent_returns [of ?w]]) (simp_all add: b)
  then have "returns w (if \<not> headerSent w then ensureHeaderSent env (?w, s) else Return (None, w, s))" by simp
  then show ?thesis using False b
    by (auto simp: EndResponse_def Let_def split: option.split prod.split intro!: returns_bind)
qed

lemma Hijack_returns:
  assumes "rw_inv w"
  shows "\<exists>x w' s'. Hijack env (w, s) = Return (x, w', s') \<and> rw_inv w' \<and> hijacked w'"
  using assms by (cases "hijacked w") (auto simp: Hijack_def rw_inv_def Let_def split: prod.split)

lemma forget_returns: "returns w r \<Longrightarrow> rw_inv w \<Longrightarrow> \<exists>w' s'. forget r = Return (w', s') \<and> rw_inv w'"
  by (auto simp: returns_def forget_def rw_inv_def)

lemma run_op_returns:
  assumes "rw_inv w"
  shows "\<exists>w' s'. run_op env op (w, s) = Return (w', s') \<and> rw_inv w'"
proof (cases op)
  case DoHijack
  with Hijack_returns [OF assms, of env s] show ?thesis by (auto simp: forget_def)
qed (use assms forget_returns [OF Write_returns [OF assms]] forget_returns [OF ReadFrom_returns [OF assms]]
      forget_returns [OF Flush_returns [OF assms]] in
    \<open>auto simp: WriteString_eq rw_inv_def RW_WriteHeader_def\<close>)

lemma run_ops_returns:
  "rw_inv w \<Longrightarrow> \<exists>w' s'. run_ops env ops (w, s) = Return (w', s') \<and> rw_inv w'"
proof (induction ops arbitrary: w s)
  case (Cons op ops)
  from run_op_returns [OF Cons.prems] obtain w' s' where "run_op env op (w, s) = Return (w', s')" "rw_inv w'"
    by blast
  with Cons.IH [of w' s'] show ?case by simp
qed simp

lemma NewResponseWriter_inv: "rw_inv (fst (NewResponseWriter pool))"
  by (auto simp: NewResponseWriter_def rw_inv_def split: list.split)

section \<open>What goes out\<close>

definition reliable :: "http_env \<Rightarrow> bool" where
  "reliable env \<longleftrightarrow> (\<forall>n. dev env n = None)"

text \<open>The sink has taken more bytes and still works.\<close>

definition took :: "sink \<Rightarrow> bytes \<Rightarrow> sink \<Rightarrow> bool" where
  "took s bs s' \<longleftrightarrow> accepted s' = accepted s @ bs \<and> sticky s' = None"

lemma took_trans: "took s a s' \<Longrightarrow> took s' b s'' \<Longrightarrow> took s (a @ b) s''"
  by (simp add: took_def)

lemma sink_write_reliable:
  assumes "reliable env" "sticky s = None"
  obtains s' where "sink_write env p s = ((length p, None), s')" "took s p s'"
  using assms by (auto simp: sink_write_def reliable_def took_def Let_def)

lemma write_all_reliable:
  assumes "reliable env"
  shows "sticky s = None \<Longrightarrow> \<exists>s'. write_all env ps s = (None, s') \<and> took s (concat ps) s'"
proof (induction ps arbitrary: s)
  case Nil
  then show ?case by (simp add: took_def)
next
  case (Cons p ps)
  obtain s1 where "sink_write env p s = ((length p, None), s1)" "took s p s1"
    using sink_write_reliable [OF assms Cons.prems] by blast
  with Cons.IH [of s1] show ?case by (auto simp: took_def)
qed

lemma sink_flush_reliable:
  assumes "reliable env" "sticky s = None"
  obtains s' where "sink_flush env s = (None, s')" "took s [] s'" "flushed s' = length (accepted s)"
  using assms by (auto simp: sink_flush_def reliable_def took_def Let_def)

text \<open>The header block of a writer, and a body in the coding it has chosen.\<close>

definition headBytes :: "http_env \<Rightarrow> ResponseWriter \<Rightarrow> bytes" where
  "headBytes env w = concat (firstPieces env w) @ concat (otherPieces w)"

definition encodeBody :: "bool \<Rightarrow> bytes list \<Rightarrow> bytes" where
  "encodeBody ch ps = (if ch then concat (map encodeChunk ps) else concat ps)"

lemma encodeBody_append: "encodeBody ch (ps @ qs) = encodeBody ch ps @ encodeBody ch qs"
  by (simp add: encodeBody_def)

lemma encodeBody_Nil [simp]: "encodeBody ch [] = []"
  by (simp add: encodeBody_def)

lemma ensureHeaderSent_reliable:
  assumes "reliable env" "sticky s = None" "bufWriter_set w" "\<not> headerSent w"
  obtains s' where "ensureHeaderSent env (w, s) = Return (None, w\<lparr>chunked := usesChunks w, headerSent := True\<rparr>, s')"
    "took s (headBytes env w) s'"
proof -
  obtain s1 where s1: "write_all env (firstPieces env w) s = (None, s1)" "took s (concat (firstPieces env w)) s1"
    using write_all_reliable [OF assms(1,2)] by blast
  have eq: "otherPieces (w\<lparr>chunked := usesChunks w\<rparr>) = otherPieces w" by (simp add: otherPieces_def usesChunks_def)
  have "sticky s1 = None" using s1(2) by (simp add: took_def)
  from write_all_reliable [OF assms(1) this, of "otherPieces w"]
  obtain s2 where s2: "write_all env (otherPieces w) s1 = (None, s2)" "took s1 (concat (otherPieces w)) s2" by blast
  have "ensureHeaderSent env (w, s) = Return (None, w\<lparr>chunked := usesChunks w, headerSent := True\<rparr>, s2)"
    using assms(3,4) s1(1) s2(1) eq by (simp add: ensureHeaderSent_def Let_def)
  with took_trans [OF s1(2) s2(2)] show thesis by (intro that) (simp_all add: headBytes_def)
qed

lemma writeBody_reliable:
  assumes "reliable env" "sticky s = None" "bufWriter_set w"
  obtains s' where "writeBody env p (w, s) = Return ((length p, None), w, s')" "took s (encodeBody (chunked w) [p]) s'"
proof (cases "chunked w")
  case False
  obtain s' where "sink_write env p s = ((length p, None), s')" "took s p s'"
    using assms(1,2) by (rule sink_write_reliable)
  with False assms(3) show thesis by (intro that [of s']) (simp_all add: writeBody_def encodeBody_def)
next
  case True
  obtain s1 where s1: "writeChunkHeader env (length p) s = (None, s1)" "took s (append_radix 16 (length p) @ crlf) s1"
    using write_all_reliable [OF assms(1,2), of "[append_radix 16 (length p), crlf]"]
    by (auto simp: writeChunkHeader_def)
  obtain s2 where s2: "sink_write env p s1 = ((length p, None), s2)" "took s1 p s2"
    using sink_write_reliable [OF assms(1), of s1 p] s1(2) by (auto simp: took_def)
  obtain s3 where s3: "writeChunkTrailer env s2 = (None, s3)" "took s2 crlf s3"
    using write_all_reliable [OF assms(1), of s2 "[crlf]"] s2(2) by (auto simp: took_def writeChunkTrailer_def)
  from took_trans [OF took_trans [OF s1(2) s2(2)] s3(2)] True assms(3) s1(1) s2(1) s3(1) show thesis
    by (intro that [of s3]) (simp_all add: writeBody_def encodeBody_def encodeChunk_def)
qed

text \<open>The data of a reader up to its first error.\<close>

fun copied :: "reads \<Rightarrow> bytes list" where
  "copied [] = []"
| "copied ((data, er) # rs) = (if data \<noteq> [] then [data] else []) @ (if er = None then copied rs else [])"

lemma copyLoop_reliable:
  assumes "reliable env"
  shows "sticky s = None \<Longrightarrow> \<exists>r s'. copyLoop env ch rs n s = (r, s') \<and> took s (encodeBody ch (copied rs)) s'"
proof (induction rs arbitrary: n s)
  case Nil
  then show ?case by (simp add: took_def)
next
  case (Cons r rs)
  obtain data er where r: "r = (data, er)" by (cases r)
  let ?ps = "if ch then [append_radix 16 (length data), crlf, data, crlf] else [data]"
  have enc: "concat ?ps = encodeBody ch [data]" by (simp add: encodeBody_def encodeChunk_def)
  obtain s1 where s1: "(if data \<noteq> [] then write_all env ?ps s else (None, s)) = (None, s1)"
    "took s (encodeBody ch (if data \<noteq> [] then [data] else [])) s1"
  proof (cases "data = []")
    case True
    with Cons.prems show thesis by (intro that [of s]) (simp_all add: took_def)
  next
    case False
    with write_all_reliable [OF assms Cons.prems, of ?ps] enc show thesis by (auto intro: that)
  qed
  have "sticky s1 = None" using s1(2) by (simp add: took_def)
  from Cons.IH [OF this, of "n + int (length data)"] obtain q s2 where
    s2: "copyLoop env ch rs (n + int (length data)) s1 = (q, s2)" "took s1 (encodeBody ch (copied rs)) s2" by blast
  have "copyLoop env ch (r # rs) n s =
      (case er of None \<Rightarrow> copyLoop env ch rs (n + int (length data)) s1
        | Some e \<Rightarrow> ((n + int (length data), if e = EOF then None else Some e), s1))"
    unfolding r copyLoop.simps s1(1) by (simp add: Let_def)
  moreover have "took s (encodeBody ch (copied (r # rs))) (if er = None then s2 else s1)"
    using s1(2) took_trans [OF s1(2) s2(2)] by (simp add: r encodeBody_append)
  ultimately show ?case using s2(1) by (cases er) simp_all
qed

text \<open>The pieces of the body that a call writes, and whether it makes the header go out.\<close>

fun bodyPieces :: "rw_op \<Rightarrow> bytes list" where
  "bodyPieces (DoWrite p) = (if p = [] then [] else [p])"
| "bodyPieces (DoWriteString p) = (if p = [] then [] else [p])"
| "bodyPieces (DoReadFrom rs) = copied rs"
| "bodyPieces op = []"

fun sends :: "rw_op \<Rightarrow> bool" where
  "sends (DoWrite p) = (p \<noteq> [])"
| "sends (DoWriteString p) = (p \<noteq> [])"
| "sends (DoReadFrom rs) = True"
| "sends DoFlush = True"
| "sends op = False"

text \<open>The writer as the call leaves it, apart from the marks of a header that has gone out.\<close>

fun prepared :: "http_env \<Rightarrow> rw_op \<Rightarrow> ResponseWriter \<Rightarrow> ResponseWriter" where
  "prepared env (SetHeader k v) w = w\<lparr>header := header_set (header w) k v\<rparr>"
| "prepared env (SetTrailer k v) w = w\<lparr>trailer := header_set (trailer w) k v\<rparr>"
| "prepared env (DoWriteHeader code) w = RW_WriteHeader code w"
| "prepared env (DoWrite p) w = (if p = [] \<or> headerSent w then w else sniffed env p w)"
| "prepared env (DoWriteString p) w = (if p = [] \<or> headerSent w then w else sniffed env p w)"
| "prepared env op w = w"

definition opened :: "ResponseWriter \<Rightarrow> ResponseWriter" where
  "opened w = w\<lparr>chunked := usesChunks w, headerSent := True\<rparr>"

lemma prepared_fields:
  "bufWriter_set (prepared env op w) = bufWriter_set w" "hijacked (prepared env op w) = hijacked w"
  "headerSent (prepared env op w) = headerSent w" "chunked (prepared env op w) = chunked w"
  "ctx_set (prepared env op w) = ctx_set w"
  by (cases op; simp add: RW_WriteHeader_def sniffed_def)+

lemma Write_reliable:
  assumes "reliable env" "sticky s = None" "bufWriter_set w" "\<not> hijacked w" "p \<noteq> []"
  shows "\<exists>s'. Write env p (w, s) =
      Return ((length p, None), if headerSent w then w else opened (sniffed env p w), s') \<and>
    took s (if headerSent w then encodeBody (chunked w) [p]
            else headBytes env (sniffed env p w) @ encodeBody (usesChunks (sniffed env p w)) [p]) s'"
proof (cases "headerSent w")
  case True
  then show ?thesis
    using assms writeBody_reliable [OF assms(1-3), of p] by (auto simp: Write_def)
next
  case False
  let ?w = "sniffed env p w"
  have w: "bufWriter_set ?w" "\<not> headerSent ?w" using assms(3) False by (simp_all add: sniffed_def)
  obtain s1 where s1: "ensureHeaderSent env (?w, s) = Return (None, opened ?w, s1)" "took s (headBytes env ?w) s1"
    using ensureHeaderSent_reliable [OF assms(1,2) w] by (auto simp: opened_def)
  have "sticky s1 = None" "bufWriter_set (opened ?w)" "chunked (opened ?w) = usesChunks ?w"
    using s1(2) w(1) by (simp_all add: took_def opened_def)
  then obtain s2 where s2: "writeBody env p (opened ?w, s1) = Return ((length p, None), opened ?w, s2)"
    "took s1 (encodeBody (usesChunks ?w) [p]) s2"
    using writeBody_reliable [OF assms(1), of s1 "opened ?w" p] by auto
  from took_trans [OF s1(2) s2(2)] False assms(4,5) s1(1) s2(1) show ?thesis by (simp add: Write_def)
qed

text \<open>One call on a connection that works: the header block if it is due, and the pieces of the body.\<close>

lemma run_op_reliable:
  fixes env op w
  defines "w1 \<equiv> prepared env op w"
  assumes env: "reliable env" "copyFrom env = None" and s: "sticky s = None"
    and w: "rw_inv w" "\<not> hijacked w" and op: "op \<noteq> DoHijack"
  shows "\<exists>w' s'. run_op env op (w, s) = Return (w', s') \<and>
    w' = (if sends op \<and> \<not> headerSent w then opened w1 else w1) \<and>
    took s (if headerSent w then encodeBody (chunked w) (bodyPieces op)
            else if sends op then headBytes env w1 @ encodeBody (usesChunks w1) (bodyPieces op) else []) s'"
proof -
  have b: "bufWriter_set w" "ctx_set w" using w by (auto simp: rw_inv_def)
  have one: "\<exists>w' s'. forget (Write env p (w, s)) = Return (w', s') \<and>
      w' = (if p \<noteq> [] \<and> \<not> headerSent w then opened (if p = [] \<or> headerSent w then w else sniffed env p w)
            else if p = [] \<or> headerSent w then w else sniffed env p w) \<and>
      took s (if headerSent w then encodeBody (chunked w) (if p = [] then [] else [p])
            else if p \<noteq> [] then headBytes env (sniffed env p w) @ encodeBody (usesChunks (sniffed env p w)) [p] else []) s'" for p
  proof (cases "p = []")
    case True
    then show ?thesis using w(2) s by (simp add: Write_def forget_def took_def)
  next
    case False
    with Write_reliable [OF env(1) s b(1) w(2) False] show ?thesis by (auto simp: forget_def)
  qed
  have open_first: "\<exists>s'. (if \<not> headerSent w then ensureHeaderSent env (w, s) else Return (None, w, s)) =
      Return (None, if headerSent w then w else opened w, s') \<and> took s (if headerSent w then [] else headBytes env w) s'"
  proof (cases "headerSent w")
    case False
    with ensureHeaderSent_reliable [OF env(1) s b(1)] show ?thesis by (auto simp: opened_def)
  qed (use s in \<open>simp add: took_def\<close>)
  show ?thesis
  proof (cases op)
    case (DoWrite p)
    with one [of p] show ?thesis by (cases "p = []"; cases "headerSent w") (auto simp: w1_def)
  next
    case (DoWriteString p)
    with one [of p] show ?thesis by (cases "p = []"; cases "headerSent w") (auto simp: w1_def WriteString_eq)
  next
    case (DoReadFrom rs)
    let ?w = "if headerSent w then w else opened w"
    obtain s1 where s1: "(if \<not> headerSent w then ensureHeaderSent env (w, s) else Return (None, w, s)) = Return (None, ?w, s1)"
      "took s (if headerSent w then [] else headBytes env w) s1" using open_first by blast
    have wf: "bufWriter_set ?w" "ctx_set ?w" using b by (simp_all add: opened_def)
    obtain s2 where s2: "(if chunked ?w then s1 else snd (sink_flush env s1)) = s2" "took s1 [] s2"
    proof (cases "chunked ?w")
      case False
      obtain s3 where "sink_flush env s1 = (None, s3)" "took s1 [] s3"
        using sink_flush_reliable [OF env(1), of s1] s1(2) by (auto simp: took_def)
      with False show thesis by (intro that [of s3]) simp_all
    qed (use s1(2) that in \<open>simp add: took_def\<close>)
    obtain r s3 where s3: "copyLoop env (chunked ?w) rs 0 s2 = (r, s3)" "took s2 (encodeBody (chunked ?w) (copied rs)) s3"
      using copyLoop_reliable [OF env(1), of s2] s2(2) by (fastforce simp: took_def)
    have "ReadFrom env rs (w, s) = Return (r, ?w, s3)"
      unfolding ReadFrom_def prod.case if_not_P [OF w(2)] s1(1)
      using wf env(2) s2(1) s3(1) by (auto simp: Let_def split: prod.splits)
    moreover have "took s ((if headerSent w then [] else headBytes env w) @ encodeBody (chunked ?w) (copied rs)) s3"
      using took_trans [OF s1(2) took_trans [OF s2(2) s3(2)]] by simp
    ultimately show ?thesis using DoReadFrom by (auto simp: forget_def w1_def opened_def)
  next
    case DoFlush
    let ?w = "if headerSent w then w else opened w"
    obtain s1 where s1: "(if \<not> headerSent w then ensureHeaderSent env (w, s) else Return (None, w, s)) = Return (None, ?w, s1)"
      "took s (if headerSent w then [] else headBytes env w) s1" using open_first by blast
    then have e: "ensureHeaderSent env (w, s) = Return (None, ?w, s1)"
      by (cases "headerSent w") (simp_all add: ensureHeaderSent_def)
    obtain s2 where s2: "sink_flush env s1 = (None, s2)" "took s1 [] s2"
      using sink_flush_reliable [OF env(1), of s1] s1(2) by (auto simp: took_def)
    have "bufWriter_set ?w" using b by (simp add: opened_def)
    then have "Flush env (w, s) = Return ((), ?w, s2)" using w(2) e s2(1) by (simp add: Flush_def)
    moreover have "took s (if headerSent w then [] else headBytes env w) s2"
      using took_trans [OF s1(2) s2(2)] by simp
    ultimately show ?thesis using DoFlush by (auto simp: forget_def w1_def)
  qed (use op s in \<open>auto simp: w1_def took_def\<close>)
qed

text \<open>What ends a body.\<close>

definition bodyEnd :: "bool \<Rightarrow> header \<Rightarrow> bytes" where
  "bodyEnd ch t =
     (if \<not> ch then []
      else if t = [] then str ''0'' @ headerEnd
      else str ''0'' @ crlf @ concat (header_pieces t) @ crlf)"

definition finished :: "http_env \<Rightarrow> rw_op list \<Rightarrow> ResponseWriter \<times> sink \<Rightarrow> (go_error option) response" where
  "finished env ops ws = bind_outcome (run_ops env ops ws) (EndResponse env)"

lemma EndResponse_sent:
  assumes "reliable env" "sticky s = None" "bufWriter_set w" "\<not> hijacked w" "headerSent w"
  shows "\<exists>s'. EndResponse env (w, s) = Return (None, w, s') \<and> took s (bodyEnd (chunked w) (trailer w)) s' \<and>
    flushed s' = length (accepted s')"
proof -
  let ?ps = "if trailer w \<noteq> [] then (str ''0'' @ crlf) # header_pieces (trailer w) @ [crlf] else [str ''0'' @ headerEnd]"
  obtain s1 where s1: "(if chunked w then write_all env ?ps s else (None, s)) = (None, s1)"
    "took s (bodyEnd (chunked w) (trailer w)) s1"
  proof (cases "chunked w")
    case True
    have "concat ?ps = bodyEnd (chunked w) (trailer w)" using True by (simp add: bodyEnd_def)
    with write_all_reliable [OF assms(1,2), of ?ps] True show thesis by (auto intro: that)
  next
    case False
    with assms(2) show thesis by (intro that [of s]) (simp_all add: bodyEnd_def took_def)
  qed
  obtain s2 where s2: "sink_flush env s1 = (None, s2)" "took s1 [] s2" "flushed s2 = length (accepted s1)"
    using sink_flush_reliable [OF assms(1), of s1] s1(2) by (auto simp: took_def)
  have "EndResponse env (w, s) = Return (None, w, s2)"
    using assms(3-5) s1(1) s2(1) by (simp add: EndResponse_def)
  moreover have "accepted s2 = accepted s1" using s2(2) by (simp add: took_def)
  ultimately show ?thesis using took_trans [OF s1(2) s2(2)] s2(3) by simp
qed

lemma EndResponse_unsent:
  fixes w
  defines "wh \<equiv> w\<lparr>header := header_set (header w) hContentLength (str ''0'')\<rparr>"
  assumes "reliable env" "sticky s = None" "bufWriter_set w" "\<not> hijacked w" "\<not> headerSent w"
  shows "\<exists>s'. EndResponse env (w, s) = Return (None, opened wh, s') \<and>
    took s (headBytes env wh @ bodyEnd (usesChunks wh) (trailer w)) s' \<and> flushed s' = length (accepted s')"
proof -
  obtain s1 where s1: "ensureHeaderSent env (wh, s) = Return (None, opened wh, s1)" "took s (headBytes env wh) s1"
    using ensureHeaderSent_reliable [OF assms(2,3), of wh] assms(4,6) by (auto simp: wh_def opened_def)
  have "sticky s1 = None" "bufWriter_set (opened wh)" "\<not> hijacked (opened wh)" "headerSent (opened wh)"
    "chunked (opened wh) = usesChunks wh" "trailer (opened wh) = trailer w"
    using assms(4,5) s1(2) by (simp_all add: opened_def wh_def took_def)
  then obtain s2 where s2: "EndResponse env (opened wh, s1) = Return (None, opened wh, s2)"
    "took s1 (bodyEnd (usesChunks wh) (trailer w)) s2" "flushed s2 = length (accepted s2)"
    using EndResponse_sent [OF assms(2), of s1 "opened wh"] by auto
  have "\<not> hijacked wh" using assms(5) by (simp add: wh_def)
  then have "EndResponse env (w, s) = EndResponse env (opened wh, s1)"
    using assms(5,6) s1(1) by (simp add: EndResponse_def wh_def [symmetric] opened_def)
  with s2 took_trans [OF s1(2) s2(2)] show ?thesis by auto
qed

text \<open>The writer at the moment its header goes out, and the trailer at the end.\<close>

fun headWriter :: "http_env \<Rightarrow> rw_op list \<Rightarrow> ResponseWriter \<Rightarrow> ResponseWriter" where
  "headWriter env [] w = w\<lparr>header := header_set (header w) hContentLength (str ''0'')\<rparr>"
| "headWriter env (op # ops) w =
     (if sends op then prepared env op w else headWriter env ops (prepared env op w))"

fun lastTrailer :: "rw_op list \<Rightarrow> header \<Rightarrow> header" where
  "lastTrailer [] t = t"
| "lastTrailer (SetTrailer k v # ops) t = lastTrailer ops (header_set t k v)"
| "lastTrailer (op # ops) t = lastTrailer ops t"

lemma lastTrailer_prepared: "lastTrailer (op # ops) (trailer w) = lastTrailer ops (trailer (prepared env op w))"
  by (cases op) (simp_all add: RW_WriteHeader_def sniffed_def)

lemma rw_inv_step: "rw_inv w \<Longrightarrow> rw_inv (prepared env op w)" "rw_inv w \<Longrightarrow> rw_inv (opened w)"
  by (simp_all add: rw_inv_def prepared_fields opened_def)

text \<open>The rest of the calls, and the rest of a response, after the header has gone out.\<close>

lemma run_ops_append: "run_ops env (xs @ ys) ws = bind_outcome (run_ops env xs ws) (run_ops env ys)"
proof (induction xs arbitrary: ws)
  case (Cons op xs)
  then have "run_ops env (xs @ ys) = (\<lambda>ws. bind_outcome (run_ops env xs ws) (run_ops env ys))" by auto
  then show ?case by (simp add: bind_outcome_assoc)
qed simp

lemma run_ops_sent:
  assumes env: "reliable env" "copyFrom env = None"
  shows "sticky s = None \<Longrightarrow> rw_inv w \<Longrightarrow> \<not> hijacked w \<Longrightarrow> headerSent w \<Longrightarrow> DoHijack \<notin> set ops \<Longrightarrow>
    \<exists>w' s'. run_ops env ops (w, s) = Return (w', s') \<and> rw_inv w' \<and> \<not> hijacked w' \<and> headerSent w' \<and>
      chunked w' = chunked w \<and> trailer w' = lastTrailer ops (trailer w) \<and>
      took s (encodeBody (chunked w) (concat (map bodyPieces ops))) s'"
proof (induction ops arbitrary: w s)
  case Nil
  then show ?case by (simp add: took_def)
next
  case (Cons op ops)
  let ?w = "prepared env op w"
  have op: "op \<noteq> DoHijack" using Cons.prems(5) by auto
  from run_op_reliable [OF env Cons.prems(1,2,3) op] Cons.prems(4) obtain s1 where
    s1: "run_op env op (w, s) = Return (?w, s1)" "took s (encodeBody (chunked w) (bodyPieces op)) s1" by auto
  have "sticky s1 = None" using s1(2) by (simp add: took_def)
  from Cons.IH [OF this rw_inv_step(1) [OF Cons.prems(2), of env op]] Cons.prems(3-5) obtain w' s' where
    s': "run_ops env ops (?w, s1) = Return (w', s')" "rw_inv w'" "\<not> hijacked w'" "headerSent w'" "chunked w' = chunked w"
    "trailer w' = lastTrailer ops (trailer ?w)" "took s1 (encodeBody (chunked w) (concat (map bodyPieces ops))) s'"
    by (auto simp: prepared_fields)
  with s1(1) took_trans [OF s1(2) s'(7)] show ?case
    by (simp add: encodeBody_append lastTrailer_prepared [of op ops w env])
qed

lemma finished_sent:
  assumes env: "reliable env" "copyFrom env = None"
    and w: "sticky s = None" "rw_inv w" "\<not> hijacked w" "headerSent w" "DoHijack \<notin> set ops"
  shows "\<exists>w' s'. finished env ops (w, s) = Return (None, w', s') \<and> flushed s' = length (accepted s') \<and>
      took s (encodeBody (chunked w) (concat (map bodyPieces ops)) @ bodyEnd (chunked w) (lastTrailer ops (trailer w))) s'"
proof -
  obtain w1 s1 where s1: "run_ops env ops (w, s) = Return (w1, s1)" "rw_inv w1" "\<not> hijacked w1" "headerSent w1"
    "chunked w1 = chunked w" "trailer w1 = lastTrailer ops (trailer w)"
    "took s (encodeBody (chunked w) (concat (map bodyPieces ops))) s1"
    using run_ops_sent [OF env w] by blast
  have "sticky s1 = None" "bufWriter_set w1" using s1(2,3,7) by (auto simp: took_def rw_inv_def)
  from EndResponse_sent [OF env(1) this s1(3,4)] obtain s' where
    s': "EndResponse env (w1, s1) = Return (None, w1, s')" "took s1 (bodyEnd (chunked w1) (trailer w1)) s'"
    "flushed s' = length (accepted s')" by blast
  with s1(1,5,6) took_trans [OF s1(7) s'(2)] show ?thesis by (simp add: finished_def)
qed

text \<open>The calls up to the first that sends the header, and those after it.\<close>

lemma run_ops_unsent:
  assumes env: "reliable env" "copyFrom env = None"
  shows "sticky s = None \<Longrightarrow> rw_inv w \<Longrightarrow> \<not> hijacked w \<Longrightarrow> \<not> headerSent w \<Longrightarrow> DoHijack \<notin> set ops \<Longrightarrow>
    list_ex sends ops \<Longrightarrow>
    \<exists>w' s'. run_ops env ops (w, s) = Return (w', s') \<and> rw_inv w' \<and> \<not> hijacked w' \<and> headerSent w' \<and>
      took s (headBytes env (headWriter env ops w) @
        encodeBody (usesChunks (headWriter env ops w)) (concat (map bodyPieces ops))) s'"
proof (induction ops arbitrary: w s)
  case (Cons op ops)
  let ?w = "prepared env op w"
  have op: "op \<noteq> DoHijack" using Cons.prems(5) by auto
  note inv = rw_inv_step(1) [OF Cons.prems(2), of env op]
  note step = run_op_reliable [OF env Cons.prems(1,2,3) op]
  show ?case
  proof (cases "sends op")
    case True
    with step Cons.prems(4) obtain s1 where s1: "run_op env op (w, s) = Return (opened ?w, s1)"
      "took s (headBytes env ?w @ encodeBody (usesChunks ?w) (bodyPieces op)) s1" by auto
    have "sticky s1 = None" using s1(2) by (simp add: took_def)
    from run_ops_sent [OF env this rw_inv_step(2) [OF inv], of ops] Cons.prems(3,5) obtain w' s' where
      s': "run_ops env ops (opened ?w, s1) = Return (w', s')" "rw_inv w'" "\<not> hijacked w'" "headerSent w'"
      "took s1 (encodeBody (usesChunks ?w) (concat (map bodyPieces ops))) s'"
      by (auto simp: opened_def prepared_fields)
    with s1(1) took_trans [OF s1(2) s'(5)] True show ?thesis by (simp add: encodeBody_append)
  next
    case False
    then have "bodyPieces op = []" by (cases op) auto
    from False step Cons.prems(4) obtain s1 where s1: "run_op env op (w, s) = Return (?w, s1)" "took s [] s1" by auto
    have "sticky s1 = None" using s1(2) by (simp add: took_def)
    from Cons.IH [OF this inv] Cons.prems(3-6) False obtain w' s' where
      s': "run_ops env ops (?w, s1) = Return (w', s')" "rw_inv w'" "\<not> hijacked w'" "headerSent w'"
      "took s1 (headBytes env (headWriter env ops ?w) @
        encodeBody (usesChunks (headWriter env ops ?w)) (concat (map bodyPieces ops))) s'"
      by (auto simp: prepared_fields)
    with s1(1) took_trans [OF s1(2) s'(5)] False \<open>bodyPieces op = []\<close> show ?thesis by simp
  qed
qed simp

lemma Flush_flushes:
  assumes "reliable env" "sticky s = None" "rw_inv w" "\<not> hijacked w" "headerSent w"
  shows "\<exists>s'. run_op env DoFlush (w, s) = Return (w, s') \<and> took s [] s' \<and> flushed s' = length (accepted s')"
proof -
  have "bufWriter_set w" using assms(3,4) by (simp add: rw_inv_def)
  moreover obtain s' where "sink_flush env s = (None, s')" "took s [] s'" "flushed s' = length (accepted s')"
    using sink_flush_reliable [OF assms(1,2)] by (auto simp: took_def)
  ultimately show ?thesis using assms(4,5) by (auto simp: Flush_def ensureHeaderSent_def forget_def)
qed

text \<open>A whole response.\<close>

lemma finished_reliable:
  assumes env: "reliable env" "copyFrom env = None"
  shows "sticky s = None \<Longrightarrow> rw_inv w \<Longrightarrow> \<not> hijacked w \<Longrightarrow> \<not> headerSent w \<Longrightarrow> DoHijack \<notin> set ops \<Longrightarrow>
    \<exists>w' s'. finished env ops (w, s) = Return (None, w', s') \<and> flushed s' = length (accepted s') \<and>
      took s (headBytes env (headWriter env ops w) @
        encodeBody (usesChunks (headWriter env ops w)) (concat (map bodyPieces ops)) @
        bodyEnd (usesChunks (headWriter env ops w)) (lastTrailer ops (trailer w))) s'"
proof (induction ops arbitrary: w s)
  case Nil
  then have "bufWriter_set w" by (auto simp: rw_inv_def)
  from EndResponse_unsent [OF env(1) Nil(1) this Nil(3,4)] show ?case by (auto simp: finished_def)
next
  case (Cons op ops)
  let ?w = "prepared env op w"
  have op: "op \<noteq> DoHijack" using Cons.prems(5) by auto
  note inv = rw_inv_step(1) [OF Cons.prems(2), of env op]
  note step = run_op_reliable [OF env Cons.prems(1,2,3) op]
  show ?case
  proof (cases "sends op")
    case True
    with step Cons.prems(4) obtain s1 where s1: "run_op env op (w, s) = Return (opened ?w, s1)"
      "took s (headBytes env ?w @ encodeBody (usesChunks ?w) (bodyPieces op)) s1" by auto
    have "sticky s1 = None" using s1(2) by (simp add: took_def)
    from finished_sent [OF env this rw_inv_step(2) [OF inv], of ops] Cons.prems(3,5) obtain w' s' where
      s': "finished env ops (opened ?w, s1) = Return (None, w', s')" "flushed s' = length (accepted s')"
      "took s1 (encodeBody (usesChunks ?w) (concat (map bodyPieces ops)) @ bodyEnd (usesChunks ?w) (lastTrailer ops (trailer ?w))) s'"
      by (auto simp: opened_def prepared_fields)
    have "finished env (op # ops) (w, s) = finished env ops (opened ?w, s1)" using s1(1) by (simp add: finished_def)
    with s' took_trans [OF s1(2) s'(3)] True show ?thesis
      by (simp add: encodeBody_append lastTrailer_prepared [of op ops w env])
  next
    case False
    then have "bodyPieces op = []" by (cases op) auto
    from False step Cons.prems(4) obtain s1 where s1: "run_op env op (w, s) = Return (?w, s1)" "took s [] s1" by auto
    have "sticky s1 = None" using s1(2) by (simp add: took_def)
    from Cons.IH [OF this inv] Cons.prems(3-5) obtain w' s' where
      s': "finished env ops (?w, s1) = Return (None, w', s')" "flushed s' = length (accepted s')"
      "took s1 (headBytes env (headWriter env ops ?w) @
        encodeBody (usesChunks (headWriter env ops ?w)) (concat (map bodyPieces ops)) @
        bodyEnd (usesChunks (headWriter env ops ?w)) (lastTrailer ops (trailer ?w))) s'"
      by (auto simp: prepared_fields)
    have "finished env (op # ops) (w, s) = finished env ops (?w, s1)" using s1(1) by (simp add: finished_def)
    with s' took_trans [OF s1(2) s'(3)] False \<open>bodyPieces op = []\<close> show ?thesis
      by (simp add: lastTrailer_prepared [of op ops w env])
  qed
qed

section \<open>Header blocks are well-formed\<close>

definition line_ok :: "bytes \<Rightarrow> bool" where
  "line_ok l \<longleftrightarrow> l \<noteq> [] \<and> 13 \<notin> set l \<and> 10 \<notin> set l"

definition lines_bytes :: "bytes list \<Rightarrow> bytes" where
  "lines_bytes ls = concat (map (\<lambda>l. l @ crlf) ls)"

lemma lines_bytes_append: "lines_bytes (ls @ ms) = lines_bytes ls @ lines_bytes ms"
  by (simp add: lines_bytes_def)

lemma lines_bytes_Cons: "lines_bytes (l # ls) = l @ crlf @ lines_bytes ls"
  by (simp add: lines_bytes_def)

text \<open>The first empty line of such a block is the one that ends it.\<close>

lemma Index_lines:
  "list_all line_ok ls \<Longrightarrow> ls \<noteq> [] \<Longrightarrow>
     Index (lines_bytes ls @ crlf @ rest) headerEnd = Some (length (lines_bytes ls) - 2)"
proof (induction ls)
  case Nil
  then show ?case by simp
next
  case (Cons l ls)
  let ?X = "lines_bytes ls @ crlf @ rest"
  have l: "13 \<notin> set l" "l \<noteq> []" using Cons.prems by (simp_all add: line_ok_def)
  have skip: "Index (lines_bytes (l # ls) @ crlf @ rest) headerEnd =
      map_option (\<lambda>k. length l + k) (Index (crlf @ ?X) headerEnd)"
    using Index_skip [OF l(1), of "crlf @ ?X" "[10, 13, 10]"] by (simp add: lines_bytes_Cons headerEnd_def)
  show ?case
  proof (cases ls)
    case Nil
    then have "Index (crlf @ ?X) headerEnd = Some 0"
      by (intro Index_here) (simp add: lines_bytes_def headerEnd_crlf HasPrefix_take)
    with skip Nil show ?thesis by (simp add: lines_bytes_def)
  next
    case (Cons l' ls')
    have l': "13 \<notin> set l'" "l' \<noteq> []" using Cons Cons.prems by (simp_all add: line_ok_def)
    then have "\<not> HasPrefix ?X crlf"
      using Cons by (cases l') (auto simp: lines_bytes_Cons crlf_def)
    from Index_headerEnd_line [OF this] skip Cons Cons.IH Cons.prems show ?thesis
      by (simp add: lines_bytes_Cons)
  qed
qed

lemma decimal_digits:
  assumes "c \<in> set (append_radix 10 n)"
  shows "printable c"
proof -
  have "\<forall>d \<in> set [0..<10]. printable (digit_char d)" by code_simp
  then have "printable (digit_char d)" if "d < 10" for d using that by (metis atLeastLessThan_iff set_upt zero_le)
  from append_radix_digits [of 10 printable, OF _ this assms] show ?thesis by simp
qed

lemma printable_no_break: "printable c \<Longrightarrow> c \<noteq> 13 \<and> c \<noteq> 10"
  by (auto simp: printable_def)

lemma itoa_no_break: "c \<in> set (itoa i) \<Longrightarrow> c \<noteq> 13 \<and> c \<noteq> 10"
  using decimal_digits printable_no_break by (fastforce simp: itoa_def str_def split: if_splits)

lemma StatusText_no_break: "c \<in> set (StatusText code) \<Longrightarrow> c \<noteq> 13 \<and> c \<noteq> 10"
proof -
  have "\<forall>(code, t) \<in> set status_texts. \<forall>c \<in> set (str t). c \<noteq> 13 \<and> c \<noteq> 10" by code_simp
  moreover assume c: "c \<in> set (StatusText code)"
  then obtain t where "map_of status_texts code = Some t" "c \<in> set (str t)"
    by (cases "map_of status_texts code") (simp_all add: StatusText_def)
  ultimately show ?thesis by (fast dest: map_of_SomeD)
qed

lemma statusLine_ok: "\<exists>l. statusLine code = l @ crlf \<and> line_ok l"
proof -
  define t where "t = (if StatusText code = [] then str ''status code '' @ itoa code else StatusText code)"
  have t: "c \<noteq> 13 \<and> c \<noteq> 10" if "c \<in> set t" for c
    using that itoa_no_break StatusText_no_break by (fastforce simp: t_def str_def split: if_splits)
  have "line_ok (str ''HTTP/1.1 '' @ itoa code @ str '' '' @ t)"
    using t itoa_no_break by (fastforce simp: line_ok_def str_def)
  then show ?thesis by (auto simp: statusLine_def Let_def t_def)
qed

lemma token_no_break: "token_byte c \<Longrightarrow> c \<noteq> 13 \<and> c \<noteq> 10"
proof -
  have "\<not> token_byte 13" "\<not> token_byte 10" by code_simp+
  then show "token_byte c \<Longrightarrow> c \<noteq> 13 \<and> c \<noteq> 10" by auto
qed

lemma header_value_no_break: "c \<in> set (header_value v) \<Longrightarrow> c \<noteq> 13 \<and> c \<noteq> 10"
proof -
  assume "c \<in> set (header_value v)"
  then have "c \<in> set (map (\<lambda>c. if c = 10 \<or> c = 13 then 32 else c) v)"
    unfolding header_value_def trim_string_def by (auto dest!: set_dropWhileD simp del: set_map)
  then show ?thesis by auto
qed

definition fieldLines :: "header \<Rightarrow> bytes list" where
  "fieldLines h = concat (map (\<lambda>(k, vs). if valid_name k then map (\<lambda>v. k @ str '': '' @ header_value v) vs else [])
     (sort_key fst h))"

lemma header_pieces_lines: "concat (header_pieces h) = lines_bytes (fieldLines h)"
proof -
  have one: "concat (concat (map (\<lambda>v. [k, str '': '', header_value v, crlf]) vs)) =
      lines_bytes (map (\<lambda>v. k @ str '': '' @ header_value v) vs)" for k vs
    by (induction vs) (simp_all add: lines_bytes_def)
  have "concat (concat (map (\<lambda>(k, vs). if valid_name k then concat (map (\<lambda>v. [k, str '': '', header_value v, crlf]) vs) else []) xs)) =
      lines_bytes (concat (map (\<lambda>(k, vs). if valid_name k then map (\<lambda>v. k @ str '': '' @ header_value v) vs else []) xs))"
    for xs :: header
    by (induction xs) (auto simp: one lines_bytes_append lines_bytes_def [of "[]"])
  then show ?thesis by (simp add: header_pieces_def fieldLines_def)
qed

lemma fieldLines_ok: "list_all line_ok (fieldLines h)"
proof -
  have "line_ok (k @ str '': '' @ header_value v)" if "valid_name k" for k v
    using that token_no_break header_value_no_break
    by (fastforce simp: line_ok_def valid_name_def list_all_iff str_def)
  then show ?thesis by (auto simp: fieldLines_def list_all_iff split: if_splits)
qed

definition headLines :: "http_env \<Rightarrow> ResponseWriter \<Rightarrow> bytes list" where
  "headLines env w =
     butlast (butlast (statusLine (statusCode w))) #
     (if header_get (header w) hDate = [] then [str ''Date: '' @ date env] else []) @
     fieldLines (header w) @
     (if usesChunks w \<and> header_get (header w) hTransferEnc = [] then
        [if trailer w \<noteq> [] then str ''Transfer-Encoding: chunked, trailers'' else str ''Transfer-Encoding: chunked'']
      else [])"

lemma headBytes_lines: "headBytes env w = lines_bytes (headLines env w) @ crlf"
proof -
  obtain l where l: "statusLine (statusCode w) = l @ crlf" using statusLine_ok by blast
  then have "butlast (butlast (statusLine (statusCode w))) = l" by (simp add: crlf_def butlast_append)
  then show ?thesis
    using l by (simp add: headBytes_def firstPieces_def otherPieces_def headLines_def lines_bytes_append
        lines_bytes_Cons header_pieces_lines lines_bytes_def [of "[]"])
qed

lemma headLines_ok:
  assumes "13 \<notin> set (date env)" "10 \<notin> set (date env)"
  shows "list_all line_ok (headLines env w)"
proof -
  obtain l where l: "statusLine (statusCode w) = l @ crlf" "line_ok l" using statusLine_ok by blast
  then have "butlast (butlast (statusLine (statusCode w))) = l" by (simp add: crlf_def butlast_append)
  then show ?thesis using l(2) assms fieldLines_ok [of "header w"]
    by (auto simp: headLines_def line_ok_def str_def)
qed

section \<open>Properties\<close>


text \<open>
  C8: a response is framed as its header says.  On a connection that works, after any calls of a
  handler that does not hijack, the bytes sent are exactly the header block, as the writer was
  when its first part of the body (or a flush, or the end of the response) came, then the
  parts of the body in order, each as one chunk or all of them as they are, then the end of
  the chunks with the trailer; and everything has been flushed.
\<close>

theorem response_framing:
  assumes "reliable env" "copyFrom env = None" "sticky s = None" "DoHijack \<notin> set ops"
    and "w = fst (NewResponseWriter rwPool)" "wh = headWriter env ops w"
  shows "\<exists>w' s'. finished env ops (w, s) = Return (None, w', s') \<and> flushed s' = length (accepted s') \<and>
    accepted s' = accepted s @ headBytes env wh @ encodeBody (usesChunks wh) (concat (map bodyPieces ops)) @
      bodyEnd (usesChunks wh) (lastTrailer ops (trailer w))"
proof -
  have "\<not> hijacked w" "\<not> headerSent w"
    unfolding assms(5) by (auto simp: NewResponseWriter_def split: list.split)
  with finished_reliable [OF assms(1-3) _ _ _ assms(4), of w] NewResponseWriter_inv assms(5,6) show ?thesis
    by (auto simp: took_def)
qed

text \<open>When a call of \<open>Flush\<close> returns, all that the handler has written up to then is on the connection.\<close>

lemma streaming_writer:
  assumes "reliable env" "copyFrom env = None" "sticky s = None" "rw_inv w" "\<not> hijacked w" "\<not> headerSent w"
    and "DoHijack \<notin> set ops" "list_ex sends ops" "wh = headWriter env ops w"
  shows "\<exists>w' s'. run_ops env (ops @ [DoFlush]) (w, s) = Return (w', s') \<and> flushed s' = length (accepted s') \<and>
    accepted s' = accepted s @ headBytes env wh @ encodeBody (usesChunks wh) (concat (map bodyPieces ops))"
proof -
  obtain w1 s1 where s1: "run_ops env ops (w, s) = Return (w1, s1)" "rw_inv w1" "\<not> hijacked w1" "headerSent w1"
    "took s (headBytes env wh @ encodeBody (usesChunks wh) (concat (map bodyPieces ops))) s1"
    using run_ops_unsent [OF assms(1-8)] assms(9) by blast
  have "sticky s1 = None" using s1(5) by (simp add: took_def)
  from Flush_flushes [OF assms(1) this s1(2-4)] obtain s' where
    "run_op env DoFlush (w1, s1) = Return (w1, s')" "took s1 [] s'" "flushed s' = length (accepted s')" by blast
  with s1(1,5) show ?thesis by (auto simp: run_ops_append took_def)
qed

text \<open>
  Streaming.  On a connection that works, when a call of \<open>Flush\<close> returns, the header block and all that the
  handler has written up to then, in the framing that the header announces, are on the connection.
\<close>

theorem response_streaming:
  assumes "reliable env" "copyFrom env = None" "sticky s = None" "DoHijack \<notin> set ops" "list_ex sends ops"
    and "w = fst (NewResponseWriter rwPool)" "wh = headWriter env ops w"
  shows "\<exists>w' s'. run_ops env (ops @ [DoFlush]) (w, s) = Return (w', s') \<and> flushed s' = length (accepted s') \<and>
    accepted s' = accepted s @ headBytes env wh @ encodeBody (usesChunks wh) (concat (map bodyPieces ops))"
proof -
  have "rw_inv w" "\<not> hijacked w" "\<not> headerSent w"
    unfolding assms(6) using NewResponseWriter_inv by (auto simp: NewResponseWriter_def split: list.split)
  from streaming_writer [OF assms(1-3) this assms(4,5,7)] show ?thesis .
qed

text \<open>
  No response splitting.  Whatever names and values a handler puts into the header, the header
  block that goes out is a sequence of lines that are not empty and hold no line break, and its
  first empty line is its end.
\<close>

theorem response_no_splitting:
  assumes "13 \<notin> set (date env)" "10 \<notin> set (date env)"
  shows "headBytes env w = lines_bytes (headLines env w) @ crlf \<and> list_all line_ok (headLines env w) \<and>
    Index (headBytes env w @ rest) headerEnd = Some (length (headBytes env w) - 4)"
proof -
  note ok = headLines_ok [OF assms, of w]
  have "headLines env w \<noteq> []" by (simp add: headLines_def)
  from Index_lines [OF ok this, of rest] ok show ?thesis by (simp add: headBytes_lines)
qed

text \<open>
  The package reads its own chunks.  The body of a chunked response without a trailer, as long
  as no part of it is longer than the parser's limit, is a body that the parser's chunk scan finds
  complete at exactly its last byte.
\<close>

theorem response_chunks_parse:
  assumes "\<forall>p \<in> set (concat (map bodyPieces ops)). int (length p) \<le> maxInt - 2"
  shows "chunkLoop 0 (encodeBody True (concat (map bodyPieces ops)) @ bodyEnd True [] @ rest) 0 =
    complete (int (length (encodeBody True (concat (map bodyPieces ops)) @ bodyEnd True [])))"
proof -
  have "p \<noteq> []" if "p \<in> set (copied rs)" for p rs
    using that by (induction rs rule: copied.induct) (auto split: if_splits)
  then have "p \<noteq> []" if "p \<in> set (bodyPieces op)" for p op
    using that by (cases op) (auto split: if_splits)
  with assms have "\<forall>p \<in> set (concat (map bodyPieces ops)). sendable p" by (fastforce simp: sendable_def)
  moreover have "encodeBody True ps @ bodyEnd True [] = encodeChunked ps" for ps
    by (simp add: encodeBody_def bodyEnd_def encodeChunked_def)
  ultimately show ?thesis
    using chunkLoop_encodeChunked [of 0 "encodeChunked (concat (map bodyPieces ops)) @ rest" "concat (map bodyPieces ops)" rest 0]
    by (metis add_0 append.assoc drop_0)
qed

lemma run_ops_hijacked:
  "hijacked w \<Longrightarrow> \<exists>w'. run_ops env ops (w, s) = Return (w', s) \<and> hijacked w'"
proof (induction ops arbitrary: w)
  case (Cons op ops)
  then have "\<exists>w'. run_op env op (w, s) = Return (w', s) \<and> hijacked w'"
    by (cases op) (auto simp: forget_def Write_def WriteString_def ReadFrom_def Flush_def Hijack_def RW_WriteHeader_def)
  with Cons.IH show ?case by fastforce
qed simp

text \<open>
  After \<open>Hijack\<close> the writer is inert: no later call of the handler, nor the end of the response,
  puts a byte into the buffered writer that now belongs to the caller.
\<close>

theorem hijacked_writer_inert:
  assumes "hijacked w"
  shows "\<exists>w'. finished env ops (w, s) = Return (None, w', s) \<and> hijacked w'"
  using run_ops_hijacked [OF assms, of env ops s] by (auto simp: finished_def EndResponse_def)

text \<open>
  A declared length and a trailer make a response with two framings: \<open>Content-Length\<close> stays in the
  header although the body is sent in chunks.
\<close>

theorem response_length_and_chunks:
  assumes "header_get (header w) hContentLength = v" "v \<noteq> []" "trailer w \<noteq> []"
    "header_get (header w) hTransferEnc = []"
  shows "hContentLength @ str '': '' @ header_value v \<in> set (headLines env w) \<and>
    str ''Transfer-Encoding: chunked, trailers'' \<in> set (headLines env w)"
proof -
  obtain vs where "map_of (header w) hContentLength = Some (v # vs)"
    using assms(1,2) by (auto simp: header_get_def split: option.splits list.splits)
  then have "(hContentLength, v # vs) \<in> set (sort_key fst (header w))" by (simp add: map_of_SomeD)
  moreover have "valid_name hContentLength" by code_simp
  ultimately have "hContentLength @ str '': '' @ header_value v \<in> set (fieldLines (header w))"
    by (force simp: fieldLines_def)
  moreover have "usesChunks w" using assms(3) by (simp add: usesChunks_def)
  ultimately show ?thesis using assms(3,4) by (simp add: headLines_def)
qed

section \<open>Witnesses\<close>

definition some_env :: http_env where
  "some_env = \<lparr>date = str ''D'', detect = (\<lambda>p. str ''text/plain''), dev = (\<lambda>_. None), copyFrom = None\<rparr>"

definition empty_sink :: sink where
  "empty_sink = \<lparr>accepted = [], flushed = 0, sticky = None, calls = 0\<rparr>"

theorem response_framing_witness:
  "\<exists>w' s'. finished some_env [DoWriteHeader 404, DoWrite (str ''no''), DoFlush, DoWriteString (str ''pe'')]
      (fst (NewResponseWriter []), empty_sink) = Return (None, w', s') \<and>
    accepted s' = str ''HTTP/1.1 404 Not Found'' @ crlf @ str ''Date: D'' @ crlf @ str ''Content-Type: text/plain'' @ crlf @
      str ''Transfer-Encoding: chunked'' @ crlf @ crlf @
      str ''2'' @ crlf @ str ''no'' @ crlf @ str ''2'' @ crlf @ str ''pe'' @ crlf @ str ''0'' @ headerEnd"
proof -
  let ?ops = "[DoWriteHeader 404, DoWrite (str ''no''), DoFlush, DoWriteString (str ''pe'')]"
  let ?w = "fst (NewResponseWriter [])"
  have "reliable some_env" "copyFrom some_env = None" "sticky empty_sink = None" "DoHijack \<notin> set ?ops"
    by (simp_all add: reliable_def some_env_def empty_sink_def)
  from response_framing [OF this refl refl, of "[]"] obtain w' s' where
    r: "finished some_env ?ops (?w, empty_sink) = Return (None, w', s')"
    "accepted s' = accepted empty_sink @ headBytes some_env (headWriter some_env ?ops ?w) @
      encodeBody (usesChunks (headWriter some_env ?ops ?w)) (concat (map bodyPieces ?ops)) @
      bodyEnd (usesChunks (headWriter some_env ?ops ?w)) (lastTrailer ?ops (trailer ?w))" by blast
  have "accepted empty_sink @ headBytes some_env (headWriter some_env ?ops ?w) @
      encodeBody (usesChunks (headWriter some_env ?ops ?w)) (concat (map bodyPieces ?ops)) @
      bodyEnd (usesChunks (headWriter some_env ?ops ?w)) (lastTrailer ?ops (trailer ?w)) =
    str ''HTTP/1.1 404 Not Found'' @ crlf @ str ''Date: D'' @ crlf @ str ''Content-Type: text/plain'' @ crlf @
      str ''Transfer-Encoding: chunked'' @ crlf @ crlf @
      str ''2'' @ crlf @ str ''no'' @ crlf @ str ''2'' @ crlf @ str ''pe'' @ crlf @ str ''0'' @ headerEnd"
    by code_simp
  with r show ?thesis by simp
qed

theorem response_streaming_witness:
  "\<exists>w' s'. run_ops some_env [DoWriteString (str ''a''), DoWrite (str ''bc''), DoFlush]
      (fst (NewResponseWriter []), empty_sink) = Return (w', s') \<and> flushed s' = length (accepted s')"
proof -
  let ?ops = "[DoWriteString (str ''a''), DoWrite (str ''bc'')]"
  have "reliable some_env" "copyFrom some_env = None" "sticky empty_sink = None" "DoHijack \<notin> set ?ops" "list_ex sends ?ops"
    by (simp_all add: reliable_def some_env_def empty_sink_def str_def)
  from response_streaming [OF this refl refl, of "[]"] show ?thesis by auto
qed

theorem response_no_splitting_witness:
  "Index (headBytes some_env (zero_writer\<lparr>header := [(str ''X'', [[13, 10, 13, 10]])]\<rparr>) @ [1]) headerEnd =
     Some (length (headBytes some_env (zero_writer\<lparr>header := [(str ''X'', [[13, 10, 13, 10]])]\<rparr>)) - 4)"
proof -
  have "13 \<notin> set (date some_env)" "10 \<notin> set (date some_env)" by (simp_all add: some_env_def str_def)
  from response_no_splitting [OF this] show ?thesis by blast
qed

theorem response_chunks_parse_witness:
  "chunkLoop 0 (encodeBody True (concat (map bodyPieces [DoWrite [1, 2], DoFlush])) @ bodyEnd True [] @ [7]) 0 =
    complete (int (length (encodeBody True (concat (map bodyPieces [DoWrite [1, 2], DoFlush])) @ bodyEnd True [])))"
  by (rule response_chunks_parse) (simp add: maxInt_def)

theorem hijacked_writer_inert_witness:
  "\<exists>w'. finished some_env [DoWrite [1], DoHijack, DoFlush] (zero_writer\<lparr>hijacked := True\<rparr>, empty_sink) =
      Return (None, w', empty_sink) \<and> hijacked w'"
  by (rule hijacked_writer_inert) simp

theorem response_length_and_chunks_witness:
  "str ''Transfer-Encoding: chunked, trailers'' \<in>
     set (headLines some_env (zero_writer\<lparr>header := [(hContentLength, [str ''5''])], trailer := [(str ''T'', [str ''t''])]\<rparr>))"
proof -
  let ?w = "zero_writer\<lparr>header := [(hContentLength, [str ''5''])], trailer := [(str ''T'', [str ''t''])]\<rparr>"
  have "header_get (header ?w) hContentLength = str ''5''" "str ''5'' \<noteq> []" "trailer ?w \<noteq> []"
    "header_get (header ?w) hTransferEnc = []"
    by (simp_all add: header_get_def str_def)
  from response_length_and_chunks [OF this] show ?thesis by blast
qed

end
