(* ===== verification/Ws_Handshake.thy ===== *)
theory Ws_Handshake
  imports Sha1_Base64 Response_Writer Ws_Conn
begin

text \<open>
  The opening handshake: \<open>Upgrade\<close> with its checks and options of \<open>src/pkg/websocket/websocket.go\<close>, and
  the functions of \<open>src/pkg/websocket/client.go\<close> that build the request of a client and check the
  response it gets.
\<close>

section \<open>Tokens and keys\<close>

text \<open>\<open>strings.Split\<close> with a separator of one byte.\<close>

fun Split :: "bytes \<Rightarrow> byte \<Rightarrow> bytes list" where
  "Split [] c = [[]]"
| "Split (x # xs) c =
     (if x = c then [] # Split xs c
      else case Split xs c of [] \<Rightarrow> [[x]] | p # ps \<Rightarrow> (x # p) # ps)"

definition headerHasToken :: "bytes \<Rightarrow> bytes \<Rightarrow> bool" where
  "headerHasToken v token \<longleftrightarrow> list_ex (\<lambda>part. EqualFold (TrimSpace part) token) (Split v 44)"

lemma IndexByte_bound: "IndexByte v c = Some i \<Longrightarrow> i < length v"
  using Index_bound [of v "[c]" i] by (simp add: IndexByte_def)

function headerHasTokenBytes :: "bytes \<Rightarrow> bytes \<Rightarrow> bool" where
  "headerHasTokenBytes v token =
     (if v = [] then False
      else
        let (part, v') = (case IndexByte v 44 of None \<Rightarrow> (v, []) | Some comma \<Rightarrow> (take comma v, drop (comma + 1) v)) in
        if EqualFold (TrimSpace part) token then True
        else headerHasTokenBytes v' token)"
  by pat_completeness auto
termination
  by (relation "measure (length \<circ> fst)") (auto split: option.splits dest!: IndexByte_bound)

declare headerHasTokenBytes.simps [simp del]

definition bytesEqualString :: "bytes \<Rightarrow> bytes \<Rightarrow> bool" where
  "bytesEqualString b s \<longleftrightarrow> length b = length s \<and> list_all (\<lambda>i. b ! i = s ! i) [0..<length b]"

definition magicGUID :: bytes where
  "magicGUID = str ''258EAFA5-E914-47DA-95CA-C5AB0DC85B11''"

definition computeAcceptKey :: "bytes \<Rightarrow> bytes" where
  "computeAcceptKey challenge = base64 (sha1 (challenge @ magicGUID))"

text \<open>\<open>copy(dst[off:], src)\<close>: the new content of \<open>dst\<close>.\<close>

definition copy_bytes :: "nat \<Rightarrow> bytes \<Rightarrow> bytes \<Rightarrow> bytes" where
  "copy_bytes off src dst = take off dst @ take (length dst - off) src @ drop (off + length src) dst"

definition acceptKeyMatches :: "bytes \<Rightarrow> bytes \<Rightarrow> bool" where
  "acceptKeyMatches v secKey =
     (if length v \<noteq> 28 then False
      else
        let totalLen = length secKey + length magicGUID in
        if totalLen > 128 then bytesEqualString v (computeAcceptKey secKey)
        else
          let keyBuf = copy_bytes 0 secKey (replicate 128 0);
              n = min (length secKey) 128;
              keyBuf = copy_bytes n magicGUID keyBuf;
              sum = sha1 (take totalLen keyBuf);
              encoded = copy_bytes 0 (base64 sum) (replicate 28 0) in
          v = encoded)"

section \<open>The response as the client checks it\<close>

abbreviation headerConnection :: bytes where "headerConnection \<equiv> str ''Connection''"
abbreviation headerUpgrade :: bytes where "headerUpgrade \<equiv> str ''Upgrade''"
abbreviation headerSecAccept :: bytes where "headerSecAccept \<equiv> str ''Sec-WebSocket-Accept''"
abbreviation valWebsocket :: bytes where "valWebsocket \<equiv> str ''websocket''"

record checks =
  connectionOK :: bool
  upgradeOK :: bool
  acceptKeyOK :: bool

definition checkLine :: "bytes \<Rightarrow> bytes \<Rightarrow> checks \<Rightarrow> checks" where
  "checkLine secKey line c =
     (if length line = 0 then c
      else
        case IndexByte line 58 of
          None \<Rightarrow> c
        | Some colon \<Rightarrow>
            let key = TrimSpace (take colon line); v = TrimSpace (drop (colon + 1) line) in
            if EqualFold key headerConnection then c\<lparr>connectionOK := connectionOK c \<or> headerHasTokenBytes v headerUpgrade\<rparr>
            else if EqualFold key headerUpgrade then c\<lparr>upgradeOK := upgradeOK c \<or> EqualFold v valWebsocket\<rparr>
            else if EqualFold key headerSecAccept then c\<lparr>acceptKeyOK := acceptKeyOK c \<or> acceptKeyMatches v secKey\<rparr>
            else c)"

definition validateHandshakeResponse :: "bytes \<Rightarrow> bytes \<Rightarrow> go_error option" where
  "validateHandshakeResponse block secKey =
     (let c = fold (checkLine secKey) (header_lines block)
                \<lparr>connectionOK = False, upgradeOK = False, acceptKeyOK = False\<rparr> in
      if \<not> connectionOK c then Some (Errorf ''handshake failed: missing upgrade connection token'')
      else if \<not> upgradeOK c then Some (Errorf ''handshake failed: invalid upgrade header'')
      else if \<not> acceptKeyOK c then Some (Errorf ''handshake failed: invalid accept key'')
      else None)"

section \<open>Lemmas on tokens and keys\<close>

lemma Split_absent: "IndexByte v c = None \<Longrightarrow> Split v c = [v]"
proof (induction v)
  case (Cons x xs)
  then show ?case by (cases "IndexByte xs c") (auto simp: IndexByte_def split: if_splits)
qed simp

lemma Split_at: "IndexByte v c = Some i \<Longrightarrow> Split v c = take i v # Split (drop (i + 1) v) c"
proof (induction v arbitrary: i)
  case (Cons x xs)
  show ?case
  proof (cases "x = c")
    case True
    with Cons.prems show ?thesis by (simp add: IndexByte_def)
  next
    case False
    with Cons.prems obtain j where "IndexByte xs c = Some j" "i = Suc j" by (auto simp: IndexByte_def)
    with Cons.IH False show ?thesis by simp
  qed
qed (simp add: IndexByte_def)

lemma TrimSpace_Nil [simp]: "TrimSpace [] = []"
  using length_TrimSpace [of "[]"] by simp

lemma headerHasTokenBytes_eq:
  assumes "token \<noteq> []"
  shows "headerHasTokenBytes v token = headerHasToken v token"
proof (induction v rule: measure_induct_rule [of length])
  case (less v)
  show ?case
  proof (cases "IndexByte v 44")
    case None
    have empty: "headerHasTokenBytes [] t = False" for t by (simp add: headerHasTokenBytes.simps)
    show ?thesis using None assms
      by (cases token) (simp_all add: headerHasTokenBytes.simps [of v] headerHasToken_def Split_absent empty)
  next
    case (Some i)
    then have "i < length v" by (rule IndexByte_bound)
    then have "length (drop (i + 1) v) < length v" by simp
    from less.IH [OF this] Some \<open>i < length v\<close> show ?thesis
      by (auto simp: headerHasTokenBytes.simps [of v] headerHasToken_def Split_at)
  qed
qed

lemma length_magicGUID [simp]: "length magicGUID = 36"
  by (simp add: magicGUID_def str_def)

lemma length_computeAcceptKey [simp]: "length (computeAcceptKey k) = 28"
  by (simp add: computeAcceptKey_def length_base64)

lemma bytesEqualString_eq: "bytesEqualString b s \<longleftrightarrow> b = s"
  by (auto simp: bytesEqualString_def list_all_iff intro: nth_equalityI)

lemma copy_bytes_whole: "length src = length dst \<Longrightarrow> copy_bytes 0 src dst = src"
  by (simp add: copy_bytes_def)

lemma acceptKeyMatches_iff: "acceptKeyMatches v secKey \<longleftrightarrow> v = computeAcceptKey secKey"
proof (cases "length v = 28 \<and> length secKey + 36 \<le> 128")
  case True
  let ?buf = "copy_bytes (length secKey) magicGUID (copy_bytes 0 secKey (replicate 128 0))"
  have "36 \<le> 128 - length secKey" using True by arith
  then have "take (length secKey + 36) ?buf = secKey @ magicGUID" using True by (simp add: copy_bytes_def min_def)
  then show ?thesis using True
    by (simp add: acceptKeyMatches_def Let_def copy_bytes_whole length_base64 min_def flip: computeAcceptKey_def)
next
  case False
  then show ?thesis by (auto simp: acceptKeyMatches_def bytesEqualString_eq Let_def)
qed

section \<open>What the client accepts\<close>

text \<open>The name and the value of a header line.\<close>

definition fieldOf :: "bytes \<Rightarrow> (bytes \<times> bytes) option" where
  "fieldOf line = (case IndexByte line 58 of None \<Rightarrow> None
     | Some colon \<Rightarrow> Some (TrimSpace (take colon line), TrimSpace (drop (colon + 1) line)))"

definition hasField :: "bytes list \<Rightarrow> bytes \<Rightarrow> (bytes \<Rightarrow> bool) \<Rightarrow> bool" where
  "hasField ls name ok \<longleftrightarrow> (\<exists>line \<in> set ls. \<exists>k v. fieldOf line = Some (k, v) \<and> EqualFold k name \<and> ok v)"

text \<open>Names that fold to different names differ.\<close>

lemma EqualFold_first:
  assumes "EqualFold k (c # t)"
  obtains x xs where "k = x # xs" "if x < 128 then lower x = lower c else (lower c = 107 \<and> x = 226 \<or> lower c = 115 \<and> x = 197)"
  using assms by (cases k) (auto split: if_splits)

lemma names_exclusive:
  "\<not> (EqualFold k headerConnection \<and> EqualFold k headerUpgrade)"
  "\<not> (EqualFold k headerConnection \<and> EqualFold k headerSecAccept)"
  "\<not> (EqualFold k headerUpgrade \<and> EqualFold k headerSecAccept)"
  by (auto simp: str_def lower_def elim!: EqualFold_first split: if_splits)

lemma checkLine_eq:
  "checkLine secKey line c = c\<lparr>
     connectionOK := connectionOK c \<or> hasField [line] headerConnection (\<lambda>v. headerHasTokenBytes v headerUpgrade),
     upgradeOK := upgradeOK c \<or> hasField [line] headerUpgrade (\<lambda>v. EqualFold v valWebsocket),
     acceptKeyOK := acceptKeyOK c \<or> hasField [line] headerSecAccept (\<lambda>v. acceptKeyMatches v secKey)\<rparr>"
proof (cases "IndexByte line 58")
  case None
  then show ?thesis by (simp add: checkLine_def hasField_def fieldOf_def)
next
  case (Some colon)
  then have "line \<noteq> []" using IndexByte_bound by fastforce
  then show ?thesis using Some names_exclusive [of "TrimSpace (take colon line)"]
    by (simp add: checkLine_def hasField_def fieldOf_def Let_def)
qed

lemma hasField_Cons: "hasField (l # ls) name ok \<longleftrightarrow> hasField [l] name ok \<or> hasField ls name ok"
  by (auto simp: hasField_def)

lemma checkLines_eq:
  "fold (checkLine secKey) ls c = c\<lparr>
     connectionOK := connectionOK c \<or> hasField ls headerConnection (\<lambda>v. headerHasTokenBytes v headerUpgrade),
     upgradeOK := upgradeOK c \<or> hasField ls headerUpgrade (\<lambda>v. EqualFold v valWebsocket),
     acceptKeyOK := acceptKeyOK c \<or> hasField ls headerSecAccept (\<lambda>v. acceptKeyMatches v secKey)\<rparr>"
proof (induction ls arbitrary: c)
  case Nil
  then show ?case by (simp add: hasField_def)
next
  case (Cons l ls)
  then show ?case by (simp add: checkLine_eq hasField_Cons [of l ls] disj_assoc)
qed


section \<open>Options\<close>

record http_request =
  rq_method :: bytes
  rq_header :: header
  rq_host :: bytes

text \<open>\<open>Config\<close> with the fields that only the handshake uses; \<open>None\<close> is \<open>nil\<close>.\<close>

record HandshakeConfig = Config +
  CheckOrigin :: "(http_request \<Rightarrow> bool) option"
  Header :: "header option"
  Cookies :: "(bytes \<times> bytes) list"

definition DefaultMaxFrameSize :: int where
  "DefaultMaxFrameSize = 10 * 1024 * 1024"

text \<open>\<open>textproto.CanonicalMIMEHeaderKey\<close>: names with other bytes than token bytes stay as they are.\<close>

definition upper :: "byte \<Rightarrow> byte" where
  "upper c = (if 97 \<le> c \<and> c \<le> 122 then c - 32 else c)"

fun canonical_bytes :: "bool \<Rightarrow> bytes \<Rightarrow> bytes" where
  "canonical_bytes up [] = []"
| "canonical_bytes up (c # cs) = (if up then upper c else lower c) # canonical_bytes (c = 45) cs"

definition CanonicalHeaderKey :: "bytes \<Rightarrow> bytes" where
  "CanonicalHeaderKey k = (if list_all token_byte k then canonical_bytes True k else k)"

text \<open>\<open>Header.Add\<close>.\<close>

fun header_append :: "header \<Rightarrow> bytes \<Rightarrow> bytes \<Rightarrow> header" where
  "header_append [] k v = [(k, [v])]"
| "header_append ((k', vs) # h) k v = (if k' = k then (k', vs @ [v]) # h else (k', vs) # header_append h k v)"

definition WithEnableCompression :: "bool \<Rightarrow> HandshakeConfig \<Rightarrow> HandshakeConfig" where
  "WithEnableCompression enable c = c\<lparr>EnableCompression := enable\<rparr>"

definition WithHeader :: "bytes \<Rightarrow> bytes \<Rightarrow> HandshakeConfig \<Rightarrow> HandshakeConfig" where
  "WithHeader key v c =
     (let h = (case Header c of None \<Rightarrow> [] | Some h \<Rightarrow> h) in c\<lparr>Header := Some (header_append h (CanonicalHeaderKey key) v)\<rparr>)"

definition WithCookie :: "bytes \<times> bytes \<Rightarrow> HandshakeConfig \<Rightarrow> HandshakeConfig" where
  "WithCookie cookie c = c\<lparr>Cookies := Cookies c @ [cookie]\<rparr>"

section \<open>Upgrade\<close>

text \<open>
  \<open>defaultCheckOrigin\<close>: \<open>originHost\<close> is the host of the URL that \<open>http.NewRequest\<close> parses, if it does, and
  \<open>hostsFold\<close> compares two host names under case folding.
\<close>

definition defaultCheckOrigin :: "(bytes \<Rightarrow> bytes option) \<Rightarrow> (bytes \<Rightarrow> bytes \<Rightarrow> bool) \<Rightarrow> http_request \<Rightarrow> bool" where
  "defaultCheckOrigin originHost hostsFold r =
     (let origin = header_get (rq_header r) (str ''Origin'') in
      if origin = [] then True
      else case originHost origin of None \<Rightarrow> False | Some h \<Rightarrow> hostsFold h (rq_host r))"

definition upgradeConfig ::
  "(bytes \<Rightarrow> bytes option) \<Rightarrow> (bytes \<Rightarrow> bytes \<Rightarrow> bool) \<Rightarrow> (HandshakeConfig \<Rightarrow> HandshakeConfig) list \<Rightarrow> HandshakeConfig" where
  "upgradeConfig originHost hostsFold opts = fold (\<lambda>opt. opt) opts
     \<lparr>MaxFrameSize = DefaultMaxFrameSize, EnableCompression = False,
      CheckOrigin = Some (defaultCheckOrigin originHost hostsFold), Header = None, Cookies = []\<rparr>"

abbreviation headerSecVersion :: bytes where "headerSecVersion \<equiv> str ''Sec-WebSocket-Version''"
abbreviation headerSecKey :: bytes where "headerSecKey \<equiv> str ''Sec-WebSocket-Key''"
abbreviation headerSecExtensions :: bytes where "headerSecExtensions \<equiv> str ''Sec-WebSocket-Extensions''"

text \<open>The tests before the connection is taken over, in their order.\<close>

definition upgradeCheck :: "HandshakeConfig \<Rightarrow> http_request \<Rightarrow> bool \<Rightarrow> go_error option" where
  "upgradeCheck c r canHijack =
     (if rq_method r \<noteq> str ''GET'' then Some (Errorf ''websocket: method not allowed'')
      else if \<not> headerHasToken (header_get (rq_header r) headerConnection) headerUpgrade \<or>
          \<not> EqualFold (TrimSpace (header_get (rq_header r) headerUpgrade)) valWebsocket
        then Some (Errorf ''websocket: invalid upgrade headers'')
      else if header_get (rq_header r) headerSecVersion \<noteq> str ''13''
        then Some (Errorf ''websocket: unsupported version (need 13)'')
      else if header_get (rq_header r) headerSecKey = [] then Some (Errorf ''websocket: missing sec-websocket-key'')
      else if (case CheckOrigin c of None \<Rightarrow> False | Some check \<Rightarrow> \<not> check r)
        then Some (Errorf ''websocket: origin not allowed'')
      else if \<not> canHijack then Some (Errorf ''websocket: server does not support hijacking'')
      else None)"

definition deflateExtension :: bytes where
  "deflateExtension = str ''per-message-deflate; client_no_context_takeover; server_no_context_takeover''"

definition upgradeResponse :: "bytes \<Rightarrow> bool \<Rightarrow> bytes" where
  "upgradeResponse acceptKey compressed =
     str ''HTTP/1.1 101 Switching Protocols'' @ crlf @ str ''Upgrade: websocket'' @ crlf @
     str ''Connection: Upgrade'' @ crlf @ str ''Sec-WebSocket-Accept: '' @ acceptKey @
     (if compressed then crlf @ headerSecExtensions @ str '': '' @ deflateExtension else []) @ headerEnd"

definition negotiated :: "HandshakeConfig \<Rightarrow> http_request \<Rightarrow> bool" where
  "negotiated c r \<longleftrightarrow>
     EnableCompression c \<and> Index (header_get (rq_header r) headerSecExtensions) (str ''per-message-deflate'') \<noteq> None"

text \<open>
  The result is the error, what the handler is told, the assembler of the read handler that was
  set, and the response writer with its buffered writer.
\<close>

definition Upgrade ::
  "http_env \<Rightarrow> (bytes \<Rightarrow> bytes option) \<Rightarrow> (bytes \<Rightarrow> bytes \<Rightarrow> bool) \<Rightarrow> bool \<Rightarrow> http_request \<Rightarrow>
     (HandshakeConfig \<Rightarrow> HandshakeConfig) list \<Rightarrow> ResponseWriter \<times> sink \<Rightarrow>
     (go_error option \<times> ws_event list \<times> Assembler option \<times> ResponseWriter \<times> sink) outcome" where
  "Upgrade env originHost hostsFold canHijack r opts = (\<lambda>(w, s).
     let c = upgradeConfig originHost hostsFold opts in
     case upgradeCheck c r canHijack of
       Some e \<Rightarrow> Return (Some e, [], None, w, s)
     | None \<Rightarrow>
         bind_outcome (Hijack env (w, s)) (\<lambda>(err, w, s).
         case err of
           Some e \<Rightarrow> Return (Some e, [], None, w, s)
         | None \<Rightarrow>
             let compressed = negotiated c r;
                 (_, s) = sink_write env
                   (upgradeResponse (computeAcceptKey (header_get (rq_header r) headerSecKey)) compressed) s;
                 (flushErr, s) = sink_flush env s in
             (case flushErr of
                Some e \<Rightarrow> Return (Some e, [ConnClosed], None, w, s)
              | None \<Rightarrow>
                  Return (None, [OnOpen], Some (NewAssembler (Config.truncate (c\<lparr>EnableCompression := compressed\<rparr>))), w, s))))"

section \<open>The client's request\<close>

record url =
  Scheme :: bytes
  Host :: bytes
  Path :: bytes
  RawQuery :: bytes

text \<open>
  \<open>buildHandshakeRequest\<close> for the sixteen random bytes \<open>key\<close>; the order in which Go visits the headers
  is the order of the list.
\<close>

definition joinCookies :: "(bytes \<times> bytes) list \<Rightarrow> bytes" where
  "joinCookies cookies = concat (map (\<lambda>(i, name, v). (if i > 0 then str ''; '' else []) @ name @ str ''='' @ v)
     (zip [0..<length cookies] cookies))"

definition headerLinesOf :: "header \<Rightarrow> bytes" where
  "headerLinesOf h = concat (map (\<lambda>(k, vs). concat (map (\<lambda>v. k @ str '': '' @ v @ crlf) vs)) h)"

definition requestPath :: "url \<Rightarrow> bytes" where
  "requestPath u =
     (if Path u = [] then str ''/'' else Path u) @ (if RawQuery u \<noteq> [] then str ''?'' @ RawQuery u else [])"

definition buildHandshakeRequest :: "go_error + bytes \<Rightarrow> url \<Rightarrow> HandshakeConfig \<Rightarrow> go_error + bytes \<times> bytes" where
  "buildHandshakeRequest rand u c =
     (case rand of
        Inl e \<Rightarrow> Inl e
      | Inr key \<Rightarrow>
          let secKey = base64 key in
          Inr (str ''GET '' @ requestPath u @ str '' HTTP/1.1'' @ crlf @ str ''Host: '' @ Host u @ crlf @
               str ''Upgrade: websocket'' @ crlf @ str ''Connection: Upgrade'' @ crlf @
               str ''Sec-WebSocket-Key: '' @ secKey @ crlf @ str ''Sec-WebSocket-Version: 13'' @ crlf @
               (if EnableCompression c then headerSecExtensions @ str '': '' @ deflateExtension @ crlf else []) @
               (case Header c of None \<Rightarrow> [] | Some h \<Rightarrow> headerLinesOf h) @
               (if Cookies c \<noteq> [] then str ''Cookie: '' @ joinCookies (Cookies c) @ crlf else []) @ crlf,
               secKey))"

section \<open>The client's side of the response\<close>

text \<open>
  One call of the client's \<open>OnRequest\<close> during the handshake, on the bytes that are there: it waits, it
  fails (the flag says whether the callback itself returns the error), or the header is complete and
  its length is given.  \<open>peeked\<close> is an error of \<open>Peek\<close> other than the end of file.
\<close>

definition maxHeaderSize :: nat where
  "maxHeaderSize = 4096"

datatype handshake_step = HWait | HFail go_error bool | HDone nat

definition handshakeStep :: "go_error option \<Rightarrow> bytes \<Rightarrow> bytes \<Rightarrow> handshake_step" where
  "handshakeStep peeked available secKey =
     (if available = [] then HWait
      else
        case peeked of
          Some e \<Rightarrow> HFail e True
        | None \<Rightarrow>
            let peekBuf = take maxHeaderSize available in
            (case Index peekBuf headerEnd of
               None \<Rightarrow>
                 if length available > maxHeaderSize
                 then HFail (Errorf ''websocket: response header too large'') True else HWait
             | Some idx \<Rightarrow>
                 let block = take idx peekBuf in
                 (case Index block crlf of
                    None \<Rightarrow> HFail (Errorf ''empty response'') False
                  | Some statusLineEnd \<Rightarrow>
                      if \<not> HasPrefix (take statusLineEnd block) (str ''HTTP/1.1 101'')
                      then HFail (Errorf ''handshake failed'') False
                      else
                        (case validateHandshakeResponse (drop (statusLineEnd + 2) block) secKey of
                           Some e \<Rightarrow> HFail e False
                         | None \<Rightarrow> HDone (idx + 4)))))"

section \<open>The response passes the client's test\<close>

lemma header_lines_crlf: "13 \<notin> set l \<Longrightarrow> header_lines (l @ crlf @ r) = l # header_lines r"
  using Index_crlf [of l r] by (simp add: header_lines.simps [of "l @ crlf @ r"])

lemma header_lines_single: "13 \<notin> set l \<Longrightarrow> l \<noteq> [] \<Longrightarrow> header_lines l = [l]"
  using Index_absent [of 13 l "[10]"] by (simp add: header_lines_last crlf_def)

lemma TrimSpace_blank: "TrimSpace (32 # v) = TrimSpace v"
proof -
  have "trim_left space_encodings (32 # v) = trim_left space_encodings v"
    by (simp add: trim_left.simps [of _ "32 # v"] space_encodings_def)
  then show ?thesis by (simp add: TrimSpace_def)
qed

lemma base64_digit_printable: "printable (base64_digit n)"
proof -
  have "list_all printable base64_alphabet" "length base64_alphabet = 64" by code_simp+
  moreover have "nat (n mod 64) < 64" by simp
  ultimately show ?thesis unfolding base64_digit_def by (simp add: list_all_length)
qed

lemma base64_printable: "c \<in> set (base64 bs) \<Longrightarrow> printable c"
  by (induction bs rule: base64.induct) (auto simp: base64_digit_printable, simp_all add: printable_def)

lemma acceptKey_printable: "c \<in> set (computeAcceptKey k) \<Longrightarrow> printable c"
  by (simp add: computeAcceptKey_def base64_printable)

lemma acceptKey_trim: "TrimSpace (computeAcceptKey k) = computeAcceptKey k"
proof -
  have "computeAcceptKey k \<noteq> []" using length_computeAcceptKey [of k] by (metis list.size(3) zero_neq_numeral)
  then show ?thesis by (intro TrimSpace_printable acceptKey_printable [of _ k]) simp_all
qed

text \<open>The lines of the response after its status line.\<close>

definition upgradeLines :: "bytes \<Rightarrow> bool \<Rightarrow> bytes list" where
  "upgradeLines acceptKey compressed =
     [str ''Upgrade: websocket'', str ''Connection: Upgrade'', str ''Sec-WebSocket-Accept: '' @ acceptKey] @
     (if compressed then [headerSecExtensions @ str '': '' @ deflateExtension] else [])"

definition upgradeBlock :: "bytes \<Rightarrow> bool \<Rightarrow> bytes" where
  "upgradeBlock acceptKey compressed =
     str ''Upgrade: websocket'' @ crlf @ str ''Connection: Upgrade'' @ crlf @ str ''Sec-WebSocket-Accept: '' @ acceptKey @
     (if compressed then crlf @ headerSecExtensions @ str '': '' @ deflateExtension else [])"

lemma upgradeBlock_lines:
  assumes "13 \<notin> set acceptKey"
  shows "header_lines (upgradeBlock acceptKey compressed) = upgradeLines acceptKey compressed"
proof -
  have no: "13 \<notin> set (str ''Upgrade: websocket'')" "13 \<notin> set (str ''Connection: Upgrade'')"
    "13 \<notin> set (str ''Sec-WebSocket-Accept: '' @ acceptKey)" "13 \<notin> set (headerSecExtensions @ str '': '' @ deflateExtension)"
    using assms by (simp_all add: str_def deflateExtension_def)
  have ne: "str ''Sec-WebSocket-Accept: '' @ acceptKey \<noteq> []" "headerSecExtensions @ str '': '' @ deflateExtension \<noteq> []"
    by (simp_all add: str_def)
  show ?thesis
  proof (cases compressed)
    case True
    have "upgradeBlock acceptKey compressed = str ''Upgrade: websocket'' @ crlf @ str ''Connection: Upgrade'' @ crlf @
        (str ''Sec-WebSocket-Accept: '' @ acceptKey) @ crlf @ (headerSecExtensions @ str '': '' @ deflateExtension)"
      using True by (simp add: upgradeBlock_def)
    then show ?thesis using True
      by (simp only: header_lines_crlf [OF no(1)] header_lines_crlf [OF no(2)] header_lines_crlf [OF no(3)]
          header_lines_single [OF no(4) ne(2)]) (simp add: upgradeLines_def)
  next
    case False
    then have "upgradeBlock acceptKey compressed = str ''Upgrade: websocket'' @ crlf @ str ''Connection: Upgrade'' @ crlf @
        (str ''Sec-WebSocket-Accept: '' @ acceptKey)"
      by (simp add: upgradeBlock_def)
    then show ?thesis using False
      by (simp only: header_lines_crlf [OF no(1)] header_lines_crlf [OF no(2)]
          header_lines_single [OF no(3) ne(1)]) (simp add: upgradeLines_def)
  qed
qed

lemma validate_iff:
  "validateHandshakeResponse block secKey = None \<longleftrightarrow>
     hasField (header_lines block) headerConnection (\<lambda>v. headerHasToken v headerUpgrade) \<and>
     hasField (header_lines block) headerUpgrade (\<lambda>v. EqualFold v valWebsocket) \<and>
     hasField (header_lines block) headerSecAccept (\<lambda>v. v = computeAcceptKey secKey)"
proof -
  have "headerUpgrade \<noteq> []" by (simp add: str_def)
  then show ?thesis
    by (simp add: validateHandshakeResponse_def Let_def checkLines_eq acceptKeyMatches_iff headerHasTokenBytes_eq)
qed

lemma validate_upgradeBlock: "validateHandshakeResponse (upgradeBlock (computeAcceptKey k) compressed) k = None"
proof -
  let ?ls = "upgradeLines (computeAcceptKey k) compressed"
  have no: "13 \<notin> set (computeAcceptKey k)" using acceptKey_printable printable_no_break by blast
  have "fieldOf (str ''Connection: Upgrade'') = Some (headerConnection, str ''Upgrade'')" by code_simp
  moreover have "EqualFold headerConnection headerConnection" "headerHasToken (str ''Upgrade'') headerUpgrade" by code_simp+
  ultimately have c: "hasField ?ls headerConnection (\<lambda>v. headerHasToken v headerUpgrade)"
    by (auto simp: hasField_def upgradeLines_def)
  have "fieldOf (str ''Upgrade: websocket'') = Some (headerUpgrade, valWebsocket)" by code_simp
  moreover have "EqualFold headerUpgrade headerUpgrade" "EqualFold valWebsocket valWebsocket" by code_simp+
  ultimately have u: "hasField ?ls headerUpgrade (\<lambda>v. EqualFold v valWebsocket)"
    by (auto simp: hasField_def upgradeLines_def)
  have "IndexByte (str ''Sec-WebSocket-Accept: '' @ computeAcceptKey k) 58 = Some 20"
    unfolding IndexByte_def by (rule Index_append) code_simp
  moreover have "take 20 (str ''Sec-WebSocket-Accept: '') = headerSecAccept" "drop 21 (str ''Sec-WebSocket-Accept: '') = [32]"
    "length (str ''Sec-WebSocket-Accept: '') = 22" "TrimSpace headerSecAccept = headerSecAccept" by code_simp+
  ultimately have "fieldOf (str ''Sec-WebSocket-Accept: '' @ computeAcceptKey k) = Some (headerSecAccept, computeAcceptKey k)"
    by (simp add: fieldOf_def TrimSpace_blank acceptKey_trim)
  moreover have "EqualFold headerSecAccept headerSecAccept" by code_simp
  ultimately have a: "hasField ?ls headerSecAccept (\<lambda>v. v = computeAcceptKey k)"
    by (auto simp: hasField_def upgradeLines_def)
  show ?thesis using c u a by (simp add: validate_iff upgradeBlock_lines [OF no])
qed

lemma upgradeResponse_block:
  "upgradeResponse k compressed = str ''HTTP/1.1 101 Switching Protocols'' @ crlf @ upgradeBlock k compressed @ headerEnd"
  by (simp add: upgradeResponse_def upgradeBlock_def)

lemma upgradeResponse_lines:
  "upgradeResponse k compressed = lines_bytes (str ''HTTP/1.1 101 Switching Protocols'' # upgradeLines k compressed) @ crlf"
  by (simp add: upgradeResponse_def upgradeLines_def lines_bytes_def headerEnd_crlf)

lemma upgradeLines_ok:
  assumes "\<And>c. c \<in> set k \<Longrightarrow> printable c"
  shows "list_all line_ok (str ''HTTP/1.1 101 Switching Protocols'' # upgradeLines k compressed)"
  using assms printable_no_break
  by (auto simp: upgradeLines_def line_ok_def str_def deflateExtension_def)

lemma handshakeStep_found:
  assumes "peeked = None" "Index d headerEnd = Some i" "i + 4 \<le> maxHeaderSize"
  shows "handshakeStep peeked d secKey =
    (case Index (take i d) crlf of
       None \<Rightarrow> HFail (Errorf ''empty response'') False
     | Some n \<Rightarrow>
         if \<not> HasPrefix (take n (take i d)) (str ''HTTP/1.1 101'') then HFail (Errorf ''handshake failed'') False
         else case validateHandshakeResponse (drop (n + 2) (take i d)) secKey of
                Some e \<Rightarrow> HFail e False | None \<Rightarrow> HDone (i + 4))"
proof -
  have "d \<noteq> []" using Index_bound [OF assms(2)] by auto
  moreover have "Index (take maxHeaderSize d) headerEnd = Some i" using Index_take [OF assms(2)] assms(3) by simp
  moreover have "take i (take maxHeaderSize d) = take i d" using assms(3) by simp
  ultimately show ?thesis using assms(1) by (simp add: handshakeStep_def Let_def)
qed

lemma handshakeStep_upgradeResponse:
  fixes k compressed
  defines "resp \<equiv> upgradeResponse (computeAcceptKey k) compressed"
  shows "handshakeStep None (resp @ rest) k = HDone (length resp)"
proof -
  let ?status = "str ''HTTP/1.1 101 Switching Protocols''" and ?block = "upgradeBlock (computeAcceptKey k) compressed"
  have ok: "list_all line_ok (?status # upgradeLines (computeAcceptKey k) compressed)"
    by (rule upgradeLines_ok) (rule acceptKey_printable)
  have resp: "resp = (?status @ crlf @ ?block) @ headerEnd" by (simp add: resp_def upgradeResponse_block)
  let ?ls = "?status # upgradeLines (computeAcceptKey k) compressed"
  have "length (lines_bytes ?ls) - 2 = length (?status @ crlf @ ?block)"
    using arg_cong [OF upgradeResponse_lines [of "computeAcceptKey k" compressed], of length] resp by (simp add: resp_def)
  with Index_lines [OF ok, of rest] have i: "Index (resp @ rest) headerEnd = Some (length (?status @ crlf @ ?block))"
    by (simp add: resp_def upgradeResponse_lines)
  have "length ?status = 32" "length ?block \<le> 400"
    by (simp_all add: upgradeBlock_def str_def deflateExtension_def)
  then have small: "length (?status @ crlf @ ?block) + 4 \<le> maxHeaderSize" by (simp add: maxHeaderSize_def)
  have tk: "take (length (?status @ crlf @ ?block)) (resp @ rest) = ?status @ crlf @ ?block" by (simp add: resp)
  have n: "Index (?status @ crlf @ ?block) crlf = Some 32"
    using Index_crlf [of ?status ?block] \<open>length ?status = 32\<close> by (simp add: str_def)
  have "take 32 (?status @ crlf @ ?block) = ?status" "drop (32 + 2) (?status @ crlf @ ?block) = ?block"
    using \<open>length ?status = 32\<close> by simp_all
  moreover have "HasPrefix ?status (str ''HTTP/1.1 101'')" by code_simp
  ultimately show ?thesis
    using validate_upgradeBlock [of k compressed]
    by (simp only: handshakeStep_found [OF refl i small] tk n) (simp add: resp)
qed

lemma Hijack_fresh:
  assumes "rw_inv w" "\<not> hijacked w" "reliable env" "sticky s = None"
  obtains s' where "Hijack env (w, s) = Return (None, w\<lparr>hijacked := True, bufWriter_set := False\<rparr>, s')"
    "accepted s' = accepted s" "sticky s' = None"
  using assms by (auto simp: Hijack_def rw_inv_def sink_flush_def reliable_def Let_def)

text \<open>A header end that is found early enough is found by every longer look, and by no shorter one.\<close>

lemma handshakeStep_Done:
  assumes "handshakeStep None d secKey = HDone n"
  obtains i where "n = i + 4" "Index d headerEnd = Some i" "i + 4 \<le> maxHeaderSize"
proof -
  from assms obtain i where i: "Index (take maxHeaderSize d) headerEnd = Some i" "n = i + 4"
    by (auto simp: handshakeStep_def Let_def split: if_splits option.splits)
  have "Index d headerEnd = Some i" using Index_append [OF i(1), of "drop maxHeaderSize d"] by simp
  moreover have "i + 4 \<le> maxHeaderSize" using Index_bound [OF i(1)] by simp
  ultimately show thesis using i(2) that by blast
qed

lemma Upgrade_result:
  assumes "rw_inv w" "\<not> hijacked w" "reliable env" "sticky s = None"
    and "c = upgradeConfig originHost hostsFold opts"
    and "resp = upgradeResponse (computeAcceptKey (header_get (rq_header r) headerSecKey)) (negotiated c r)"
  shows "case upgradeCheck c r canHijack of
      Some e \<Rightarrow> Upgrade env originHost hostsFold canHijack r opts (w, s) = Return (Some e, [], None, w, s)
    | None \<Rightarrow> \<exists>w' s'. Upgrade env originHost hostsFold canHijack r opts (w, s) =
          Return (None, [OnOpen],
            Some (NewAssembler \<lparr>MaxFrameSize = MaxFrameSize c, EnableCompression = negotiated c r\<rparr>), w', s') \<and>
        hijacked w' \<and> accepted s' = accepted s @ resp \<and> flushed s' = length (accepted s')"
proof (cases "upgradeCheck c r canHijack")
  case (Some e)
  then show ?thesis by (simp add: Upgrade_def assms(5))
next
  case None
  obtain s1 where h: "Hijack env (w, s) = Return (None, w\<lparr>hijacked := True, bufWriter_set := False\<rparr>, s1)"
    "accepted s1 = accepted s" "sticky s1 = None"
    using Hijack_fresh [OF assms(1-4)] .
  obtain s2 where s2: "sink_write env resp s1 = ((length resp, None), s2)" "took s1 resp s2"
    using sink_write_reliable [OF assms(3) h(3)] .
  obtain s3 where s3: "sink_flush env s2 = (None, s3)" "accepted s3 = accepted s2" "flushed s3 = length (accepted s2)"
    using assms(3) s2(2) by (auto simp: sink_flush_def reliable_def took_def Let_def)
  have "Config.truncate (c\<lparr>EnableCompression := b\<rparr>) = \<lparr>MaxFrameSize = MaxFrameSize c, EnableCompression = b\<rparr>" for b
    by (simp add: Config.truncate_def)
  with None h s2 s3 show ?thesis by (auto simp: Upgrade_def assms(5,6) took_def Let_def)
qed

section \<open>Properties\<close>

text \<open>
  C29: the accept key is compared exactly.  The allocation-free comparison of the client (a
  buffer on the stack for short keys, another path for long ones) accepts a value exactly if it is the
  base64 encoding of the SHA-1 digest of the key and the protocol's GUID, for every value and key.
\<close>

theorem accept_key_exact:
  "acceptKeyMatches v secKey \<longleftrightarrow> v = base64 (sha1 (secKey @ magicGUID))"
  by (simp add: acceptKeyMatches_iff computeAcceptKey_def)

text \<open>
  The two token tests agree.  The test on byte slices that the client uses is the test on
  split strings that the server uses, for every header value and every token that is not empty.
\<close>

theorem header_token_equiv:
  assumes "token \<noteq> []"
  shows "headerHasTokenBytes v token = headerHasToken v token"
  using assms by (rule headerHasTokenBytes_eq)

text \<open>
  C28: what the client accepts.  A header block passes exactly if some line of it is a Connection field
  with the token Upgrade, some line an Upgrade field with the value websocket, and some line an
  accept field with the accept key of the client's own challenge.
\<close>

theorem validate_handshake_iff:
  "validateHandshakeResponse block secKey = None \<longleftrightarrow>
     hasField (header_lines block) headerConnection (\<lambda>v. headerHasToken v headerUpgrade) \<and>
     hasField (header_lines block) headerUpgrade (\<lambda>v. EqualFold v valWebsocket) \<and>
     hasField (header_lines block) headerSecAccept (\<lambda>v. v = computeAcceptKey secKey)"
  by (rule validate_iff)

text \<open>
  The handshake does not depend on how the response arrives.  If the client accepts a response, it
  waits on every shorter part of it, accepts it at the same byte whatever follows, and leaves what
  follows to the frames.
\<close>

theorem handshake_segmentation:
  assumes "handshakeStep None d secKey = HDone n"
  shows "n \<le> length d \<and> (\<forall>m < n. handshakeStep None (take m d) secKey = HWait) \<and>
    handshakeStep None (take n d @ more_bytes) secKey = HDone n"
proof -
  obtain i where i: "n = i + 4" "Index d headerEnd = Some i" "i + 4 \<le> maxHeaderSize"
    using handshakeStep_Done [OF assms] .
  have len: "n \<le> length d" using Index_bound [OF i(2)] i(1) by simp
  have short: "handshakeStep None (take m d) secKey = HWait" if "m < n" for m
  proof -
    have "Index (take k d) headerEnd = None" if "k < n" for k
    proof (rule ccontr)
      assume "Index (take k d) headerEnd \<noteq> None"
      then obtain j where j: "Index (take k d) headerEnd = Some j" by blast
      then have "Index d headerEnd = Some j" using Index_append [of "take k d" headerEnd j "drop k d"] by simp
      with i(2) Index_bound [OF j] that i(1) show False by simp
    qed
    moreover have "min maxHeaderSize m < n" "m \<le> maxHeaderSize" using that i(1,3) by simp_all
    ultimately show ?thesis by (simp add: handshakeStep_def Let_def)
  qed
  have "Index (take n d) headerEnd = Some i" using Index_take [OF i(2)] i(1) by simp
  note found = Index_append [OF this, of more_bytes]
  have "take i (take n d @ more_bytes) = take i d" using len i(1) by simp
  then have "handshakeStep None (take n d @ more_bytes) secKey = HDone n"
    using assms unfolding handshakeStep_found [OF refl found i(3)] handshakeStep_found [OF refl i(2,3)] by metis
  with len short show ?thesis by blast
qed


text \<open>
  Server and client understand each other.  The response that \<open>Upgrade\<close> sends for a client's
  challenge is accepted by the client that sent the challenge, whether compression is negotiated or not, at
  exactly its last byte.
\<close>

theorem upgrade_client_agree:
  "handshakeStep None (upgradeResponse (computeAcceptKey secKey) compressed @ rest) secKey =
     HDone (length (upgradeResponse (computeAcceptKey secKey) compressed))"
  by (rule handshakeStep_upgradeResponse)

section \<open>Witnesses\<close>

theorem header_token_equiv_witness:
  "headerHasTokenBytes (str ''keep-alive, upgrade'') headerUpgrade = headerHasToken (str ''keep-alive, upgrade'') headerUpgrade"
  by (rule header_token_equiv) (simp add: str_def)

theorem handshake_segmentation_witness:
  "handshakeStep None (take 20 (upgradeResponse (computeAcceptKey (str ''k'')) False)) (str ''k'') = HWait"
proof -
  let ?resp = "upgradeResponse (computeAcceptKey (str ''k'')) False"
  have "handshakeStep None ?resp (str ''k'') = HDone (length ?resp)"
    using handshakeStep_upgradeResponse [of "str ''k''" False "[]"] by simp
  moreover have "20 < length ?resp" by (simp add: upgradeResponse_def str_def)
  ultimately show ?thesis using handshake_segmentation [of ?resp "str ''k''"] by blast
qed

definition some_upgrade :: http_request where
  "some_upgrade = \<lparr>rq_method = str ''GET'',
     rq_header = [(headerConnection, [str ''keep-alive, Upgrade'']), (headerUpgrade, [valWebsocket]),
       (headerSecVersion, [str ''13'']), (headerSecKey, [str ''k''])], rq_host = str ''h''\<rparr>"


end
