(* ===== verification/Ws_Client.thy ===== *)
theory Ws_Client
  imports Ws_Handshake
begin

text \<open>
  The client of \<open>src/pkg/websocket/client.go\<close>: \<open>Dial\<close> with its callbacks, and the tracker that tells the
  handler and the client's wait group once that a connection is closed.

  netpoll, the URL parser and the random source are parameters: their errors, and the deliveries that
  the connection makes until the handshake is decided.  Closing a connection runs its close
  callbacks, as netpoll documents.
\<close>

section \<open>The close tracker\<close>

record dialing =
  wg :: int
  closedOnce :: bool
  told :: "ws_event list"
  isHandshake :: bool
  handshakeDone :: "go_error option option"
  conn_open :: bool
  hasOnRequest :: bool

text \<open>\<open>wg.Done\<close> panics when the counter would become negative.\<close>

definition wg_Done :: "dialing \<Rightarrow> dialing outcome" where
  "wg_Done d = (if wg d - 1 < 0 then Panic else Return (d\<lparr>wg := wg d - 1\<rparr>))"

definition tracker_OnClose :: "go_error option \<Rightarrow> dialing \<Rightarrow> dialing outcome" where
  "tracker_OnClose err d =
     (if closedOnce d then Return d else wg_Done (d\<lparr>closedOnce := True, told := told d @ [OnClose err]\<rparr>))"

text \<open>Closing the connection runs the callback that \<open>AddCloseCallback\<close> registered.\<close>

definition closeConn :: "dialing \<Rightarrow> dialing outcome" where
  "closeConn d =
     (if \<not> conn_open d then Return d
      else tracker_OnClose (Some (Errorf ''connection closed'')) (d\<lparr>conn_open := False\<rparr>))"

text \<open>A send on the channel of capacity one that does not block.\<close>

definition reportHandshake :: "go_error option \<Rightarrow> dialing \<Rightarrow> dialing" where
  "reportHandshake v d = (if handshakeDone d = None then d\<lparr>handshakeDone := Some v\<rparr> else d)"

section \<open>The callback\<close>

text \<open>
  \<open>OnRequest\<close>: besides the new state the result says what the callback returns, how many bytes it
  consumes itself and whether it calls \<open>ServeConn\<close> for the rest.
\<close>

definition clientOnRequest ::
  "bytes \<Rightarrow> go_error option \<Rightarrow> bytes \<Rightarrow> dialing \<Rightarrow> (go_error option \<times> nat \<times> bool \<times> dialing) outcome" where
  "clientOnRequest secKey peeked available d =
     (if isHandshake d then
        Return (case handshakeStep peeked available secKey of
            HWait \<Rightarrow> (None, 0, False, d)
          | HFail e returned \<Rightarrow> (if returned then Some e else None, 0, False, reportHandshake (Some e) d)
          | HDone n \<Rightarrow>
              (None, n, length available > n,
               reportHandshake None (d\<lparr>isHandshake := False, told := told d @ [OnOpen]\<rparr>)))
      else if \<not> conn_open d then bind_outcome (tracker_OnClose None d) (\<lambda>d. Return (None, 0, False, d))
      else Return (None, 0, True, d))"

text \<open>What can happen to the connection while \<open>Dial\<close> waits.\<close>

datatype delivery = Data "go_error option" bytes | PeerClosed

fun deliver :: "bytes \<Rightarrow> delivery \<Rightarrow> dialing \<Rightarrow> dialing outcome" where
  "deliver secKey (Data peeked available) d =
     bind_outcome (clientOnRequest secKey peeked available d) (\<lambda>(_, _, _, d). Return d)"
| "deliver secKey PeerClosed d = closeConn d"

text \<open>\<open>Dial\<close> waits until the handshake is decided, or until there are no more deliveries in time.\<close>

fun awaitHandshake :: "bytes \<Rightarrow> delivery list \<Rightarrow> dialing \<Rightarrow> dialing outcome" where
  "awaitHandshake secKey [] d = Return d"
| "awaitHandshake secKey (x # xs) d =
     bind_outcome (deliver secKey x d) (\<lambda>d.
     if handshakeDone d \<noteq> None then Return d else awaitHandshake secKey xs d)"

section \<open>Dial\<close>

text \<open>The errors of the calls that \<open>Dial\<close> makes.\<close>

record dial_env =
  parseURL :: "go_error + url"
  randRead :: "go_error + bytes"
  dialErr :: "go_error option"
  setErr :: "go_error option"
  sendErr :: "go_error option"
  deliveries :: "delivery list"

definition dialHost :: "url \<Rightarrow> bytes" where
  "dialHost u = (if Index (Host u) (str '':'') = None then Host u @ str '':80'' else Host u)"

definition dialConfig :: "(HandshakeConfig \<Rightarrow> HandshakeConfig) list \<Rightarrow> HandshakeConfig" where
  "dialConfig opts = fold (\<lambda>opt. opt) opts
     \<lparr>MaxFrameSize = 10 * 1024 * 1024, EnableCompression = False, CheckOrigin = None, Header = Some [], Cookies = []\<rparr>"

text \<open>The end of \<open>Dial\<close>: the handshake has been decided, or the time is over.\<close>

definition dialResult :: "dialing \<Rightarrow> (go_error option \<times> dialing) outcome" where
  "dialResult d =
     (case handshakeDone d of
        Some None \<Rightarrow> Return (None, d)
      | Some (Some e) \<Rightarrow>
          bind_outcome (closeConn d) (\<lambda>d. bind_outcome (tracker_OnClose (Some e) d) (\<lambda>d. Return (Some e, d)))
      | None \<Rightarrow>
          bind_outcome (closeConn (d\<lparr>hasOnRequest := False\<rparr>)) (\<lambda>d.
          bind_outcome (tracker_OnClose (Some (Errorf ''handshake timeout'')) d) (\<lambda>d.
          Return (Some (Errorf ''handshake timeout''), d))))"

text \<open>A failure after the connection was made: it is closed, and the wait group is told.\<close>

definition abandon :: "go_error \<Rightarrow> dialing \<Rightarrow> (go_error option \<times> dialing) outcome" where
  "abandon e d = bind_outcome (closeConn d) (\<lambda>d. bind_outcome (wg_Done d) (\<lambda>d. Return (Some e, d)))"

definition newDialing :: "int \<Rightarrow> dialing" where
  "newDialing n = \<lparr>wg = n, closedOnce = False, told = [], isHandshake = True, handshakeDone = None,
     conn_open = False, hasOnRequest = False\<rparr>"

text \<open>\<open>Dial\<close> of a client whose wait group stands at \<open>n\<close>.\<close>

definition Dial :: "dial_env \<Rightarrow> (HandshakeConfig \<Rightarrow> HandshakeConfig) list \<Rightarrow> int \<Rightarrow> (go_error option \<times> dialing) outcome" where
  "Dial env opts n =
     (let d = newDialing n in
      case parseURL env of
        Inl e \<Rightarrow> Return (Some (Errorf ''malformed url''), d)
      | Inr u \<Rightarrow>
          if Scheme u \<noteq> str ''ws'' then Return (Some (Errorf ''unsupported scheme''), d)
          else
            case buildHandshakeRequest (randRead env) u (dialConfig opts) of
              Inl e \<Rightarrow> Return (Some e, d)
            | Inr (raw, secKey) \<Rightarrow>
                let d = d\<lparr>wg := wg d + 1\<rparr> in
                if dialErr env \<noteq> None then bind_outcome (wg_Done d) (\<lambda>d. Return (Some (Errorf ''dial failed''), d))
                else
                  let d = d\<lparr>conn_open := True\<rparr> in
                  if setErr env \<noteq> None then abandon (Errorf ''failed to set handler'') d
                  else
                    let d = d\<lparr>hasOnRequest := True\<rparr> in
                    (case sendErr env of
                       Some e \<Rightarrow> abandon e d
                     | None \<Rightarrow> bind_outcome (awaitHandshake secKey (deliveries env) d) dialResult))"

section \<open>The accounts of a connection\<close>

fun is_close :: "ws_event \<Rightarrow> bool" where
  "is_close (OnClose e) = True"
| "is_close _ = False"

text \<open>
  Between \<open>wg.Add\<close> and the end: the connection is counted until it is reported closed, it is
  reported once, and it has been opened exactly if the handshake was reported to have succeeded.
\<close>

definition dial_inv :: "int \<Rightarrow> dialing \<Rightarrow> bool" where
  "dial_inv n d \<longleftrightarrow> 0 \<le> n \<and> wg d = n + (if closedOnce d then 0 else 1) \<and>
     length (filter is_close (told d)) = (if closedOnce d then 1 else 0) \<and>
     length (filter ((=) OnOpen) (told d)) = (if isHandshake d then 0 else 1) \<and>
     (handshakeDone d = Some None \<longleftrightarrow> \<not> isHandshake d) \<and> (\<not> conn_open d \<longrightarrow> closedOnce d)"

lemma tracker_keeps:
  assumes "dial_inv n (d\<lparr>conn_open := o'\<rparr>) \<or> dial_inv n d"
  shows "\<exists>d'. tracker_OnClose e d = Return d' \<and> closedOnce d' \<and> isHandshake d' = isHandshake d \<and>
    handshakeDone d' = handshakeDone d \<and> conn_open d' = conn_open d \<and> dial_inv n d'"
  using assms by (cases "closedOnce d") (auto simp: tracker_OnClose_def wg_Done_def dial_inv_def)

lemma closeConn_keeps:
  assumes "dial_inv n d"
  shows "\<exists>d'. closeConn d = Return d' \<and> closedOnce d' \<and> isHandshake d' = isHandshake d \<and>
    handshakeDone d' = handshakeDone d \<and> dial_inv n d'"
proof (cases "conn_open d")
  case True
  have "dial_inv n ((d\<lparr>conn_open := False\<rparr>)\<lparr>conn_open := True\<rparr>)" using assms True by (simp add: dial_inv_def)
  with tracker_keeps [where d = "d\<lparr>conn_open := False\<rparr>" and o' = True and n = n] True show ?thesis
    by (auto simp: closeConn_def)
next
  case False
  with assms show ?thesis by (auto simp: closeConn_def dial_inv_def)
qed

lemma deliver_keeps:
  assumes "dial_inv n d" "handshakeDone d = None"
  shows "\<exists>d'. deliver secKey x d = Return d' \<and> dial_inv n d'"
proof (cases x)
  case PeerClosed
  with closeConn_keeps [OF assms(1)] show ?thesis by auto
next
  case (Data peeked available)
  have "isHandshake d" using assms by (auto simp: dial_inv_def)
  with assms Data show ?thesis
    by (cases "handshakeStep peeked available secKey")
      (auto simp: clientOnRequest_def reportHandshake_def dial_inv_def)
qed

lemma awaitHandshake_keeps:
  "dial_inv n d \<Longrightarrow> handshakeDone d = None \<Longrightarrow> \<exists>d'. awaitHandshake secKey xs d = Return d' \<and> dial_inv n d'"
proof (induction xs arbitrary: d)
  case (Cons x xs)
  from deliver_keeps [OF Cons.prems] obtain d1 where "deliver secKey x d = Return d1" "dial_inv n d1" by blast
  with Cons.IH [of d1] show ?case by (cases "handshakeDone d1 = None") auto
qed auto


lemma dialResult_settles:
  assumes "dial_inv n d"
  shows "\<exists>err d'. dialResult d = Return (err, d') \<and> dial_inv n d' \<and> (err = None \<longleftrightarrow> \<not> isHandshake d') \<and>
    (err \<noteq> None \<longrightarrow> closedOnce d')"
proof -
  have same: "dial_inv n (d\<lparr>hasOnRequest := False\<rparr>)" using assms by (simp add: dial_inv_def)
  have end_it: "\<exists>d'. bind_outcome (closeConn d0) (\<lambda>d. bind_outcome (tracker_OnClose (Some e) d) (\<lambda>d. Return (Some e, d))) =
      Return (Some e, d') \<and> dial_inv n d' \<and> closedOnce d' \<and> isHandshake d' = isHandshake d0"
    if inv0: "dial_inv n d0" for d0 e
  proof -
    obtain d1 where d1: "closeConn d0 = Return d1" "dial_inv n d1" "isHandshake d1 = isHandshake d0"
      using closeConn_keeps [OF inv0] by blast
    obtain d2 where "tracker_OnClose (Some e) d1 = Return d2" "dial_inv n d2" "closedOnce d2" "isHandshake d2 = isHandshake d1"
      using tracker_keeps [OF disjI2 [OF d1(2)]] by blast
    with d1 show ?thesis by simp
  qed
  show ?thesis
  proof (cases "handshakeDone d")
    case None
    then have "isHandshake d" using assms by (auto simp: dial_inv_def)
    with None end_it [OF same, of "Errorf ''handshake timeout''"] show ?thesis by (auto simp: dialResult_def)
  next
    case (Some v)
    then show ?thesis
    proof (cases v)
      case None
      with Some assms show ?thesis by (auto simp: dialResult_def dial_inv_def)
    next
      case e: (Some e)
      then have "isHandshake d" using assms Some by (auto simp: dial_inv_def)
      with Some e end_it [OF assms, of e] show ?thesis by (auto simp: dialResult_def)
    qed
  qed
qed

text \<open>How \<open>Dial\<close> ends: before there is a connection, or with the accounts in order.\<close>

lemma Dial_settles:
  assumes "0 \<le> n" "setErr env = None" "sendErr env = None"
  obtains err d where "Dial env opts n = Return (err, d)"
    "err \<noteq> None \<and> d = newDialing n \<or> dial_inv n d \<and> (err = None \<longleftrightarrow> \<not> isHandshake d) \<and> (err \<noteq> None \<longrightarrow> closedOnce d)"
proof (cases "\<exists>u raw secKey. parseURL env = Inr u \<and> Scheme u = str ''ws'' \<and>
    buildHandshakeRequest (randRead env) u (dialConfig opts) = Inr (raw, secKey) \<and> dialErr env = None")
  case False
  have "\<exists>err. Dial env opts n = Return (Some err, newDialing n)"
  proof (cases "parseURL env")
    case (Inr u)
    show ?thesis
    proof (cases "Scheme u = str ''ws''")
      case ws: True
      show ?thesis
      proof (cases "buildHandshakeRequest (randRead env) u (dialConfig opts)")
        case b: (Inr rk)
        obtain raw secKey where "rk = (raw, secKey)" by (cases rk)
        with False Inr ws b have "dialErr env \<noteq> None" by auto
        with Inr ws b \<open>rk = (raw, secKey)\<close> assms(1) show ?thesis by (simp add: Dial_def newDialing_def wg_Done_def)
      qed (use Inr ws in \<open>simp add: Dial_def\<close>)
    qed (use Inr in \<open>simp add: Dial_def\<close>)
  qed (simp add: Dial_def)
  then obtain err where "Dial env opts n = Return (Some err, newDialing n)" by blast
  then show thesis using that by blast
next
  case True
  then obtain u raw secKey where t: "parseURL env = Inr u" "Scheme u = str ''ws''"
    "buildHandshakeRequest (randRead env) u (dialConfig opts) = Inr (raw, secKey)" "dialErr env = None" by blast
  let ?d = "(newDialing n)\<lparr>wg := n + 1, conn_open := True, hasOnRequest := True\<rparr>"
  have eq: "Dial env opts n = bind_outcome (awaitHandshake secKey (deliveries env) ?d) dialResult"
    using t assms by (simp add: Dial_def newDialing_def Let_def)
  have "dial_inv n ?d" "handshakeDone ?d = None" using assms(1) by (simp_all add: dial_inv_def newDialing_def)
  from awaitHandshake_keeps [OF this] obtain d1 where d1: "awaitHandshake secKey (deliveries env) ?d = Return d1" "dial_inv n d1"
    by blast
  from dialResult_settles [OF d1(2)] obtain err d where "dialResult d1 = Return (err, d)" "dial_inv n d"
    "err = None \<longleftrightarrow> \<not> isHandshake d" "err \<noteq> None \<longrightarrow> closedOnce d" by blast
  with d1(1) eq show thesis by (intro that [of err d]) simp_all
qed

section \<open>Properties\<close>


text \<open>
  C39: a request that cannot be sent is accounted for twice.  \<open>Dial\<close> closes the connection, whose callback
  already calls \<open>wg.Done\<close>, and calls \<open>wg.Done\<close> again: a client without other connections panics, any other
  client loses the count of one of its other connections, so that \<open>Wait\<close> returns too early.
\<close>

theorem dial_double_done:
  assumes "0 \<le> n" "setErr env = None" "sendErr env = Some e" "dialErr env = None"
    and "parseURL env = Inr u" "Scheme u = str ''ws''" "randRead env = Inr key"
  shows "if n = 0 then Dial env opts n = Panic
    else \<exists>d. Dial env opts n = Return (Some e, d) \<and> wg d = n - 1"
  using assms
  by (auto simp: Dial_def newDialing_def abandon_def closeConn_def tracker_OnClose_def wg_Done_def buildHandshakeRequest_def
      Let_def)

section \<open>Witnesses\<close>

definition some_dial :: dial_env where
  "some_dial = \<lparr>parseURL = Inr \<lparr>Scheme = str ''ws'', Host = str ''h'', Path = [], RawQuery = []\<rparr>,
     randRead = Inr [1, 2, 3], dialErr = None, setErr = None, sendErr = None,
     deliveries = [Data None (str ''HTTP/1.1 400 Bad'' @ crlf @ str ''A: b'' @ headerEnd)]\<rparr>"


theorem dial_double_done_witness: "Dial (some_dial\<lparr>sendErr := Some (IOError 0)\<rparr>) [] 0 = Panic"
proof -
  let ?env = "some_dial\<lparr>sendErr := Some (IOError 0)\<rparr>"
  have "0 \<le> (0 :: int)" "setErr ?env = None" "sendErr ?env = Some (IOError 0)" "dialErr ?env = None"
    "parseURL ?env = Inr \<lparr>Scheme = str ''ws'', Host = str ''h'', Path = [], RawQuery = []\<rparr>"
    "Scheme \<lparr>Scheme = str ''ws'', Host = str ''h'', Path = [], RawQuery = []\<rparr> = str ''ws''" "randRead ?env = Inr [1, 2, 3]"
    by (simp_all add: some_dial_def)
  from dial_double_done [OF this, of "[]"] show ?thesis by simp
qed

end
