(* ===== verification/Sync_Objects.thy ===== *)
theory Sync_Objects
  imports Go_Base
begin

text \<open>
  Three interfaces that several components rely on: objects that are recycled through a
  \<open>sync.Pool\<close>, an \<open>atomic.Bool\<close> that is taken by compare and swap and given back by a store, and objects that a
  \<open>sync.WaitGroup\<close> counts.  Each is a locale; the components interpret it on their own definitions.
\<close>

section \<open>Recycled objects\<close>

text \<open>
  A constructor takes an object from the pool, or a new one, and sets it up; a release puts a \<open>blank\<close>
  object back.  The contract: a blank object cannot be told from a new one once it is set up.
\<close>

locale recycling =
  fixes blank :: "'o \<Rightarrow> bool"
    and acquire :: "'o list \<Rightarrow> 'o \<times> 'o list"
    and release :: "'o \<Rightarrow> 'o list \<Rightarrow> 'o list"
    and fresh :: 'o
  assumes acquire_new: "acquire [] = (fresh, [])"
    and acquire_blank: "blank x \<Longrightarrow> acquire (x # pool) = (fresh, pool)"
    and release_blank: "\<exists>x'. release x pool = x' # pool \<and> blank x'"
begin

lemma acquire_clean:
  assumes "list_all blank pool"
  obtains rest where "acquire pool = (fresh, rest)" "list_all blank rest"
  using assms acquire_new acquire_blank by (cases pool) auto

lemma release_clean: "list_all blank pool \<Longrightarrow> list_all blank (release x pool)"
  using release_blank [of x pool] by auto

text \<open>Any history of releases and acquisitions, a release being \<open>Some\<close> object in whatever state it is.\<close>

primrec history :: "'o option list \<Rightarrow> 'o list \<Rightarrow> 'o list" where
  "history [] pool = pool"
| "history (u # us) pool = history us (case u of None \<Rightarrow> snd (acquire pool) | Some x \<Rightarrow> release x pool)"

lemma history_clean: "list_all blank pool \<Longrightarrow> list_all blank (history us pool)"
proof (induction us arbitrary: pool)
  case (Cons u us)
  have "list_all blank (case u of None \<Rightarrow> snd (acquire pool) | Some x \<Rightarrow> release x pool)"
    using Cons.prems by (cases u) (auto intro: release_clean elim: acquire_clean)
  with Cons.IH show ?case by simp
qed simp

lemma acquire_after_history: "fst (acquire (history us [])) = fresh"
proof -
  have "list_all blank (history us [])" by (rule history_clean) simp
  then show ?thesis by (rule acquire_clean) simp
qed

end

section \<open>A flag that one thread holds\<close>

text \<open>One position of a list changes: how a count over the list changes.\<close>

lemma count_update:
  "i < length xs \<Longrightarrow> int (length (filter P (xs[i := x]))) =
     int (length (filter P xs)) - (if P (xs ! i) then 1 else 0) + (if P x then 1 else 0)"
proof (induction xs arbitrary: i)
  case (Cons y ys)
  show ?case
  proof (cases i)
    case (Suc k)
    then have "int (length (filter P (ys[k := x]))) =
        int (length (filter P ys)) - (if P (ys ! k) then 1 else 0) + (if P x then 1 else 0)"
      using Cons by simp
    then show ?thesis using Suc by (cases "P (ys ! k)"; cases "P x"; simp)
  qed simp
qed simp

text \<open>
  The contract of a flag: in every state of an invariant, as many threads are at a point where they hold it as
  the flag says, one or none.
\<close>

locale flag_holder =
  fixes invar :: "'s \<Rightarrow> bool"
    and threads :: "'s \<Rightarrow> 'p list"
    and holds :: "'p \<Rightarrow> bool"
    and flag :: "'s \<Rightarrow> bool"
  assumes holders: "invar s \<Longrightarrow> int (length (filter holds (threads s))) = (if flag s then 1 else 0)"
begin

lemma holder_flag:
  assumes "invar s" "i < length (threads s)" "holds (threads s ! i)"
  shows "flag s"
proof -
  have "filter holds (threads s) \<noteq> []" using assms(2,3) by (auto simp: filter_empty_conv)
  with holders [OF assms(1)] show ?thesis by (auto split: if_splits)
qed

lemma exclusive:
  assumes "invar s" "i < length (threads s)" "holds (threads s ! i)" "j < length (threads s)" "holds (threads s ! j)"
  shows "i = j"
proof -
  have "{i, j} \<subseteq> {k. k < length (threads s) \<and> holds (threads s ! k)}" using assms(2-5) by auto
  then have "card {i, j} \<le> card {k. k < length (threads s) \<and> holds (threads s ! k)}" by (intro card_mono) simp_all
  also have "\<dots> = 1" using holders [OF assms(1)] holder_flag [OF assms(1-3)] by (simp flip: length_filter_conv_card)
  finally show ?thesis by (cases "i = j") simp_all
qed

end

section \<open>Counted objects\<close>

text \<open>
  The contract between a counter and the objects it counts: an action on a good object, at a counter
  that counts the object if it is live, returns; it leaves the object good, never brings it back to life, and
  takes one from the counter exactly if the object has ceased to live.
\<close>

locale tracked =
  fixes ok :: "'c \<Rightarrow> bool"
    and live :: "'c \<Rightarrow> bool"
    and act :: "'a \<Rightarrow> int \<Rightarrow> 'c \<Rightarrow> (int \<times> 'c) outcome"
  assumes act_accounts: "ok c \<Longrightarrow> live c \<longrightarrow> 1 \<le> n \<Longrightarrow>
    \<exists>n' c'. act a n c = Return (n', c') \<and> ok c' \<and> (live c' \<longrightarrow> live c) \<and> n' = n - (if live c \<and> \<not> live c' then 1 else 0)"
begin

definition lives :: "'c list \<Rightarrow> int" where
  "lives cs = int (length (filter live cs))"

lemma lives_pos: "i < length cs \<Longrightarrow> live (cs ! i) \<Longrightarrow> 1 \<le> lives cs"
proof -
  assume "i < length cs" "live (cs ! i)"
  then have "cs ! i \<in> set (filter live cs)" by simp
  then show ?thesis unfolding lives_def by (cases "filter live cs") auto
qed

text \<open>One action on one of many objects whose living ones, and \<open>k\<close> others, the counter counts.\<close>

lemma one_act:
  assumes "list_all ok cs" "n = lives cs + int k" "i < length cs"
  shows "\<exists>n' c'. act a n (cs ! i) = Return (n', c') \<and> list_all ok (cs[i := c']) \<and> n' = lives (cs[i := c']) + int k"
proof -
  have "ok (cs ! i)" using assms(1,3) by (simp add: list_all_length)
  moreover have "live (cs ! i) \<longrightarrow> 1 \<le> n" using lives_pos [OF assms(3)] assms(2) by fastforce
  ultimately obtain n' c' where c': "act a n (cs ! i) = Return (n', c')" "ok c'" "live c' \<longrightarrow> live (cs ! i)"
    "n' = n - (if live (cs ! i) \<and> \<not> live c' then 1 else 0)" using act_accounts by blast
  have "list_all ok (cs[i := c'])"
    using assms(1) c'(2) by (auto simp: list_all_iff dest!: set_update_subset_insert [THEN subsetD])
  moreover have "n' = lives (cs[i := c']) + int k"
    using c'(3,4) assms(2) count_update [OF assms(3), of live c'] by (auto simp: lives_def)
  ultimately show ?thesis using c'(1) by blast
qed

lemma none_live: "lives cs = 0 \<longleftrightarrow> list_all (\<lambda>c. \<not> live c) cs"
  by (auto simp: lives_def filter_empty_conv list_all_iff)

end

end
