(* ===== verification/App_Context.thy ===== *)
theory App_Context
  imports Sync_Objects
begin

text \<open>
  The request context of \<open>src/pkg/appcontext/appcontext.go\<close> and its pool.  The connection, the
  parent context, the reader, the writer and the callback are values of any type \<open>'c\<close>, \<open>'p\<close>, \<open>'b\<close>,
  \<open>'f\<close> that the context only hands on; \<open>None\<close> is \<open>nil\<close>.
\<close>

record ('c, 'p, 'b, 'f) RequestContext =
  ctx_conn :: "'c option"
  ctx_req :: "'p option"
  ctx_reader :: "'b option"
  ctx_writer :: "'b option"
  ctx_remoteAddr :: bytes
  onSetReadHandler :: "'f option"

definition zero_context :: "('c, 'p, 'b, 'f) RequestContext" where
  "zero_context = \<lparr>ctx_conn = None, ctx_req = None, ctx_reader = None, ctx_writer = None,
     ctx_remoteAddr = [], onSetReadHandler = None\<rparr>"

text \<open>\<open>NewRequestContext\<close> sets four of the six fields of the object it gets from the pool.\<close>

definition NewRequestContext ::
  "('c, 'p, 'b, 'f) RequestContext list \<Rightarrow> 'c \<Rightarrow> 'p \<Rightarrow> 'b \<Rightarrow> 'b \<Rightarrow>
     ('c, 'p, 'b, 'f) RequestContext \<times> ('c, 'p, 'b, 'f) RequestContext list" where
  "NewRequestContext pool cn parent reader writer =
     (let (c, rest) = (case pool of [] \<Rightarrow> (zero_context, []) | c # cs \<Rightarrow> (c, cs)) in
      (c\<lparr>ctx_conn := Some cn, ctx_req := Some parent, ctx_reader := Some reader, ctx_writer := Some writer\<rparr>, rest))"

definition ctx_reset :: "('c, 'p, 'b, 'f) RequestContext \<Rightarrow> ('c, 'p, 'b, 'f) RequestContext" where
  "ctx_reset c = c\<lparr>ctx_conn := None, ctx_req := None, ctx_reader := None, ctx_writer := None,
     ctx_remoteAddr := [], onSetReadHandler := None\<rparr>"

definition ctx_Release ::
  "('c, 'p, 'b, 'f) RequestContext \<Rightarrow> ('c, 'p, 'b, 'f) RequestContext list \<Rightarrow> ('c, 'p, 'b, 'f) RequestContext list" where
  "ctx_Release c pool = ctx_reset c # pool"

definition SetOnSetReadHandler :: "'f \<Rightarrow> ('c, 'p, 'b, 'f) RequestContext \<Rightarrow> ('c, 'p, 'b, 'f) RequestContext" where
  "SetOnSetReadHandler cb c = c\<lparr>onSetReadHandler := Some cb\<rparr>"

definition SetRemoteAddr :: "bytes \<Rightarrow> ('c, 'p, 'b, 'f) RequestContext \<Rightarrow> ('c, 'p, 'b, 'f) RequestContext" where
  "SetRemoteAddr a c = c\<lparr>ctx_remoteAddr := a\<rparr>"

text \<open>\<open>SetReadHandler\<close> passes the handler to the callback if there is one.\<close>

definition ctx_SetReadHandler :: "('c, 'p, 'b, 'h \<Rightarrow> 's \<Rightarrow> 's) RequestContext \<Rightarrow> 'h \<Rightarrow> 's \<Rightarrow> 's" where
  "ctx_SetReadHandler c h s = (case onSetReadHandler c of None \<Rightarrow> s | Some cb \<Rightarrow> cb h s)"

text \<open>The accessors.\<close>

definition ctx_Conn :: "('c, 'p, 'b, 'f) RequestContext \<Rightarrow> 'c option" where
  "ctx_Conn c = ctx_conn c"

definition ctx_Req :: "('c, 'p, 'b, 'f) RequestContext \<Rightarrow> 'p option" where
  "ctx_Req c = ctx_req c"

definition GetReader :: "('c, 'p, 'b, 'f) RequestContext \<Rightarrow> 'b option" where
  "GetReader c = ctx_reader c"

definition GetWriter :: "('c, 'p, 'b, 'f) RequestContext \<Rightarrow> 'b option" where
  "GetWriter c = ctx_writer c"

definition ctx_RemoteAddr :: "('c, 'p, 'b, 'f) RequestContext \<Rightarrow> bytes" where
  "ctx_RemoteAddr c = ctx_remoteAddr c"

lemmas accessor_defs = ctx_Conn_def ctx_Req_def GetReader_def GetWriter_def ctx_RemoteAddr_def

section \<open>Recycled contexts\<close>

lemma ctx_reset_zero: "ctx_reset c = zero_context"
  by (cases c) (simp add: ctx_reset_def zero_context_def)

interpretation contexts: recycling "\<lambda>c. c = zero_context" "\<lambda>pool. NewRequestContext pool cn parent reader writer"
  ctx_Release "zero_context\<lparr>ctx_conn := Some cn, ctx_req := Some parent, ctx_reader := Some reader, ctx_writer := Some writer\<rparr>"
  for cn parent reader writer
  by unfold_locales (simp_all add: NewRequestContext_def ctx_Release_def ctx_reset_zero)

text \<open>
  Contexts do not leak from one request to the next.  Whatever has happened to the contexts
  before they were released, a context taken from the pool afterwards has no remote address and no
  read-handler callback but what is set on it now, although \<open>NewRequestContext\<close> does not set
  these fields; and the pool stays clean.
\<close>

theorem context_reuse_clean:
  fixes used :: "('c, 'p, 'b, 'f) RequestContext list"
  shows "let pool = fold ctx_Release used [];
             (c, rest) = NewRequestContext pool cn parent reader writer in
    c = zero_context\<lparr>ctx_conn := Some cn, ctx_req := Some parent, ctx_reader := Some reader, ctx_writer := Some writer\<rparr> \<and>
    list_all (\<lambda>c. c = zero_context) rest"
proof -
  have "list_all (\<lambda>c. c = zero_context) (fold ctx_Release used pool)" if "list_all (\<lambda>c. c = zero_context) pool" for pool
    using that by (induction used arbitrary: pool) (simp_all add: contexts.release_clean)
  from this [of "[]"] have "list_all (\<lambda>c. c = zero_context) (fold ctx_Release used [])" by simp
  then show ?thesis by (rule contexts.acquire_clean [where cn = cn and parent = parent and reader = reader and writer = writer]) simp
qed

text \<open>
  What a request sees.  After any history of the pool, the accessors of a new context give what it was made
  from, the address that was set last, and the reader and the writer each in its place; its read handler goes
  to the callback set on it, and to none before.
\<close>

theorem context_accessors:
  fixes used :: "('c, 'p, 'b, 'h \<Rightarrow> 's \<Rightarrow> 's) RequestContext list"
  assumes c: "NewRequestContext (fold ctx_Release used []) cn parent reader writer = (c, rest)"
  shows "ctx_Conn c = Some cn \<and> ctx_Req c = Some parent \<and> GetReader c = Some reader \<and> GetWriter c = Some writer \<and>
    ctx_RemoteAddr c = [] \<and> ctx_RemoteAddr (SetRemoteAddr a c) = a \<and> GetWriter (SetRemoteAddr a c) = Some writer \<and>
    ctx_SetReadHandler c h s = s \<and> ctx_SetReadHandler (SetOnSetReadHandler cb c) h s = cb h s"
proof -
  have c: "c = zero_context\<lparr>ctx_conn := Some cn, ctx_req := Some parent, ctx_reader := Some reader, ctx_writer := Some writer\<rparr>"
    using context_reuse_clean [of used cn parent reader writer] c by simp
  show ?thesis
    by (simp add: c accessor_defs zero_context_def SetRemoteAddr_def ctx_SetReadHandler_def SetOnSetReadHandler_def)
qed

end
