(* ===== verification/Hijacked_Conn.thy ===== *)
theory Hijacked_Conn
  imports Response_Writer App_Context
begin

text \<open>
  What a handler holds after \<open>Hijack\<close> in \<open>src/pkg/adaptor/adaptor.go\<close>: the connection \<open>BufferedConn\<close>, which
  reads what the engine's \<open>bufio.Reader\<close> has read ahead before it reads from the network, and the
  methods of the response writer that pass on to the context.
\<close>

section \<open>BufferedConn\<close>

text \<open>
  The bytes that the \<open>bufio.Reader\<close> holds, and the bytes still to come from the network in the segments
  in which they arrive.
\<close>

record BufferedConn =
  held :: bytes
  incoming :: "bytes list"

text \<open>
  \<open>bufio.Reader.Read\<close> with bytes in its buffer copies from the buffer only; \<open>Connection.Read\<close> copies what
  has arrived, at most one segment, and reports the end of file when nothing more comes.
\<close>

definition bufio_Read :: "nat \<Rightarrow> BufferedConn \<Rightarrow> (bytes \<times> go_error option) \<times> BufferedConn" where
  "bufio_Read n c = ((take n (held c), None), c\<lparr>held := drop n (held c)\<rparr>)"

fun net_Read :: "nat \<Rightarrow> BufferedConn \<Rightarrow> (bytes \<times> go_error option) \<times> BufferedConn" where
  "net_Read n c =
     (case incoming c of
        [] \<Rightarrow> (([], Some EOF), c)
      | seg # segs \<Rightarrow>
          ((take n seg, None), c\<lparr>incoming := (if n < length seg then drop n seg # segs else segs)\<rparr>))"

definition BufferedConn_Read :: "nat \<Rightarrow> BufferedConn \<Rightarrow> (bytes \<times> go_error option) \<times> BufferedConn" where
  "BufferedConn_Read n c = (if length (held c) > 0 then bufio_Read n c else net_Read n c)"

text \<open>Reads in sequence, into buffers of the given sizes.\<close>

fun BufferedConn_reads :: "nat list \<Rightarrow> BufferedConn \<Rightarrow> bytes \<times> BufferedConn" where
  "BufferedConn_reads [] c = ([], c)"
| "BufferedConn_reads (n # ns) c =
     (case BufferedConn_Read n c of
        ((bs, e), c) \<Rightarrow> (case BufferedConn_reads ns c of (rs, c) \<Rightarrow> (bs @ rs, c)))"

definition unread :: "BufferedConn \<Rightarrow> bytes" where
  "unread c = held c @ concat (incoming c)"

lemma BufferedConn_Read_unread:
  "BufferedConn_Read n c = ((bs, e), c') \<Longrightarrow> unread c = bs @ unread c' \<and> length bs \<le> n"
  by (cases "held c"; cases "incoming c")
    (auto simp: BufferedConn_Read_def bufio_Read_def unread_def split: if_splits)



section \<open>Methods that pass on to the context\<close>

text \<open>\<open>SetReadHandler\<close> of the writer: nothing without a context.\<close>

definition RW_SetReadHandler ::
  "ResponseWriter \<Rightarrow> ('c, 'p, 'b, 'h \<Rightarrow> 's \<Rightarrow> 's) RequestContext \<Rightarrow> 'h \<Rightarrow> 's \<Rightarrow> 's" where
  "RW_SetReadHandler w ctx h s = (if \<not> ctx_set w then s else ctx_SetReadHandler ctx h s)"

text \<open>\<open>SetReadDeadline\<close> and \<open>SetWriteDeadline\<close>: \<open>setDeadline\<close> is what the connection answers.\<close>

definition RW_SetDeadline :: "ResponseWriter \<Rightarrow> ('c, 'p, 'b, 'f) RequestContext \<Rightarrow> go_error option \<Rightarrow> go_error option" where
  "RW_SetDeadline w ctx setDeadline =
     (if \<not> ctx_set w \<or> ctx_conn ctx = None then Some (Errorf ''connection not available'') else setDeadline)"

text \<open>A handler that calls the writer in a request reaches the engine's callback; a released writer does nothing.\<close>

lemma read_handler_reaches_engine:
  assumes "rw_inv w"
  shows "RW_SetReadHandler w (SetOnSetReadHandler cb ctx) h s = cb h s"
    and "RW_SetReadHandler (hd (RW_Release w pool)) (SetOnSetReadHandler cb ctx) h s = s"
  using assms by (simp_all add: RW_SetReadHandler_def ctx_SetReadHandler_def SetOnSetReadHandler_def rw_inv_def RW_Release_def)

end
