(* ===== verification/Engine_State.thy ===== *)
theory Engine_State
  imports Sync_Objects
begin

text \<open>
  The life of a connection's state, \<open>src/pkg/engine/engine.go\<close>: the reference count, the
  \<open>Processing\<close> flag, cancellation and the return of readers and writers to their pools, with any
  number of calls of \<open>ServeConn\<close> and the disconnect running concurrently.

  Each step of the relation \<open>lstep\<close> is one atomic operation of the code (an atomic add, a compare
  and swap, a critical section under \<open>cancelMu\<close>, a store); threads interleave in any order.
\<close>

section \<open>The connection state\<close>

datatype channel = NilChan | OpenChan | ClosedChan

record ConnectionState =
  Reader :: bool
  Writer :: bool
  ReadHandler :: bool
  ReadTimeout :: int
  RemoteAddr :: bytes
  Processing :: bool
  refCount :: int
  done_chan :: channel
  err :: "go_error option"

definition zero_state :: ConnectionState where
  "zero_state = \<lparr>Reader = False, Writer = False, ReadHandler = False, ReadTimeout = 0, RemoteAddr = [],
     Processing = False, refCount = 0, done_chan = NilChan, err = None\<rparr>"

text \<open>\<open>NewConnectionState\<close> on the object it gets from the pool.\<close>

definition NewConnectionState :: "int \<Rightarrow> ConnectionState \<Rightarrow> ConnectionState" where
  "NewConnectionState readTimeout s = s\<lparr>ReadTimeout := readTimeout, refCount := 1, done_chan := OpenChan, err := None\<rparr>"

definition Reset :: "ConnectionState \<Rightarrow> ConnectionState" where
  "Reset s = s\<lparr>Reader := False, Writer := False, ReadHandler := False, Processing := False, ReadTimeout := 0,
     RemoteAddr := [], refCount := 0, done_chan := NilChan, err := None\<rparr>"

text \<open>\<open>Cancel\<close>: closing a channel that is nil or closed already panics.\<close>

definition Cancel :: "ConnectionState \<Rightarrow> ConnectionState outcome" where
  "Cancel s =
     (if err s = None then
        if done_chan s = OpenChan then Return (s\<lparr>err := Some Canceled, done_chan := ClosedChan\<rparr>) else Panic
      else Return s)"

definition AcquireConnectionState :: "ConnectionState \<Rightarrow> ConnectionState" where
  "AcquireConnectionState s = s\<lparr>refCount := refCount s + 1\<rparr>"

text \<open>
  The engine's share: how many readers and writers are out of their pools, and how often the state
  has been put back into its own pool.
\<close>

record resources =
  readersOut :: int
  writersOut :: int
  released :: nat

definition ReleaseConnectionState ::
  "ConnectionState \<times> resources \<Rightarrow> ConnectionState \<times> resources" where
  "ReleaseConnectionState = (\<lambda>(s, r).
     let s = s\<lparr>refCount := refCount s - 1\<rparr> in
     if refCount s = 0 then
       (Reset s,
        r\<lparr>readersOut := readersOut r - (if Reader s then 1 else 0),
          writersOut := writersOut r - (if Writer s then 1 else 0),
          released := Suc (released r)\<rparr>)
     else (s, r))"

text \<open>Taking a reader and a writer for the connection if it has none.\<close>

definition takeBuffers :: "ConnectionState \<times> resources \<Rightarrow> ConnectionState \<times> resources" where
  "takeBuffers = (\<lambda>(s, r).
     (s\<lparr>Reader := True, Writer := True\<rparr>,
      r\<lparr>readersOut := readersOut r + (if Reader s then 0 else 1),
        writersOut := writersOut r + (if Writer s then 0 else 1)\<rparr>))"

text \<open>
  The pool of states: \<open>NewConnectionState\<close> sets up an object from the pool, and the release of the last
  reference resets the object that goes back.
\<close>

definition acquireState :: "int \<Rightarrow> ConnectionState list \<Rightarrow> ConnectionState \<times> ConnectionState list" where
  "acquireState readTimeout pool =
     (case pool of [] \<Rightarrow> (NewConnectionState readTimeout zero_state, [])
      | s # rest \<Rightarrow> (NewConnectionState readTimeout s, rest))"

interpretation states: recycling "\<lambda>s. s = zero_state" "acquireState readTimeout" "\<lambda>s pool. Reset s # pool"
  "NewConnectionState readTimeout zero_state" for readTimeout
  by unfold_locales (simp_all add: acquireState_def Reset_def zero_state_def)

section \<open>Threads\<close>

text \<open>
  Where a call of \<open>ServeConn\<close> stands: not running, holding its reference, past the compare and swap,
  serving, waiting for the end of a hijacked connection, past the store of the double check, and about to
  run its deferred release.
\<close>

datatype pc = Idle | Acquired | Won | Serving | Parked | Rechecking | Leaving

text \<open>Where the connection stands: in use, cancelled by \<open>OnDisconnect\<close>, and let go of.\<close>

datatype phase = Connected | Cancelled | Gone

record life =
  cs :: ConnectionState
  res :: resources
  owner :: phase
  pcs :: "pc list"
  crashed :: bool

definition set_pc :: "nat \<Rightarrow> pc \<Rightarrow> life \<Rightarrow> life" where
  "set_pc i p l = l\<lparr>pcs := (pcs l)[i := p]\<rparr>"

definition set_cs :: "ConnectionState \<Rightarrow> life \<Rightarrow> life" where
  "set_cs s l = l\<lparr>cs := s\<rparr>"

definition release :: "life \<Rightarrow> life" where
  "release l = (case ReleaseConnectionState (cs l, res l) of (s, r) \<Rightarrow> l\<lparr>cs := s, res := r\<rparr>)"

definition at_pc :: "life \<Rightarrow> nat \<Rightarrow> pc \<Rightarrow> bool" where
  "at_pc l i p \<longleftrightarrow> i < length (pcs l) \<and> pcs l ! i = p"

text \<open>
  The atomic steps.  A call of \<open>ServeConn\<close> is made by netpoll for a request on a connection that has
  not been disconnected; \<open>OnDisconnect\<close> is called once.
\<close>

inductive lstep :: "life \<Rightarrow> life \<Rightarrow> bool" where
  enter: "at_pc l i Idle \<Longrightarrow> owner l = Connected \<Longrightarrow>
    lstep l (set_pc i Acquired (set_cs (AcquireConnectionState (cs l)) l))"
| cas_win: "at_pc l i Acquired \<Longrightarrow> \<not> Processing (cs l) \<Longrightarrow>
    lstep l (set_pc i Won (set_cs ((cs l)\<lparr>Processing := True\<rparr>) l))"
| take: "at_pc l i Won \<Longrightarrow>
    lstep l (set_pc i Serving (l\<lparr>cs := fst (takeBuffers (cs l, res l)), res := snd (takeBuffers (cs l, res l))\<rparr>))"
| cas_lose: "at_pc l i Acquired \<Longrightarrow> Processing (cs l) \<Longrightarrow> lstep l (set_pc i Leaving l)"
| finish: "at_pc l i Serving \<Longrightarrow> lstep l (set_pc i Leaving (set_cs ((cs l)\<lparr>Processing := False\<rparr>) l))"
| set_handler: "at_pc l i Serving \<Longrightarrow> lstep l (set_cs ((cs l)\<lparr>ReadHandler := True\<rparr>) l)"
| set_addr: "at_pc l i Serving \<Longrightarrow> lstep l (set_cs ((cs l)\<lparr>RemoteAddr := a\<rparr>) l)"
| park: "at_pc l i Serving \<Longrightarrow> lstep l (set_pc i Parked l)"
| unpark: "at_pc l i Parked \<Longrightarrow> done_chan (cs l) = ClosedChan \<Longrightarrow>
    lstep l (set_pc i Leaving (set_cs ((cs l)\<lparr>Processing := False\<rparr>) l))"
| yield: "at_pc l i Serving \<Longrightarrow> lstep l (set_pc i Rechecking (set_cs ((cs l)\<lparr>Processing := False\<rparr>) l))"
| retake: "at_pc l i Rechecking \<Longrightarrow> \<not> Processing (cs l) \<Longrightarrow>
    lstep l (set_pc i Serving (set_cs ((cs l)\<lparr>Processing := True\<rparr>) l))"
| give_up: "at_pc l i Rechecking \<Longrightarrow> lstep l (set_pc i Leaving l)"
| leave: "at_pc l i Leaving \<Longrightarrow> lstep l (set_pc i Idle (release l))"
| cancel: "owner l = Connected \<Longrightarrow>
    lstep l (case Cancel (cs l) of Return s \<Rightarrow> (set_cs s l)\<lparr>owner := Cancelled\<rparr> | _ \<Rightarrow> l\<lparr>crashed := True\<rparr>)"
| disconnect: "owner l = Cancelled \<Longrightarrow> lstep l ((release l)\<lparr>owner := Gone\<rparr>)"

definition prepared_life :: "nat \<Rightarrow> int \<Rightarrow> life" where
  "prepared_life n readTimeout =
     \<lparr>cs = NewConnectionState readTimeout zero_state, res = \<lparr>readersOut = 0, writersOut = 0, released = 0\<rparr>,
      owner = Connected, pcs = replicate n Idle, crashed = False\<rparr>"

inductive reachable :: "life \<Rightarrow> bool" where
  start: "reachable (prepared_life n readTimeout)"
| step: "reachable l \<Longrightarrow> lstep l l' \<Longrightarrow> reachable l'"

section \<open>The invariant\<close>

fun holds_flag :: "pc \<Rightarrow> bool" where
  "holds_flag Won = True"
| "holds_flag Serving = True"
| "holds_flag Parked = True"
| "holds_flag _ = False"

definition cnt :: "(pc \<Rightarrow> bool) \<Rightarrow> life \<Rightarrow> int" where
  "cnt P l = int (length (filter P (pcs l)))"

text \<open>The references that are held: one for the connection and one for each call that is running.\<close>

definition refs :: "life \<Rightarrow> int" where
  "refs l = (if owner l = Gone then 0 else 1) + cnt (\<lambda>p. p \<noteq> Idle) l"

definition life_inv :: "life \<Rightarrow> bool" where
  "life_inv l \<longleftrightarrow>
     refCount (cs l) = refs l \<and>
     released (res l) = (if refs l = 0 then 1 else 0) \<and>
     cnt holds_flag l = (if Processing (cs l) then 1 else 0) \<and>
     \<not> crashed l \<and>
     (owner l = Connected \<longrightarrow> err (cs l) = None \<and> done_chan (cs l) = OpenChan) \<and>
     (owner l \<noteq> Connected \<and> refs l \<noteq> 0 \<longrightarrow> err (cs l) = Some Canceled \<and> done_chan (cs l) = ClosedChan) \<and>
     readersOut (res l) = (if Reader (cs l) then 1 else 0) \<and>
     writersOut (res l) = (if Writer (cs l) then 1 else 0) \<and>
     (refs l = 0 \<longrightarrow> cs l = zero_state)"

text \<open>\<open>Processing\<close> is a flag that one call at a time holds.\<close>

interpretation processing: flag_holder life_inv pcs holds_flag "\<lambda>l. Processing (cs l)"
  by unfold_locales (simp add: life_inv_def cnt_def)

lemma at_pc_flag: "life_inv l \<Longrightarrow> at_pc l i p \<Longrightarrow> holds_flag p \<Longrightarrow> Processing (cs l)"
  by (auto simp: at_pc_def intro: processing.holder_flag)

lemma cnt_set_pc: "at_pc l i q \<Longrightarrow> cnt P (set_pc i p l) = cnt P l - (if P q then 1 else 0) + (if P p then 1 else 0)"
  by (auto simp: cnt_def set_pc_def at_pc_def count_update)

lemma cnt_pos: "at_pc l i q \<Longrightarrow> P q \<Longrightarrow> 1 \<le> cnt P l"
proof -
  assume "at_pc l i q" "P q"
  then have "q \<in> set (filter P (pcs l))" by (auto simp: at_pc_def)
  then show ?thesis unfolding cnt_def by (cases "filter P (pcs l)") auto
qed

lemma cnt_nonneg: "0 \<le> cnt P l"
  by (simp add: cnt_def)

text \<open>Only the program counters and the owner count for the references.\<close>

lemma cnt_cong: "pcs l' = pcs l \<Longrightarrow> cnt P l' = cnt P l"
  by (simp add: cnt_def)

lemma set_pc_fields [simp]:
  "cs (set_pc i p l) = cs l" "res (set_pc i p l) = res l" "owner (set_pc i p l) = owner l"
  "crashed (set_pc i p l) = crashed l"
  by (simp_all add: set_pc_def)

lemma set_cs_fields [simp]:
  "cs (set_cs s l) = s" "res (set_cs s l) = res l" "owner (set_cs s l) = owner l" "pcs (set_cs s l) = pcs l"
  "crashed (set_cs s l) = crashed l"
  by (simp_all add: set_cs_def)

lemma at_pc_cong: "pcs l' = pcs l \<Longrightarrow> at_pc l' i p = at_pc l i p"
  by (simp add: at_pc_def)

text \<open>A step of a running call that changes neither the references nor the flags of others.\<close>

lemma refs_set_pc:
  assumes "at_pc l i q"
  shows "refs (set_pc i p l) = refs l - (if q \<noteq> Idle then 1 else 0) + (if p \<noteq> Idle then 1 else 0)"
  using cnt_set_pc [OF assms, of "\<lambda>p. p \<noteq> Idle" p] by (simp add: refs_def)

lemma refs_pos: "at_pc l i q \<Longrightarrow> q \<noteq> Idle \<Longrightarrow> 1 \<le> refs l"
  using cnt_pos [of l i q "\<lambda>p. p \<noteq> Idle"] by (simp add: refs_def)

lemma refs_pos_owner: "owner l \<noteq> Gone \<Longrightarrow> 1 \<le> refs l"
  using cnt_nonneg [of "\<lambda>p. p \<noteq> Idle" l] by (simp add: refs_def)

lemma refs_cong: "pcs l' = pcs l \<Longrightarrow> owner l' = owner l \<Longrightarrow> refs l' = refs l"
  by (simp add: refs_def cnt_def)

text \<open>Giving a reference back: the last one resets the state and returns what it held.\<close>

lemma release_eq:
  "release l = (if refCount (cs l) = 1
     then l\<lparr>cs := zero_state,
            res := (res l)\<lparr>readersOut := readersOut (res l) - (if Reader (cs l) then 1 else 0),
              writersOut := writersOut (res l) - (if Writer (cs l) then 1 else 0),
              released := Suc (released (res l))\<rparr>\<rparr>
     else l\<lparr>cs := (cs l)\<lparr>refCount := refCount (cs l) - 1\<rparr>\<rparr>)"
proof -
  have "Reset (s\<lparr>refCount := n\<rparr>) = zero_state" for s n by (simp add: Reset_def zero_state_def)
  then show ?thesis by (simp add: release_def ReleaseConnectionState_def Let_def)
qed

lemma life_inv_start: "life_inv (prepared_life n readTimeout)"
proof -
  have "filter P (replicate n Idle) = (if P Idle then replicate n Idle else [])" for P by simp
  then show ?thesis
    by (simp add: life_inv_def prepared_life_def NewConnectionState_def refs_def cnt_def zero_state_def)
qed

text \<open>A running call moves on and changes at most the flag and the handler.\<close>

lemma life_inv_move:
  assumes inv: "life_inv l" and at: "at_pc l i q" and pc: "q \<noteq> Idle" "p \<noteq> Idle"
    and s: "s = (cs l)\<lparr>Processing := f, ReadHandler := r\<rparr>"
    and flag: "(if f then 1 else 0 :: int) =
      (if Processing (cs l) then 1 else 0) - (if holds_flag q then 1 else 0) + (if holds_flag p then 1 else 0)"
  shows "life_inv (set_pc i p (set_cs s l))"
proof -
  let ?l = "set_pc i p (set_cs s l)"
  have at': "at_pc (set_cs s l) i q" using at by (simp add: at_pc_def)
  have refs: "refs ?l = refs l"
    using refs_set_pc [OF at', of p] pc by (simp add: refs_cong [of "set_cs s l" l])
  have flags: "cnt holds_flag ?l = (if f then 1 else 0)"
    using cnt_set_pc [OF at', of holds_flag p] inv flag by (simp add: cnt_cong [of "set_cs s l" l] life_inv_def)
  have "refs l \<noteq> 0" using refs_pos [OF at pc(1)] by simp
  with inv refs flags s show ?thesis by (auto simp: life_inv_def)
qed

lemma life_inv_move_same:
  assumes "life_inv l" "at_pc l i q" "q \<noteq> Idle" "p \<noteq> Idle" "holds_flag p = holds_flag q"
  shows "life_inv (set_pc i p l)"
proof -
  have same: "set_cs (cs l) l = l" by (simp add: set_cs_def)
  have "life_inv (set_pc i p (set_cs (cs l) l))"
    using assms(5) by (intro life_inv_move [OF assms(1-4), where f = "Processing (cs l)" and r = "ReadHandler (cs l)"]) simp_all
  then show ?thesis unfolding same .
qed

text \<open>A reference is given back by somebody who holds one and does not hold the flag.\<close>

lemma life_inv_release:
  assumes inv: "life_inv l" and l': "cs l' = cs (release l)" "res l' = res (release l)" "crashed l' = crashed l"
    and refs: "refs l' = refs l - 1" and flag: "cnt holds_flag l' = cnt holds_flag l"
    and own: "owner l' = Connected \<longrightarrow> owner l = Connected" "owner l = Connected \<longrightarrow> owner l' = Connected"
  shows "life_inv l'"
proof (cases "refs l = 1")
  case True
  then have r: "refCount (cs l) = 1" "refs l' = 0" using inv refs by (simp_all add: life_inv_def)
  have "cnt holds_flag l' \<le> cnt (\<lambda>p. p \<noteq> Idle) l'"
    unfolding cnt_def by (induction "pcs l'") (auto simp: length_filter_conv_card intro!: card_mono)
  moreover have "cnt (\<lambda>p. p \<noteq> Idle) l' = 0" "owner l' = Gone"
    using r(2) cnt_nonneg [of "\<lambda>p. p \<noteq> Idle" l'] by (auto simp: refs_def split: if_splits)
  ultimately have "cnt holds_flag l' = 0" using cnt_nonneg [of holds_flag l'] by simp
  with inv True r l' \<open>owner l' = Gone\<close> show ?thesis
    by (auto simp: life_inv_def release_eq zero_state_def)
next
  case False
  then have "refCount (cs l) \<noteq> 1" "refs l' \<noteq> 0" "refs l \<noteq> 0 \<or> True" using inv refs by (auto simp: life_inv_def)
  moreover have "0 \<le> refs l'" using cnt_nonneg [of "\<lambda>p. p \<noteq> Idle" l'] by (simp add: refs_def)
  ultimately show ?thesis using inv l' refs flag own by (auto simp: life_inv_def release_eq)
qed

lemma life_inv_step:
  assumes inv: "life_inv l" and step: "lstep l l'"
  shows "life_inv l'"
  using step
proof cases
  case (enter i)
  let ?s = "AcquireConnectionState (cs l)"
  have at: "at_pc (set_cs ?s l) i Idle" using enter(2) by (simp add: at_pc_def)
  have "refs l' = refs l + 1"
    using refs_set_pc [OF at, of Acquired] enter(1) by (simp add: refs_cong [of "set_cs ?s l" l])
  moreover have "cnt holds_flag l' = cnt holds_flag l"
    using cnt_set_pc [OF at, of holds_flag Acquired] enter(1) by (simp add: cnt_cong [of "set_cs ?s l" l])
  moreover have "1 \<le> refs l" using refs_pos_owner [of l] enter(3) by simp
  ultimately show ?thesis using inv enter(1,3) by (auto simp: life_inv_def AcquireConnectionState_def)
next
  case (cas_win i)
  with inv life_inv_move [OF inv cas_win(2), where p = Won and f = True and r = "ReadHandler (cs l)" and s = "(cs l)\<lparr>Processing := True\<rparr>"]
  show ?thesis by simp
next
  case (take i)
  let ?t = "takeBuffers (cs l, res l)"
  let ?m = "l\<lparr>cs := fst ?t, res := snd ?t\<rparr>"
  have m: "life_inv ?m"
  proof -
    have "refs ?m = refs l" "cnt holds_flag ?m = cnt holds_flag l" by (simp_all add: refs_def cnt_def)
    moreover have "refs l \<noteq> 0" using refs_pos [OF take(2)] by simp
    ultimately show ?thesis using inv by (auto simp: life_inv_def takeBuffers_def)
  qed
  have "at_pc ?m i Won" using take(2) by (simp add: at_pc_def)
  from life_inv_move_same [OF m this, of Serving] take(1) show ?thesis by simp
next
  case (cas_lose i)
  with life_inv_move_same [OF inv cas_lose(2), of Leaving] show ?thesis by simp
next
  case (finish i)
  have "Processing (cs l)" using at_pc_flag [OF inv finish(2)] by simp
  with finish life_inv_move [OF inv finish(2), where p = Leaving and f = False and r = "ReadHandler (cs l)" and s = "(cs l)\<lparr>Processing := False\<rparr>"]
  show ?thesis by simp
next
  case (set_handler i)
  have "refs l' = refs l" "cnt holds_flag l' = cnt holds_flag l" using set_handler(1) by (simp_all add: refs_def cnt_def)
  moreover have "refs l \<noteq> 0" using refs_pos [OF set_handler(2)] by simp
  ultimately show ?thesis using inv set_handler(1) by (auto simp: life_inv_def)
next
  case (set_addr i a)
  have "refs l' = refs l" "cnt holds_flag l' = cnt holds_flag l" using set_addr(1) by (simp_all add: refs_def cnt_def)
  moreover have "refs l \<noteq> 0" using refs_pos [OF set_addr(2)] by simp
  ultimately show ?thesis using inv set_addr(1) by (auto simp: life_inv_def)
next
  case (park i)
  with life_inv_move_same [OF inv park(2), of Parked] show ?thesis by simp
next
  case (unpark i)
  have "Processing (cs l)" using at_pc_flag [OF inv unpark(2)] by simp
  with unpark life_inv_move [OF inv unpark(2), where p = Leaving and f = False and r = "ReadHandler (cs l)" and s = "(cs l)\<lparr>Processing := False\<rparr>"]
  show ?thesis by simp
next
  case (yield i)
  have "Processing (cs l)" using at_pc_flag [OF inv yield(2)] by simp
  with yield life_inv_move [OF inv yield(2), where p = Rechecking and f = False and r = "ReadHandler (cs l)" and s = "(cs l)\<lparr>Processing := False\<rparr>"]
  show ?thesis by simp
next
  case (retake i)
  with inv life_inv_move [OF inv retake(2), where p = Serving and f = True and r = "ReadHandler (cs l)" and s = "(cs l)\<lparr>Processing := True\<rparr>"]
  show ?thesis by simp
next
  case (give_up i)
  with life_inv_move_same [OF inv give_up(2), of Leaving] show ?thesis by simp
next
  case (leave i)
  have pcs: "pcs (release l) = pcs l" "owner (release l) = owner l" "crashed (release l) = crashed l"
    by (simp_all add: release_eq)
  then have at: "at_pc (release l) i Leaving" using leave(2) by (simp add: at_pc_def)
  have "refs l' = refs l - 1"
    using refs_set_pc [OF at, of Idle] leave(1) by (simp add: refs_cong [OF pcs(1,2)])
  moreover have "cnt holds_flag l' = cnt holds_flag l"
    using cnt_set_pc [OF at, of holds_flag Idle] leave(1) by (simp add: cnt_cong [OF pcs(1)])
  ultimately show ?thesis using leave(1) pcs by (intro life_inv_release [OF inv]) simp_all
next
  case cancel
  have c: "err (cs l) = None" "done_chan (cs l) = OpenChan" using inv cancel(2) by (auto simp: life_inv_def)
  then have l': "l' = (set_cs ((cs l)\<lparr>err := Some Canceled, done_chan := ClosedChan\<rparr>) l)\<lparr>owner := Cancelled\<rparr>"
    using cancel(1) by (simp add: Cancel_def)
  have "refs l' = refs l" "cnt holds_flag l' = cnt holds_flag l" using cancel(2) l' by (simp_all add: refs_def cnt_def)
  moreover have "refs l \<noteq> 0" using refs_pos_owner [of l] cancel(2) by simp
  ultimately show ?thesis using inv l' by (auto simp: life_inv_def)
next
  case disconnect
  have pcs: "pcs (release l) = pcs l" by (simp add: release_eq)
  have "refs l' = refs l - 1" "cnt holds_flag l' = cnt holds_flag l"
    using disconnect pcs by (simp_all add: refs_def cnt_def)
  then show ?thesis using disconnect by (intro life_inv_release [OF inv]) (simp_all add: release_eq)
qed

lemma reachable_inv: "reachable l \<Longrightarrow> life_inv l"
  by (induction rule: reachable.induct) (auto intro: life_inv_start life_inv_step)

section \<open>Properties\<close>




section \<open>Witnesses\<close>

lemma some_reachable:
  "reachable (set_pc 0 Won (set_cs ((cs (set_pc 0 Acquired (set_cs (AcquireConnectionState (cs (prepared_life 2 10)))
      (prepared_life 2 10))))\<lparr>Processing := True\<rparr>)
    (set_pc 0 Acquired (set_cs (AcquireConnectionState (cs (prepared_life 2 10))) (prepared_life 2 10)))))"
proof -
  let ?l0 = "prepared_life 2 10"
  let ?l1 = "set_pc 0 Acquired (set_cs (AcquireConnectionState (cs ?l0)) ?l0)"
  have "lstep ?l0 ?l1" by (rule lstep.enter) (simp_all add: at_pc_def prepared_life_def)
  with reachable.start have r1: "reachable ?l1" by (rule reachable.step)
  have "lstep ?l1 (set_pc 0 Won (set_cs ((cs ?l1)\<lparr>Processing := True\<rparr>) ?l1))"
    by (rule lstep.cas_win)
      (simp_all add: at_pc_def set_pc_def prepared_life_def AcquireConnectionState_def NewConnectionState_def zero_state_def)
  with r1 show ?thesis by (rule reachable.step)
qed




end
