(* ===== verification/Engine_Serve.thy ===== *)
theory Engine_Serve
  imports Hijacked_Conn Engine_State
begin

text \<open>
  Serving HTTP on a connection, \<open>src/pkg/engine/engine.go\<close>: the test whether a request is there,
  \<open>handleRequest\<close>, the loop of \<open>serveHTTP\<close> and \<open>ServeConn\<close> around it.

  \<open>http.ReadRequest\<close>, netpoll and the handler are parameters: what they answer in a round of the
  loop is the record \<open>round\<close>.
\<close>

section \<open>The engine\<close>

record Engine =
  requestTimeout :: int
  maxDrainSize :: int
  bufferSize :: int

definition MaxDrainSize :: int where
  "MaxDrainSize = 64 * 1024"

datatype engine_option = WithRequestTimeout int | WithMaxDrainSize int | WithBufferSize int

fun apply_option :: "engine_option \<Rightarrow> Engine \<Rightarrow> Engine" where
  "apply_option (WithRequestTimeout d) e = e\<lparr>requestTimeout := d\<rparr>"
| "apply_option (WithMaxDrainSize n) e = e\<lparr>maxDrainSize := n\<rparr>"
| "apply_option (WithBufferSize n) e = e\<lparr>bufferSize := n\<rparr>"

definition NewEngine :: "engine_option list \<Rightarrow> Engine" where
  "NewEngine opts = fold apply_option opts \<lparr>requestTimeout = 0, maxDrainSize = MaxDrainSize, bufferSize = 4096\<rparr>"

section \<open>Is there a request?\<close>

definition namesField :: "bytes \<Rightarrow> bytes \<Rightarrow> bool" where
  "namesField line name \<longleftrightarrow> length line \<ge> length name \<and> EqualFold (take (length name) line) name"

definition shouldBypassFullRequestCheck :: "bytes \<Rightarrow> bool" where
  "shouldBypassFullRequestCheck peekBuf =
     (case Index peekBuf headerEnd of
        None \<Rightarrow> False
      | Some headerEndIdx \<Rightarrow>
          if headerEndIdx > MaxHeaderSize then False
          else
            let headers = take headerEndIdx peekBuf in
            (case Index headers crlf of
               None \<Rightarrow> False
             | Some idx \<Rightarrow>
                 list_all (\<lambda>line. \<not> namesField line (str ''Content-Length:'') \<and>
                     \<not> namesField line (str ''Transfer-Encoding:''))
                   (header_lines (drop (idx + 2) headers))))"

datatype ready = Serve | Wait | Reject

text \<open>
  The test at the top of the loop: \<open>buffered\<close> is what the connection's \<open>bufio.Reader\<close> holds and
  \<open>reader\<close> what netpoll holds (\<open>None\<close> when it has no reader); at first only 256 bytes are looked at.
\<close>

definition requestReady :: "nat \<Rightarrow> bytes option \<Rightarrow> ready" where
  "requestReady buffered reader =
     (if buffered \<noteq> 0 then Serve
      else
        case reader of
          None \<Rightarrow> Serve
        | Some data \<Rightarrow>
            if data = [] then Wait
            else
              let peekBuf = take 256 data in
              if shouldBypassFullRequestCheck peekBuf then Serve
              else
                let check = CheckRequest peekBuf;
                    check = (if \<not> Complete check \<and> Error check = None \<and> length peekBuf < length data
                             then CheckRequest data else check) in
                if Error check \<noteq> None then Reject
                else if \<not> Complete check then Wait
                else Serve)"

section \<open>One request\<close>

record request =
  hasBody :: bool
  Close :: bool
  connectionHeader :: bytes
  requestAddr :: bytes

text \<open>\<open>GetRequest\<close>: the remote address of the context, or of the connection if there is none.\<close>

definition GetRequest :: "go_error + request \<Rightarrow> bytes \<Rightarrow> bytes option \<Rightarrow> go_error + request" where
  "GetRequest readRequest remoteAddr connAddr =
     (case readRequest of
        Inl e \<Rightarrow> Inl e
      | Inr req \<Rightarrow>
          Inr (if remoteAddr \<noteq> [] then req\<lparr>requestAddr := remoteAddr\<rparr>
               else case connAddr of None \<Rightarrow> req | Some a \<Rightarrow> req\<lparr>requestAddr := a\<rparr>))"

text \<open>
  \<open>handleRequest\<close>: the handler's calls on the response writer and whether it ends with a panic.  The
  writer's own methods never panic, so that a panic to recover from is the handler's.
\<close>

definition handleRequest ::
  "http_env \<Rightarrow> go_error + request \<Rightarrow> (request \<Rightarrow> rw_op list \<times> bool) \<Rightarrow> ResponseWriter list \<times> sink \<Rightarrow>
     ((go_error + request \<times> bool) \<times> ResponseWriter list \<times> sink) outcome" where
  "handleRequest env getRequest handler = (\<lambda>(rwPool, s).
     case getRequest of
       Inl e \<Rightarrow> Return (Inl e, rwPool, s)
     | Inr req \<Rightarrow>
         let (w, rwPool) = NewResponseWriter rwPool; (ops, panicked) = handler req in
         bind_outcome (run_ops env ops (w, s)) (\<lambda>(w, s).
         if panicked then
           bind_outcome
             (if \<not> headerSent w then EndResponse env (RW_WriteHeader StatusInternalServerError w, s)
              else Return (None, w, s)) (\<lambda>(_, w, s).
           Return (Inl (Errorf ''handler panicked''), RW_Release w rwPool, s))
         else
           bind_outcome (EndResponse env (w, s)) (\<lambda>(err, w, s).
           Return (case err of Some e \<Rightarrow> Inl e | None \<Rightarrow> Inr (req, hijacked w), RW_Release w rwPool, s))))"

section \<open>The loop\<close>

record round =
  isActive :: bool
  buffered :: nat
  reader :: "bytes option"
  connAddr :: "bytes option"
  readRequest :: "go_error + request"
  setsHandler :: bool
  drained :: int
  bufferedAfter :: nat
  lenAfter :: "nat option"
  casWins :: bool

datatype conn_event = ConnClose | ClearDeadlines | DrainBody | WaitDone | RestoreTimeout int

record serving =
  sv_processing :: bool
  sv_handler :: bool
  sv_addr :: bytes
  sv_timeout :: int
  sv_pool :: "ResponseWriter list"
  sv_sink :: sink
  sv_log :: "conn_event list"

definition note_event :: "conn_event \<Rightarrow> serving \<Rightarrow> serving" where
  "note_event e st = st\<lparr>sv_log := sv_log st @ [e]\<rparr>"

text \<open>\<open>state.Processing.Store(false); return\<close>.\<close>

definition leave_loop :: "serving \<Rightarrow> bool \<times> serving" where
  "leave_loop st = (False, st\<lparr>sv_processing := False\<rparr>)"

text \<open>What follows a request that was answered: the first component says whether the loop goes on.\<close>

definition afterRequest :: "Engine \<Rightarrow> round \<Rightarrow> request \<Rightarrow> serving \<Rightarrow> bool \<times> serving" where
  "afterRequest e rd req st =
     (let (req, st) =
        (if hasBody req
         then (if drained rd > maxDrainSize e then req\<lparr>Close := True\<rparr> else req, note_event DrainBody st)
         else (req, st)) in
      if Close req \<or> connectionHeader req = str ''close'' then leave_loop (note_event ConnClose st)
      else
        let st = note_event ClearDeadlines st;
            st = (if sv_timeout st > 0 then note_event (RestoreTimeout (sv_timeout st)) st else st) in
        if bufferedAfter rd > 0 then (True, st)
        else
          let st = st\<lparr>sv_processing := False\<rparr>;
              hasData = (bufferedAfter rd > 0 \<or> (case lenAfter rd of None \<Rightarrow> False | Some n \<Rightarrow> n > 0)) in
          if hasData \<and> casWins rd then (True, st\<lparr>sv_processing := True\<rparr>) else (False, st))"

text \<open>The address of the connection is looked up once.\<close>

definition noteAddr :: "round \<Rightarrow> serving \<Rightarrow> serving" where
  "noteAddr rd st =
     (if sv_addr st = [] then (case connAddr rd of None \<Rightarrow> st | Some a \<Rightarrow> st\<lparr>sv_addr := a\<rparr>) else st)"

text \<open>What the loop makes of the result of \<open>handleRequest\<close>.\<close>

definition afterHandle ::
  "Engine \<Rightarrow> round \<Rightarrow> go_error + request \<times> bool \<Rightarrow> serving \<Rightarrow> bool \<times> serving" where
  "afterHandle e rd r st =
     (case r of
        Inl er \<Rightarrow> leave_loop (if er \<noteq> EOF then note_event ConnClose st else st)
      | Inr (req, hij) \<Rightarrow>
          if hij then
            let st = note_event ClearDeadlines st in
            if sv_handler st then leave_loop st else leave_loop (note_event WaitDone st)
          else afterRequest e rd req st)"

definition httpRound ::
  "Engine \<Rightarrow> http_env \<Rightarrow> (request \<Rightarrow> rw_op list \<times> bool) \<Rightarrow> round \<Rightarrow> serving \<Rightarrow> (bool \<times> serving) outcome" where
  "httpRound e env handler rd st =
     (if \<not> isActive rd then Return (leave_loop st)
      else
        case requestReady (buffered rd) (reader rd) of
          Reject \<Rightarrow> Return (leave_loop (note_event ConnClose st))
        | Wait \<Rightarrow> Return (leave_loop st)
        | Serve \<Rightarrow>
            let st = noteAddr rd st in
            bind_outcome (handleRequest env (GetRequest (readRequest rd) (sv_addr st) (connAddr rd)) handler
                (sv_pool st, sv_sink st)) (\<lambda>(r, pool, s).
            Return (afterHandle e rd r
              (st\<lparr>sv_pool := pool, sv_sink := s, sv_handler := sv_handler st \<or> setsHandler rd\<rparr>))))"

text \<open>The loop over the rounds of a call; the rounds are its fuel.\<close>

fun serveHTTP ::
  "Engine \<Rightarrow> http_env \<Rightarrow> (request \<Rightarrow> rw_op list \<times> bool) \<Rightarrow> round list \<Rightarrow> serving \<Rightarrow> serving outcome" where
  "serveHTTP e env handler [] st = NoFuel"
| "serveHTTP e env handler (rd # rds) st =
     bind_outcome (httpRound e env handler rd st) (\<lambda>(again, st).
     if again then serveHTTP e env handler rds st else Return st)"

section \<open>The two-stage test is the test of all bytes\<close>

lemma namesField_headerNamed: "headerNamed line name \<Longrightarrow> namesField line name"
  by (simp add: headerNamed_def namesField_def)

lemma scanHeaders_none:
  "list_all (\<lambda>line. \<not> namesField line headerCL \<and> \<not> namesField line headerTE) ls \<Longrightarrow>
     scanHeaders ls cl ch = Inr (cl, ch)"
  by (induction ls cl ch rule: scanHeaders.induct) (auto dest: namesField_headerNamed)

lemma bypass_complete:
  assumes "shouldBypassFullRequestCheck d"
  obtains i where "Index d headerEnd = Some i" "CheckRequest d = complete (int (i + 4))"
proof -
  from assms obtain i idx where i: "Index d headerEnd = Some i" "i \<le> MaxHeaderSize"
    "Index (take i d) crlf = Some idx"
    "list_all (\<lambda>line. \<not> namesField line headerCL \<and> \<not> namesField line headerTE)
       (header_lines (drop (idx + 2) (take i d)))"
    by (auto simp: shouldBypassFullRequestCheck_def headerCL_def headerTE_def Let_def split: option.splits if_splits)
  from scanHeaders_none [OF i(4)] i(3) have "CheckRequest d = complete (int (i + 4))"
    by (simp add: CheckRequest_found [OF i(1,2)])
  with i(1) show thesis by (rule that)
qed

lemma chunkStep_Bad_append:
  assumes "chunkStep body off = Bad e"
  shows "chunkStep (body @ x) off = Bad e"
proof -
  from assms obtain idx where idx: "Index (drop off body) crlf = Some idx"
    and bad: "parseHexInt (chunkSizeField (take idx (drop off body))) = Inl e \<or>
      (\<exists>c. parseHexInt (chunkSizeField (take idx (drop off body))) = Inr c \<and> c \<noteq> 0 \<and> c > maxInt - 2 \<and> e = ErrRange)"
    by (auto simp: chunkStep_def Let_def split: option.splits sum.splits if_splits)
  have b: "idx + 2 \<le> length body - off" using Index_bound [OF idx] by simp
  have "drop off (body @ x) = drop off body @ x" using b by (cases "off \<le> length body") auto
  then have "Index (drop off (body @ x)) crlf = Some idx" "take idx (drop off (body @ x)) = take idx (drop off body)"
    using Index_append [OF idx, of x] b by simp_all
  with bad show ?thesis by (auto simp: chunkStep_def Let_def)
qed

lemma chunkLoop_append:
  assumes "chunkLoop sep body off \<noteq> incomplete"
  shows "chunkLoop sep (body @ x) off = chunkLoop sep body off"
  using assms
proof (induction sep body off rule: chunkLoop.induct)
  case (1 sep body off)
  show ?case
  proof (cases "chunkStep body off")
    case NeedMore
    with 1 show ?thesis by (simp add: chunkLoop.simps [of sep body off])
  next
    case (Bad e)
    then show ?thesis
      using chunkStep_Bad_append [OF Bad, of x]
      by (simp add: chunkLoop.simps [of sep body off] chunkLoop.simps [of sep "body @ x" off])
  next
    case (Last e)
    then have "chunkStep (body @ x) off = Last e"
      using chunkStep_Last [OF Last] by (intro chunkStep_Last_cong [OF Last]) simp
    with Last show ?thesis
      by (simp add: chunkLoop.simps [of sep body off] chunkLoop.simps [of sep "body @ x" off])
  next
    case (Skip o')
    then have "chunkStep (body @ x) off = Skip o'"
      using chunkStep_Skip [OF Skip] by (intro chunkStep_Skip_cong [OF Skip]) simp
    moreover have "chunkLoop sep (body @ x) o' = chunkLoop sep body o'"
      using 1 Skip by (simp add: chunkLoop.simps [of sep body off])
    ultimately show ?thesis
      using Skip by (simp add: chunkLoop.simps [of sep body off] chunkLoop.simps [of sep "body @ x" off])
  qed
qed

text \<open>A decision made on few enough bytes stands whatever comes after them.\<close>

lemma CheckRequest_append:
  assumes "CheckRequest d \<noteq> incomplete" "length d \<le> MaxHeaderSize"
  shows "CheckRequest (d @ x) = CheckRequest d"
proof -
  from assms obtain i where i: "Index d headerEnd = Some i"
    by (cases "Index d headerEnd") (auto simp: CheckRequest_def)
  have b: "i + 4 \<le> length d" using Index_bound [OF i] by simp
  then have le: "i \<le> MaxHeaderSize" using assms(2) by simp
  note i' = Index_append [OF i, of x]
  have hd: "take i (d @ x) = take i d" "drop (i + 4) (d @ x) = drop (i + 4) d @ x" using b by simp_all
  show ?thesis
    using assms(1) chunkLoop_append [of "i + 4" "drop (i + 4) d" 0 x]
    unfolding CheckRequest_found [OF i le] CheckRequest_found [OF i' le] hd
    by (auto split: option.splits sum.splits if_splits)
qed


text \<open>The three kinds of answers.\<close>

definition is_answer :: "CheckResult \<Rightarrow> bool" where
  "is_answer r \<longleftrightarrow> r = incomplete \<or> (\<exists>e. r = rejected e) \<or> (\<exists>n. r = complete n)"

lemma is_answer_simps [simp]: "is_answer incomplete" "is_answer (rejected e)" "is_answer (complete n)"
  by (simp_all add: is_answer_def)

lemma chunkLoop_answer: "is_answer (chunkLoop sep body off)"
proof (induction sep body off rule: chunkLoop.induct)
  case (1 sep body off)
  then show ?case by (cases "chunkStep body off") (simp_all add: chunkLoop.simps [of sep body off])
qed

lemma CheckRequest_answer: "is_answer (CheckRequest d)"
proof (cases "Index d headerEnd")
  case None
  then show ?thesis by (simp add: CheckRequest_def)
next
  case (Some i)
  show ?thesis
  proof (cases "i \<le> MaxHeaderSize")
    case False
    with Some show ?thesis by (simp add: CheckRequest_def)
  next
    case True
    note eq = CheckRequest_found [OF Some True]
    show ?thesis
    proof (cases "Index (take i d) crlf")
      case None
      then show ?thesis by (simp add: eq)
    next
      case idx: (Some idx)
      show ?thesis
        by (cases "scanHeaders (header_lines (drop (idx + 2) (take i d))) (-1) False")
          (auto simp: eq idx chunkLoop_answer)
    qed
  qed
qed

text \<open>The verdict on a result, as the loop takes it.\<close>

definition verdict :: "CheckResult \<Rightarrow> ready" where
  "verdict c = (if Error c \<noteq> None then Reject else if Complete c then Serve else Wait)"

lemma requestReady_peek:
  "d \<noteq> [] \<Longrightarrow> requestReady 0 (Some d) =
     (if shouldBypassFullRequestCheck (take 256 d) then Serve
      else verdict (if \<not> Complete (CheckRequest (take 256 d)) \<and> Error (CheckRequest (take 256 d)) = None \<and>
          length (take 256 d) < length d then CheckRequest d else CheckRequest (take 256 d)))"
  unfolding requestReady_def Let_def verdict_def by (simp only: option.case if_False simp_thms if_not_P) simp

lemma requestReady_full: "requestReady n (Some d) = (if n \<noteq> 0 then Serve else if d = [] then Wait else verdict (CheckRequest d))"
proof (cases "n \<noteq> 0 \<or> d = []")
  case False
  then have n: "n = 0" "d \<noteq> []" by simp_all
  define p where "p = take 256 d"
  have len: "length p \<le> MaxHeaderSize" by (simp add: p_def MaxHeaderSize_def)
  have stable: "CheckRequest d = CheckRequest p" if "CheckRequest p \<noteq> incomplete"
    using CheckRequest_append [OF that len, of "drop 256 d"] by (simp add: p_def)
  note eq = requestReady_peek [OF n(2), folded p_def]
  consider "shouldBypassFullRequestCheck p" | "\<not> shouldBypassFullRequestCheck p" "CheckRequest p = incomplete"
    | "\<not> shouldBypassFullRequestCheck p" "CheckRequest p \<noteq> incomplete" by blast
  then have "requestReady 0 (Some d) = verdict (CheckRequest d)"
  proof cases
    case 1
    then obtain i where "CheckRequest p = complete (int (i + 4))" by (rule bypass_complete)
    with stable have "CheckRequest d = complete (int (i + 4))" by simp
    with 1 show ?thesis by (simp add: eq verdict_def)
  next
    case 2
    have "p = d" if "\<not> length p < length d" using that by (simp add: p_def)
    with 2 show ?thesis unfolding eq by auto
  next
    case 3
    have "Complete (CheckRequest p) \<or> Error (CheckRequest p) \<noteq> None"
      using 3(2) CheckRequest_answer [of p] by (auto simp: is_answer_def)
    with 3 stable show ?thesis unfolding eq by auto
  qed
  with n show ?thesis by simp
qed (elim disjE; simp add: requestReady_def)

section \<open>The call as a whole\<close>

text \<open>
  \<open>ServeConn\<close>, when no other call runs beside it: \<open>state\<close> is \<open>None\<close> when the context has no connection
  state, and \<open>onData\<close> is what the connection's read handler does when it is called (its error, or a
  panic).  The reference is released and the flag stored by deferred calls on every path.
\<close>

record conn_call =
  cc_state :: ConnectionState
  cc_res :: resources
  cc_pool :: "ResponseWriter list"
  cc_sink :: sink
  cc_log :: "conn_event list"

definition releaseCall :: "conn_call \<Rightarrow> conn_call" where
  "releaseCall c =
     (case ReleaseConnectionState (cc_state c, cc_res c) of (s, r) \<Rightarrow> c\<lparr>cc_state := s, cc_res := r\<rparr>)"

definition callReadHandler :: "go_error option outcome \<Rightarrow> conn_call \<Rightarrow> conn_call" where
  "callReadHandler onData c =
     (let c = (case onData of Return None \<Rightarrow> c | _ \<Rightarrow> c\<lparr>cc_log := cc_log c @ [ConnClose]\<rparr>) in
      c\<lparr>cc_state := (cc_state c)\<lparr>Processing := False\<rparr>\<rparr>)"

definition servingOf :: "conn_call \<Rightarrow> serving" where
  "servingOf c = \<lparr>sv_processing = Processing (cc_state c), sv_handler = ReadHandler (cc_state c),
     sv_addr = RemoteAddr (cc_state c), sv_timeout = ReadTimeout (cc_state c), sv_pool = cc_pool c,
     sv_sink = cc_sink c, sv_log = cc_log c\<rparr>"

definition storeServing :: "serving \<Rightarrow> conn_call \<Rightarrow> conn_call" where
  "storeServing st c =
     c\<lparr>cc_state := (cc_state c)\<lparr>Processing := sv_processing st, ReadHandler := sv_handler st, RemoteAddr := sv_addr st\<rparr>,
       cc_pool := sv_pool st, cc_sink := sv_sink st, cc_log := sv_log st\<rparr>"

definition EngineServeConn ::
  "Engine \<Rightarrow> http_env \<Rightarrow> (request \<Rightarrow> rw_op list \<times> bool) \<Rightarrow> go_error option outcome \<Rightarrow> round list \<Rightarrow> bool \<Rightarrow> conn_call \<Rightarrow>
     (go_error option \<times> conn_call) outcome" where
  "EngineServeConn e env handler onData rds hasState c =
     (if \<not> hasState then Return (Some (Errorf ''connection state not found''), c)
      else
        let c = c\<lparr>cc_state := AcquireConnectionState (cc_state c)\<rparr> in
        if Processing (cc_state c) then Return (None, releaseCall c)
        else
          let c = c\<lparr>cc_state := (cc_state c)\<lparr>Processing := True\<rparr>\<rparr>;
              (s, r) = takeBuffers (cc_state c, cc_res c);
              c = c\<lparr>cc_state := s, cc_res := r\<rparr> in
          if ReadHandler (cc_state c) then Return (None, releaseCall (callReadHandler onData c))
          else
            bind_outcome (serveHTTP e env handler rds (servingOf c)) (\<lambda>st.
            Return (None, releaseCall (storeServing st c))))"

section \<open>Every round returns and settles the flag\<close>

lemma handleRequest_returns:
  "\<exists>r pool' s'. handleRequest env g handler (pool, s) = Return (r, pool', s')"
proof (cases g)
  case (Inr req)
  obtain ops panicked where h: "handler req = (ops, panicked)" by (cases "handler req")
  obtain w pool1 where w: "NewResponseWriter pool = (w, pool1)" by (cases "NewResponseWriter pool")
  then have inv: "rw_inv w" using NewResponseWriter_inv [of pool] by simp
  obtain w1 s1 where w1: "run_ops env ops (w, s) = Return (w1, s1)" "rw_inv w1"
    using run_ops_returns [OF inv] by blast
  have "rw_inv (RW_WriteHeader code w1)" for code using w1(2) by (auto simp: RW_WriteHeader_def rw_inv_def)
  note fin = EndResponse_returns [OF this, of StatusInternalServerError env s1] EndResponse_returns [OF w1(2), of env s1]
  then show ?thesis using Inr h w w1(1) by (fastforce simp: handleRequest_def returns_def)
qed (simp add: handleRequest_def)

lemma note_event_fields [simp]:
  "sv_processing (note_event ev st) = sv_processing st" "sv_handler (note_event ev st) = sv_handler st"
  "sv_addr (note_event ev st) = sv_addr st" "sv_timeout (note_event ev st) = sv_timeout st"
  "sv_pool (note_event ev st) = sv_pool st" "sv_sink (note_event ev st) = sv_sink st"
  "sv_log (note_event ev st) = sv_log st @ [ev]"
  by (simp_all add: note_event_def)

lemma leave_loop_simps [simp]: "fst (leave_loop st) = False" "sv_processing (snd (leave_loop st)) = False"
  by (simp_all add: leave_loop_def)

text \<open>The flag is held exactly as long as the loop goes on.\<close>

lemma afterRequest_flag:
  "sv_processing st \<Longrightarrow> afterRequest e rd req st = (again, st') \<Longrightarrow> sv_processing st' = again"
  by (auto simp: afterRequest_def leave_loop_def Let_def split: if_splits option.splits)

lemma afterHandle_flag:
  "sv_processing st \<Longrightarrow> afterHandle e rd r st = (again, st') \<Longrightarrow> sv_processing st' = again"
  by (auto simp: afterHandle_def leave_loop_def Let_def dest: afterRequest_flag split: sum.splits prod.splits if_splits)

lemma noteAddr_fields [simp]:
  "sv_processing (noteAddr rd st) = sv_processing st" "sv_handler (noteAddr rd st) = sv_handler st"
  "sv_timeout (noteAddr rd st) = sv_timeout st" "sv_pool (noteAddr rd st) = sv_pool st"
  "sv_sink (noteAddr rd st) = sv_sink st" "sv_log (noteAddr rd st) = sv_log st"
  by (simp_all add: noteAddr_def split: option.split)

lemma httpRound_returns:
  assumes "sv_processing st"
  shows "\<exists>again st'. httpRound e env handler rd st = Return (again, st') \<and> sv_processing st' = again"
proof (cases "isActive rd \<and> requestReady (buffered rd) (reader rd) = Serve")
  case False
  then show ?thesis
    by (cases "requestReady (buffered rd) (reader rd)") (auto simp: httpRound_def leave_loop_def)
next
  case True
  let ?st = "noteAddr rd st"
  obtain r pool s where h: "handleRequest env (GetRequest (readRequest rd) (sv_addr ?st) (connAddr rd)) handler
      (sv_pool ?st, sv_sink ?st) = Return (r, pool, s)"
    using handleRequest_returns by blast
  let ?st2 = "?st\<lparr>sv_pool := pool, sv_sink := s, sv_handler := sv_handler ?st \<or> setsHandler rd\<rparr>"
  obtain again st' where "afterHandle e rd r ?st2 = (again, st')" by (cases "afterHandle e rd r ?st2")
  with afterHandle_flag [OF _ this] assms True h show ?thesis
    by (auto simp: httpRound_def Let_def)
qed

lemma serveHTTP_settles:
  assumes "sv_processing st" "\<exists>rd \<in> set rds. \<not> isActive rd"
  shows "\<exists>st'. serveHTTP e env handler rds st = Return st' \<and> \<not> sv_processing st'"
  using assms
proof (induction rds arbitrary: st)
  case (Cons rd rds)
  obtain again st' where r: "httpRound e env handler rd st = Return (again, st')" "sv_processing st' = again"
    using httpRound_returns [OF Cons.prems(1)] by blast
  show ?case
  proof (cases again)
    case True
    then have "isActive rd" using r(1) by (cases "isActive rd") (auto simp: httpRound_def leave_loop_def)
    with Cons True r show ?thesis by simp
  next
    case False
    with r show ?thesis by simp
  qed
qed simp

section \<open>What a connection sees\<close>

text \<open>Recycled writers have empty headers, so that each request gets the same fresh writer.\<close>

definition clean_writer :: "ResponseWriter \<Rightarrow> bool" where
  "clean_writer w \<longleftrightarrow> header w = [] \<and> trailer w = []"

abbreviation clean_pool :: "ResponseWriter list \<Rightarrow> bool" where
  "clean_pool \<equiv> list_all clean_writer"

definition fresh_writer :: ResponseWriter where
  "fresh_writer = fst (NewResponseWriter [])"

interpretation writers: recycling clean_writer NewResponseWriter RW_Release fresh_writer
  by unfold_locales (auto simp: fresh_writer_def NewResponseWriter_def clean_writer_def zero_writer_def RW_Release_def)

lemma fresh_writer_state [simp]: "rw_inv fresh_writer" "\<not> hijacked fresh_writer" "\<not> headerSent fresh_writer"
  "trailer fresh_writer = []" "header fresh_writer = []"
  by (simp_all add: fresh_writer_def NewResponseWriter_def zero_writer_def rw_inv_def)

text \<open>The bytes of the response to a handler's calls.\<close>

definition responseBytes :: "http_env \<Rightarrow> rw_op list \<Rightarrow> bytes" where
  "responseBytes env ops =
     (let wh = headWriter env ops fresh_writer in
      headBytes env wh @ encodeBody (usesChunks wh) (concat (map bodyPieces ops)) @
      bodyEnd (usesChunks wh) (lastTrailer ops []))"

lemma forget_keeps:
  "returns w r \<Longrightarrow> rw_inv w \<Longrightarrow> \<not> hijacked w \<Longrightarrow> \<exists>w' s'. forget r = Return (w', s') \<and> rw_inv w' \<and> \<not> hijacked w'"
  by (auto simp: returns_def forget_def rw_inv_def)

lemma rw_inv_update [simp]:
  "rw_inv (w\<lparr>header := h\<rparr>) = rw_inv w" "rw_inv (w\<lparr>trailer := h\<rparr>) = rw_inv w" "rw_inv (w\<lparr>statusCode := c\<rparr>) = rw_inv w"
  by (simp_all add: rw_inv_def)

lemma finished_hijacked:
  "finished env ops (w, s) = Return (None, w', s') \<Longrightarrow> DoHijack \<notin> set ops \<Longrightarrow> rw_inv w \<Longrightarrow> \<not> hijacked w \<Longrightarrow> \<not> hijacked w'"
proof (induction ops arbitrary: w s)
  case Nil
  from EndResponse_returns [OF Nil.prems(3), of env s] Nil show ?case by (auto simp: returns_def finished_def)
next
  case (Cons op ops)
  have "\<exists>w1 s1. run_op env op (w, s) = Return (w1, s1) \<and> rw_inv w1 \<and> \<not> hijacked w1"
    using Cons.prems(2-4)
    by (cases op) (auto simp: WriteString_eq RW_WriteHeader_def intro: forget_keeps [simplified] Write_returns ReadFrom_returns Flush_returns)
  then obtain w1 s1 where r: "run_op env op (w, s) = Return (w1, s1)" "rw_inv w1" "\<not> hijacked w1" by blast
  then have "finished env ops (w1, s1) = Return (None, w', s')" using Cons.prems(1) by (simp add: finished_def)
  with Cons.IH [OF this] Cons.prems(2) r show ?case by simp
qed

lemma handleRequest_reliable:
  assumes "reliable env" "copyFrom env = None" "sticky s = None" "clean_pool pool"
    and "handler req = (ops, False)" "DoHijack \<notin> set ops"
  obtains pool' s' where "handleRequest env (Inr req) handler (pool, s) = Return (Inr (req, False), pool', s')"
    "clean_pool pool'" "took s (responseBytes env ops) s'" "flushed s' = length (accepted s')"
proof -
  obtain rest where w: "NewResponseWriter pool = (fresh_writer, rest)" "clean_pool rest"
    using writers.acquire_clean [OF assms(4)] .
  obtain w' s' where f: "finished env ops (fresh_writer, s) = Return (None, w', s')" "flushed s' = length (accepted s')"
    "took s (responseBytes env ops) s'"
    using finished_reliable [OF assms(1-3), of fresh_writer ops] assms(6) by (auto simp: responseBytes_def Let_def)
  have "\<not> hijacked w'" using finished_hijacked [OF f(1) assms(6)] by simp
  with f(1) w assms(5) have "handleRequest env (Inr req) handler (pool, s) = Return (Inr (req, False), RW_Release w' rest, s')"
    by (auto simp: handleRequest_def finished_def bind_outcome_Return)
  from that [OF this writers.release_clean [OF w(2)] f(3,2)] show thesis .
qed

text \<open>
  A round that answers a request on a connection with address \<open>addr\<close>: the handler neither panics nor
  hijacks.
\<close>

definition answers :: "(request \<Rightarrow> rw_op list \<times> bool) \<Rightarrow> bytes \<Rightarrow> round \<Rightarrow> bool" where
  "answers handler addr rd \<longleftrightarrow>
     isActive rd \<and> requestReady (buffered rd) (reader rd) = Serve \<and> connAddr rd = Some addr \<and>
     (case readRequest rd of
        Inl e \<Rightarrow> False
      | Inr req \<Rightarrow> (case handler (req\<lparr>requestAddr := addr\<rparr>) of (ops, panicked) \<Rightarrow> \<not> panicked \<and> DoHijack \<notin> set ops))"

definition opsOf :: "(request \<Rightarrow> rw_op list \<times> bool) \<Rightarrow> bytes \<Rightarrow> round \<Rightarrow> rw_op list" where
  "opsOf handler addr rd = (case readRequest rd of Inl e \<Rightarrow> [] | Inr req \<Rightarrow> fst (handler (req\<lparr>requestAddr := addr\<rparr>)))"

text \<open>The client wants the connection closed, or has left too much of a body unread.\<close>

definition closing :: "Engine \<Rightarrow> round \<Rightarrow> request \<Rightarrow> bool" where
  "closing e rd req \<longleftrightarrow>
     Close req \<or> connectionHeader req = str ''close'' \<or> hasBody req \<and> drained rd > maxDrainSize e"

definition closes :: "Engine \<Rightarrow> round \<Rightarrow> bool" where
  "closes e rd \<longleftrightarrow> (case readRequest rd of Inl er \<Rightarrow> False | Inr req \<Rightarrow> closing e rd req)"

definition moreData :: "round \<Rightarrow> bool" where
  "moreData rd \<longleftrightarrow> bufferedAfter rd > 0 \<or> (case lenAfter rd of None \<Rightarrow> False | Some n \<Rightarrow> n > 0) \<and> casWins rd"

lemma afterRequest_eq:
  assumes "sv_processing st"
  obtains log where "afterRequest e rd req st =
      (\<not> closing e rd req \<and> moreData rd,
       st\<lparr>sv_processing := \<not> closing e rd req \<and> moreData rd, sv_log := sv_log st @ log\<rparr>)"
    "ConnClose \<in> set log \<longleftrightarrow> closing e rd req"
proof -
  define r where "r = (if hasBody req \<and> drained rd > maxDrainSize e then req\<lparr>Close := True\<rparr> else req)"
  define log where "log = (if hasBody req then [DrainBody] else []) @
    (if closing e rd req then [ConnClose] else ClearDeadlines # (if sv_timeout st > 0 then [RestoreTimeout (sv_timeout st)] else []))"
  have "Close r \<or> connectionHeader r = str ''close'' \<longleftrightarrow> closing e rd req" by (auto simp: r_def closing_def)
  then have "afterRequest e rd req st =
      (\<not> closing e rd req \<and> moreData rd, st\<lparr>sv_processing := \<not> closing e rd req \<and> moreData rd, sv_log := sv_log st @ log\<rparr>)"
    using assms
    by (auto simp: afterRequest_def Let_def r_def log_def closing_def moreData_def leave_loop_def note_event_def split: option.splits)
  moreover have "ConnClose \<in> set log \<longleftrightarrow> closing e rd req" by (auto simp: log_def)
  ultimately show thesis by (rule that)
qed

text \<open>The state between two requests of a connection that works.\<close>

definition between :: "bytes \<Rightarrow> serving \<Rightarrow> bool" where
  "between addr st \<longleftrightarrow> (sv_addr st = [] \<or> sv_addr st = addr) \<and> clean_pool (sv_pool st) \<and> sticky (sv_sink st) = None"

lemma httpRound_answers:
  assumes env: "reliable env" "copyFrom env = None" and st: "sv_processing st" "between addr st"
    and ans: "answers handler addr rd"
  obtains st' log where "httpRound e env handler rd st = Return (\<not> closes e rd \<and> moreData rd, st')"
    "sv_processing st' \<longleftrightarrow> \<not> closes e rd \<and> moreData rd" "between addr st'"
    "took (sv_sink st) (responseBytes env (opsOf handler addr rd)) (sv_sink st')"
    "flushed (sv_sink st') = length (accepted (sv_sink st'))"
    "sv_log st' = sv_log st @ log" "ConnClose \<in> set log \<longleftrightarrow> closes e rd"
proof -
  obtain req ops where rd: "isActive rd" "requestReady (buffered rd) (reader rd) = Serve" "connAddr rd = Some addr"
    "readRequest rd = Inr req" "handler (req\<lparr>requestAddr := addr\<rparr>) = (ops, False)" "DoHijack \<notin> set ops"
    using ans by (auto simp: answers_def split: sum.splits prod.splits)
  let ?st = "noteAddr rd st" and ?req = "req\<lparr>requestAddr := addr\<rparr>"
  have addr: "sv_addr ?st = [] \<or> sv_addr ?st = addr" "GetRequest (readRequest rd) (sv_addr ?st) (connAddr rd) = Inr ?req"
    using st(2) rd(3,4) by (auto simp: between_def noteAddr_def GetRequest_def)
  obtain pool s where h: "handleRequest env (Inr ?req) handler (sv_pool st, sv_sink st) = Return (Inr (?req, False), pool, s)"
    "clean_pool pool" "took (sv_sink st) (responseBytes env ops) s" "flushed s = length (accepted s)"
    using handleRequest_reliable [of env "sv_sink st" "sv_pool st" handler ?req ops] env st(2) rd(5,6)
    by (auto simp: between_def)
  let ?st2 = "?st\<lparr>sv_pool := pool, sv_sink := s, sv_handler := sv_handler ?st \<or> setsHandler rd\<rparr>"
  obtain log where after: "afterRequest e rd ?req ?st2 =
      (\<not> closing e rd ?req \<and> moreData rd,
       ?st2\<lparr>sv_processing := \<not> closing e rd ?req \<and> moreData rd, sv_log := sv_log ?st2 @ log\<rparr>)"
    "ConnClose \<in> set log \<longleftrightarrow> closing e rd ?req"
    by (rule afterRequest_eq [of ?st2 e rd ?req]) (simp add: st(1))
  have cl: "closing e rd ?req = closes e rd" using rd(4) by (simp add: closes_def closing_def)
  have "httpRound e env handler rd st = Return (afterRequest e rd ?req ?st2)"
    using rd(1,2) h(1) addr(2) by (simp add: httpRound_def afterHandle_def Let_def)
  moreover have "opsOf handler addr rd = ops" using rd(4,5) by (simp add: opsOf_def)
  ultimately show thesis
    using after cl h addr(1) by (intro that) (auto simp: between_def took_def)
qed

lemma serveHTTP_answers:
  assumes env: "reliable env" "copyFrom env = None"
  shows "sv_processing st \<Longrightarrow> between addr st \<Longrightarrow> list_all (answers handler addr) (rds @ [final]) \<Longrightarrow>
    list_all (\<lambda>rd. \<not> closes e rd \<and> moreData rd) rds \<Longrightarrow> \<not> (\<not> closes e final \<and> moreData final) \<Longrightarrow>
    \<exists>st' log. serveHTTP e env handler (rds @ [final]) st = Return st' \<and> \<not> sv_processing st' \<and>
      accepted (sv_sink st') =
        accepted (sv_sink st) @ concat (map (\<lambda>rd. responseBytes env (opsOf handler addr rd)) (rds @ [final])) \<and>
      flushed (sv_sink st') = length (accepted (sv_sink st')) \<and>
      sv_log st' = sv_log st @ log \<and> (ConnClose \<in> set log \<longleftrightarrow> closes e final)"
proof (induction rds arbitrary: st)
  case Nil
  from Nil.prems(3) have "answers handler addr final" by simp
  with env Nil.prems(1,2) obtain st' log where
    "httpRound e env handler final st = Return (\<not> closes e final \<and> moreData final, st')"
    "sv_processing st' \<longleftrightarrow> \<not> closes e final \<and> moreData final"
    "took (sv_sink st) (responseBytes env (opsOf handler addr final)) (sv_sink st')"
    "flushed (sv_sink st') = length (accepted (sv_sink st'))"
    "sv_log st' = sv_log st @ log" "ConnClose \<in> set log \<longleftrightarrow> closes e final"
    by (rule httpRound_answers)
  with Nil.prems(5) show ?case by (simp add: took_def)
next
  case (Cons rd rds)
  from Cons.prems(3) have "answers handler addr rd" by simp
  with env Cons.prems(1,2) obtain st1 log1 where
    "httpRound e env handler rd st = Return (\<not> closes e rd \<and> moreData rd, st1)"
    "sv_processing st1 \<longleftrightarrow> \<not> closes e rd \<and> moreData rd" "between addr st1"
    "took (sv_sink st) (responseBytes env (opsOf handler addr rd)) (sv_sink st1)"
    "sv_log st1 = sv_log st @ log1" "ConnClose \<in> set log1 \<longleftrightarrow> closes e rd"
    by (rule httpRound_answers)
  with Cons.prems(4) have r: "httpRound e env handler rd st = Return (True, st1)" "sv_processing st1" "between addr st1"
    "took (sv_sink st) (responseBytes env (opsOf handler addr rd)) (sv_sink st1)"
    "sv_log st1 = sv_log st @ log1" "ConnClose \<notin> set log1"
    by simp_all
  from Cons.IH [OF r(2,3)] Cons.prems(3-5) obtain st' log where
    i: "serveHTTP e env handler (rds @ [final]) st1 = Return st'" "\<not> sv_processing st'"
      "accepted (sv_sink st') =
        accepted (sv_sink st1) @ concat (map (\<lambda>rd. responseBytes env (opsOf handler addr rd)) (rds @ [final]))"
      "flushed (sv_sink st') = length (accepted (sv_sink st'))"
      "sv_log st' = sv_log st1 @ log" "ConnClose \<in> set log \<longleftrightarrow> closes e final" by auto
  show ?case
    by (rule exI [of _ st'], rule exI [of _ "log1 @ log"]) (use r i in \<open>simp add: took_def\<close>)
qed

section \<open>Properties\<close>

text \<open>
  C14: the fast path decides like the slow one.  Looking at the first 256 bytes first, and letting a
  request without a body pass without the full check, gives the decision that the check of all bytes
  gives, on every input.
\<close>

theorem request_ready_equiv:
  "requestReady 0 (Some d) =
     (if d = [] then Wait
      else if Error (CheckRequest d) \<noteq> None then Reject
      else if Complete (CheckRequest d) then Serve
      else Wait)"
  by (simp add: requestReady_full verdict_def)

text \<open>
  C2: requests on a connection are answered one by one.  On a connection that works, as long as
  handlers neither panic nor hijack, a call of \<open>serveHTTP\<close> sends the responses to its requests in
  their order and nothing else, each as a writer with empty headers produces it (nothing is left of the
  request before, although writers are recycled), flushes them, clears the flag, and closes the
  connection exactly if the last request asks for it or leaves too much of its body unread.
\<close>

theorem serve_http_answers_in_order:
  assumes "reliable env" "copyFrom env = None" "sv_processing st" "between addr st"
    and "list_all (answers handler addr) (rds @ [final])"
    and "list_all (\<lambda>rd. \<not> closes e rd \<and> moreData rd) rds" "closes e final \<or> \<not> moreData final"
  shows "\<exists>st' log. serveHTTP e env handler (rds @ [final]) st = Return st' \<and> \<not> sv_processing st' \<and>
    accepted (sv_sink st') =
      accepted (sv_sink st) @ concat (map (\<lambda>rd. responseBytes env (opsOf handler addr rd)) (rds @ [final])) \<and>
    flushed (sv_sink st') = length (accepted (sv_sink st')) \<and>
    sv_log st' = sv_log st @ log \<and> (ConnClose \<in> set log \<longleftrightarrow> closes e final)"
  using serveHTTP_answers [OF assms(1-6)] assms(7) by blast



section \<open>A call is a run of atomic steps\<close>

lemma serveHTTP_flag:
  "sv_processing st \<Longrightarrow> serveHTTP e env handler rds st = Return st' \<Longrightarrow> \<not> sv_processing st'"
proof (induction rds arbitrary: st)
  case (Cons rd rds)
  obtain again st1 where r: "httpRound e env handler rd st = Return (again, st1)" "sv_processing st1 = again"
    using httpRound_returns [OF Cons.prems(1)] by blast
  with Cons show ?case by (cases again) auto
qed simp

lemma at_pc_update: "at_pc l i p \<Longrightarrow> (pcs l)[i := p] = pcs l"
  by (metis at_pc_def list_update_id)

text \<open>The states that a call leaves behind, seen as part of the state that concurrent calls share.\<close>

definition shares :: "life \<Rightarrow> conn_call \<Rightarrow> bool" where
  "shares l c \<longleftrightarrow> cs l = cc_state c \<and> res l = cc_res c"

lemma leaving_run:
  assumes "at_pc l i Leaving" "shares l c"
  obtains l' where "lstep l l'" "shares l' (releaseCall c)" "pcs l' = (pcs l)[i := Idle]" "owner l' = owner l"
proof -
  have "shares (set_pc i Idle (release l)) (releaseCall c)"
    using assms(2) by (auto simp: shares_def release_def releaseCall_def set_pc_def split: prod.split)
  moreover have "pcs (set_pc i Idle (release l)) = (pcs l)[i := Idle]" "owner (set_pc i Idle (release l)) = owner l"
    by (simp_all add: set_pc_def release_def split: prod.split)
  ultimately show thesis using that lstep.leave [OF assms(1)] by blast
qed

text \<open>From serving to the end of a call that leaves the given handler and address behind.\<close>

lemma serving_run:
  assumes at: "at_pc l i Serving" and h: "ReadHandler (cs l) \<longrightarrow> hd_set"
  obtains l' where "lstep\<^sup>*\<^sup>* l l'" "at_pc l' i Leaving"
    "cs l' = (cs l)\<lparr>Processing := False, ReadHandler := hd_set, RemoteAddr := a\<rparr>" "res l' = res l"
    "pcs l' = (pcs l)[i := Leaving]" "owner l' = owner l"
proof -
  define l1 where "l1 = (if ReadHandler (cs l) = hd_set then l else set_cs ((cs l)\<lparr>ReadHandler := True\<rparr>) l)"
  have "lstep\<^sup>*\<^sup>* l l1" using lstep.set_handler [OF at] by (auto simp: l1_def)
  moreover have l1: "at_pc l1 i Serving" "cs l1 = (cs l)\<lparr>ReadHandler := hd_set\<rparr>" "res l1 = res l" "pcs l1 = pcs l" "owner l1 = owner l"
    using at h by (auto simp: l1_def at_pc_def)
  let ?l2 = "set_cs ((cs l1)\<lparr>RemoteAddr := a\<rparr>) l1"
  have "lstep l1 ?l2" by (rule lstep.set_addr [OF l1(1)])
  moreover have at2: "at_pc ?l2 i Serving" using l1(1) by (simp add: at_pc_def)
  let ?l3 = "set_pc i Leaving (set_cs ((cs ?l2)\<lparr>Processing := False\<rparr>) ?l2)"
  have "lstep ?l2 ?l3" by (rule lstep.finish [OF at2])
  ultimately have "lstep\<^sup>*\<^sup>* l ?l3" by (meson rtranclp.rtrancl_into_rtrancl)
  moreover have "at_pc ?l3 i Leaving" using at2 by (simp add: at_pc_def set_pc_def)
  ultimately show thesis using l1 by (intro that [of ?l3]) (simp_all add: set_pc_def)
qed

text \<open>From the start of a call to the point where it serves.\<close>

lemma entering_run:
  assumes "at_pc l i Idle" "owner l = Connected" "\<not> Processing (cs l)"
  obtains l' where "lstep\<^sup>*\<^sup>* l l'" "at_pc l' i Serving"
    "(cs l', res l') = takeBuffers ((AcquireConnectionState (cs l))\<lparr>Processing := True\<rparr>, res l)"
    "pcs l' = (pcs l)[i := Serving]" "owner l' = owner l"
proof -
  let ?l1 = "set_pc i Acquired (set_cs (AcquireConnectionState (cs l)) l)"
  have s1: "lstep l ?l1" by (rule lstep.enter [OF assms(1,2)])
  have a1: "at_pc ?l1 i Acquired" "\<not> Processing (cs ?l1)"
    using assms(1,3) by (simp_all add: at_pc_def set_pc_def AcquireConnectionState_def)
  let ?l2 = "set_pc i Won (set_cs ((cs ?l1)\<lparr>Processing := True\<rparr>) ?l1)"
  have s2: "lstep ?l1 ?l2" by (rule lstep.cas_win [OF a1])
  have a2: "at_pc ?l2 i Won" using assms(1) by (simp add: at_pc_def set_pc_def)
  let ?l3 = "set_pc i Serving (?l2\<lparr>cs := fst (takeBuffers (cs ?l2, res ?l2)), res := snd (takeBuffers (cs ?l2, res ?l2))\<rparr>)"
  have s3: "lstep ?l2 ?l3" by (rule lstep.take [OF a2])
  have "lstep\<^sup>*\<^sup>* l ?l3" using s1 s2 s3 by (meson rtranclp.rtrancl_refl rtranclp.rtrancl_into_rtrancl)
  moreover have "at_pc ?l3 i Serving" using assms(1) by (simp add: at_pc_def set_pc_def)
  ultimately show thesis by (intro that [of ?l3]) (simp_all add: set_pc_def)
qed

text \<open>A call that has won the flag, after its reader and writer are there.\<close>

lemma EngineServeConn_working:
  assumes "\<not> Processing (cc_state c)"
    and "takeBuffers ((AcquireConnectionState (cc_state c))\<lparr>Processing := True\<rparr>, cc_res c) = (s, r)"
  shows "EngineServeConn e env handler onData rds True c =
    (let c1 = c\<lparr>cc_state := s, cc_res := r\<rparr> in
     if ReadHandler s then Return (None, releaseCall (callReadHandler onData c1))
     else bind_outcome (serveHTTP e env handler rds (servingOf c1)) (\<lambda>st. Return (None, releaseCall (storeServing st c1))))"
proof -
  have "\<not> Processing (AcquireConnectionState (cc_state c))" using assms(1) by (simp add: AcquireConnectionState_def)
  then show ?thesis using assms(2) by (simp add: EngineServeConn_def)
qed

lemma EngineServeConn_settles:
  assumes "EngineServeConn e env handler onData rds True c = Return (ret, c')" "\<not> Processing (cc_state c)"
    and "takeBuffers ((AcquireConnectionState (cc_state c))\<lparr>Processing := True\<rparr>, cc_res c) = (s, r)"
  obtains c2 b a where "ret = None" "c' = releaseCall c2" "cc_res c2 = r" "ReadHandler s \<longrightarrow> b"
    "cc_state c2 = s\<lparr>Processing := False, ReadHandler := b, RemoteAddr := a\<rparr>"
proof (cases "ReadHandler s")
  case True
  let ?c2 = "callReadHandler onData (c\<lparr>cc_state := s, cc_res := r\<rparr>)"
  have "cc_res ?c2 = r" "cc_state ?c2 = s\<lparr>Processing := False\<rparr>"
    by (simp_all add: callReadHandler_def Let_def split: outcome.split option.split)
  moreover have "s\<lparr>Processing := False\<rparr> = s\<lparr>Processing := False, ReadHandler := True, RemoteAddr := RemoteAddr s\<rparr>" using True by simp
  moreover have "ret = None" "c' = releaseCall ?c2"
    using assms(1) True by (simp_all add: EngineServeConn_working [OF assms(2,3)] Let_def)
  ultimately show thesis using that [of ?c2 True "RemoteAddr s"] by simp
next
  case False
  let ?c1 = "c\<lparr>cc_state := s, cc_res := r\<rparr>"
  obtain st where st: "serveHTTP e env handler rds (servingOf ?c1) = Return st" "ret = None" "c' = releaseCall (storeServing st ?c1)"
    using assms(1) False by (auto simp: EngineServeConn_working [OF assms(2,3)] Let_def bind_outcome_Return)
  have "Processing s" using assms(3) by (auto simp: takeBuffers_def)
  then have "\<not> sv_processing st" using serveHTTP_flag [OF _ st(1)] by (simp add: servingOf_def)
  then show thesis using that [of "storeServing st ?c1" "sv_handler st" "sv_addr st"] st(2,3) False by (simp add: storeServing_def)
qed


section \<open>Witnesses\<close>

definition some_request :: request where
  "some_request = \<lparr>hasBody = False, Close = False, connectionHeader = str ''close'', requestAddr = []\<rparr>"

definition some_round :: round where
  "some_round = \<lparr>isActive = True, buffered = 0, reader = Some (str ''GET / HTTP/1.1'' @ crlf @ str ''A: b'' @ headerEnd),
     connAddr = Some (str ''c''), readRequest = Inr some_request, setsHandler = False, drained = 0, bufferedAfter = 0,
     lenAfter = None, casWins = True\<rparr>"

definition some_serving :: serving where
  "some_serving = \<lparr>sv_processing = True, sv_handler = False, sv_addr = [], sv_timeout = 0, sv_pool = [],
     sv_sink = empty_sink, sv_log = []\<rparr>"

definition some_call :: conn_call where
  "some_call = \<lparr>cc_state = NewConnectionState 5 zero_state, cc_res = \<lparr>readersOut = 0, writersOut = 0, released = 0\<rparr>,
     cc_pool = [], cc_sink = empty_sink, cc_log = []\<rparr>"

definition greeter :: "request \<Rightarrow> rw_op list \<times> bool" where
  "greeter req = ([SetHeader hContentLength (str ''2''), DoWriteString (str ''hi'')], False)"

theorem serve_http_answers_in_order_witness:
  "\<exists>st'. serveHTTP (NewEngine []) some_env greeter [some_round\<lparr>readRequest := Inr (some_request\<lparr>connectionHeader := []\<rparr>), bufferedAfter := 9\<rparr>, some_round] some_serving = Return st' \<and>
     accepted (sv_sink st') = concat (replicate 2 (str ''HTTP/1.1 200 OK'' @ crlf @ str ''Date: D'' @ crlf @
       str ''Content-Length: 2'' @ crlf @ str ''Content-Type: text/plain'' @ crlf @ crlf @ str ''hi''))"
proof -
  let ?rd = "some_round\<lparr>readRequest := Inr (some_request\<lparr>connectionHeader := []\<rparr>), bufferedAfter := 9\<rparr>"
  have a: "answers greeter (str ''c'') ?rd" "answers greeter (str ''c'') some_round" by code_simp+
  then have ans: "list_all (answers greeter (str ''c'')) ([?rd] @ [some_round])" by simp
  have stays: "list_all (\<lambda>rd. \<not> closes (NewEngine []) rd \<and> moreData rd) [?rd]"
    "closes (NewEngine []) some_round \<or> \<not> moreData some_round" by code_simp+
  have env: "reliable some_env" "copyFrom some_env = None" "sv_processing some_serving"
    "between (str ''c'') some_serving"
    by (simp_all add: reliable_def some_env_def some_serving_def between_def empty_sink_def)
  have resp: "concat (map (\<lambda>rd. responseBytes some_env (opsOf greeter (str ''c'') rd)) ([?rd] @ [some_round])) =
     concat (replicate 2 (str ''HTTP/1.1 200 OK'' @ crlf @ str ''Date: D'' @ crlf @
       str ''Content-Length: 2'' @ crlf @ str ''Content-Type: text/plain'' @ crlf @ crlf @ str ''hi''))"
    by code_simp
  show ?thesis
    using serve_http_answers_in_order [OF env ans stays] unfolding resp
    by (auto simp: some_serving_def empty_sink_def)
qed




end
