(* ===== verification/Ws_Session.thy ===== *)
theory Ws_Session
  imports Ws_Client Engine_Serve
begin

text \<open>
  The way of a client's handshake request through the server: the lines that
  \<open>buildHandshakeRequest\<close> writes, and what the request parser and the engine make of them.
\<close>

text \<open>The line iterator takes a block of lines apart again.\<close>

lemma header_lines_block:
  "list_all line_ok ls \<Longrightarrow> header_lines (take (length (lines_bytes ls) - 2) (lines_bytes ls)) = ls"
proof (induction ls)
  case (Cons l ls)
  have l: "l \<noteq> []" "13 \<notin> set l" using Cons.prems by (simp_all add: line_ok_def)
  show ?case
  proof (cases "ls = []")
    case True
    with l show ?thesis by (simp add: lines_bytes_def header_lines_single)
  next
    case False
    then have "2 \<le> length (lines_bytes ls)" by (cases ls) (simp_all add: lines_bytes_Cons)
    then have "take (length (lines_bytes (l # ls)) - 2) (lines_bytes (l # ls)) =
        l @ crlf @ take (length (lines_bytes ls) - 2) (lines_bytes ls)"
      by (simp add: lines_bytes_Cons)
    with Cons l header_lines_crlf show ?thesis by simp
  qed
qed (simp add: lines_bytes_def)

text \<open>A block of lines without a length or a transfer coding is a request without a body.\<close>

lemma CheckRequest_lines:
  assumes "list_all line_ok (l # ls)" "ls \<noteq> []" "length (lines_bytes (l # ls)) \<le> MaxHeaderSize"
    and "list_all (\<lambda>line. \<not> namesField line headerCL \<and> \<not> namesField line headerTE) ls"
  shows "CheckRequest (lines_bytes (l # ls) @ crlf @ rest) = complete (int (length (lines_bytes (l # ls)) + 2))"
proof -
  let ?b = "lines_bytes (l # ls)" and ?r = "lines_bytes ls"
  have two: "2 \<le> length ?r" using assms(2) by (cases ls) (simp_all add: lines_bytes_Cons)
  then have "4 \<le> length ?b" by (simp add: lines_bytes_Cons)
  note i = Index_lines [OF assms(1), of rest, simplified]
  have le: "length ?b - 2 \<le> MaxHeaderSize" using assms(3) by simp
  have tk: "take (length ?b - 2) (?b @ crlf @ rest) = l @ crlf @ take (length ?r - 2) ?r"
    using two by (simp add: lines_bytes_Cons)
  have l: "13 \<notin> set l" using assms(1) by (simp add: line_ok_def)
  have ls: "header_lines (take (length ?r - 2) ?r) = ls"
    using header_lines_block [of ls] assms(1) by simp
  have "CheckRequest (?b @ crlf @ rest) = complete (int (length ?b - 2 + 4))"
    unfolding CheckRequest_found [OF i le] tk
    by (simp add: Index_crlf [OF l] ls scanHeaders_none [OF assms(4)])
  with \<open>4 \<le> length ?b\<close> show ?thesis by simp
qed

text \<open>The lines of a client's request.\<close>

definition customLines :: "header \<Rightarrow> bytes list" where
  "customLines h = concat (map (\<lambda>(k, vs). map (\<lambda>v. k @ str '': '' @ v) vs) h)"

definition handshakeLines :: "bytes \<Rightarrow> url \<Rightarrow> HandshakeConfig \<Rightarrow> bytes list" where
  "handshakeLines secKey u c =
     [str ''Host: '' @ Host u, str ''Upgrade: websocket'', str ''Connection: Upgrade'',
      str ''Sec-WebSocket-Key: '' @ secKey, str ''Sec-WebSocket-Version: 13''] @
     (if EnableCompression c then [headerSecExtensions @ str '': '' @ deflateExtension] else []) @
     (case Header c of None \<Rightarrow> [] | Some h \<Rightarrow> customLines h) @
     (if Cookies c \<noteq> [] then [str ''Cookie: '' @ joinCookies (Cookies c)] else [])"

lemma customLines_bytes: "headerLinesOf h = lines_bytes (customLines h)"
proof -
  have "concat (map (\<lambda>v. k @ str '': '' @ v @ crlf) vs) = lines_bytes (map (\<lambda>v. k @ str '': '' @ v) vs)" for k vs
    by (induction vs) (simp_all add: lines_bytes_def)
  then show ?thesis
    by (induction h) (auto simp: headerLinesOf_def customLines_def lines_bytes_append lines_bytes_def [of "[]"])
qed

lemma handshake_lines:
  assumes "buildHandshakeRequest rand u c = Inr (raw, secKey)"
  obtains key where "rand = Inr key" "secKey = base64 key"
    "raw = lines_bytes ((str ''GET '' @ requestPath u @ str '' HTTP/1.1'') # handshakeLines secKey u c) @ crlf"
proof -
  obtain key where "rand = Inr key" "secKey = base64 key"
    using assms by (auto simp: buildHandshakeRequest_def Let_def split: sum.splits)
  moreover have "raw = lines_bytes ((str ''GET '' @ requestPath u @ str '' HTTP/1.1'') # handshakeLines secKey u c) @ crlf"
    using assms calculation
    by (cases "Header c") (auto simp: buildHandshakeRequest_def handshakeLines_def Let_def lines_bytes_Cons lines_bytes_append
        customLines_bytes lines_bytes_def [of "[]"])
  ultimately show thesis by (rule that)
qed

text \<open>Lines that cannot be taken for a length or a transfer coding.\<close>

definition plain_line :: "bytes \<Rightarrow> bool" where
  "plain_line l \<longleftrightarrow> line_ok l \<and> \<not> namesField l headerCL \<and> \<not> namesField l headerTE"

lemma namesField_append: "length name \<le> length p \<Longrightarrow> namesField (p @ x) name = namesField p name"
  by (simp add: namesField_def)

lemma handshakeLines_plain:
  assumes "13 \<notin> set (Host u)" "10 \<notin> set (Host u)" "\<And>x. x \<in> set secKey \<Longrightarrow> printable x"
    and "case Header c of None \<Rightarrow> True | Some h \<Rightarrow> list_all plain_line (customLines h)"
    and "13 \<notin> set (joinCookies (Cookies c))" "10 \<notin> set (joinCookies (Cookies c))"
  shows "list_all plain_line (handshakeLines secKey u c)"
proof -
  have "namesField (str ''Host: '' @ Host u) n = False" if "n = headerCL \<or> n = headerTE" for n
    using that by (auto simp: namesField_def headerCL_def headerTE_def str_def lower_def)
  then have h: "plain_line (str ''Host: '' @ Host u)"
    using assms(1,2) by (simp add: plain_line_def line_ok_def str_def)
  have "\<not> namesField (str ''Sec-WebSocket-Key: '') headerCL" "\<not> namesField (str ''Sec-WebSocket-Key: '') headerTE" by code_simp+
  moreover have "length headerCL \<le> length (str ''Sec-WebSocket-Key: '')" "length headerTE \<le> length (str ''Sec-WebSocket-Key: '')"
    by code_simp+
  moreover have "13 \<notin> set secKey" "10 \<notin> set secKey" using assms(3) printable_no_break by blast+
  ultimately have k: "plain_line (str ''Sec-WebSocket-Key: '' @ secKey)"
    by (simp add: plain_line_def namesField_append) (simp add: line_ok_def str_def)
  have fixed: "plain_line (str ''Upgrade: websocket'')" "plain_line (str ''Connection: Upgrade'')"
    "plain_line (str ''Sec-WebSocket-Version: 13'')" "plain_line (headerSecExtensions @ str '': '' @ deflateExtension)"
    by code_simp+
  have "namesField (str ''Cookie: '' @ x) n = False" if "n = headerCL \<or> n = headerTE" for n x
    using that by (auto simp: namesField_def headerCL_def headerTE_def str_def lower_def)
  then have "plain_line (str ''Cookie: '' @ joinCookies (Cookies c))"
    using assms(5,6) by (simp add: plain_line_def line_ok_def str_def)
  with h k fixed assms(4) show ?thesis by (auto simp: handshakeLines_def split: option.splits)
qed

end
