(* ===== verification/Example_Server.thy ===== *)
theory Example_Server
  imports Ws_Writer Ws_Session
begin

text \<open>
  The example server of \<open>src/cmd/example/main.go\<close>: its plain handler, its stream of server-sent
  events and its WebSocket echo.
\<close>

section \<open>The WebSocket echo\<close>

text \<open>
  \<open>OnMessage\<close> sends the message back with compression on; \<open>HonWSHandler\<close> inherits the other callbacks from a
  \<open>DefaultHandler\<close> without functions, which do nothing.  An error of the write is only logged.
\<close>

definition echoConfig :: Config where
  "echoConfig = \<lparr>MaxFrameSize = 0, EnableCompression = True\<rparr>"

fun HonWSHandler ::
  "ws_lib \<Rightarrow> ('r, 'w) flate_lib \<Rightarrow> net_write \<Rightarrow> ws_event \<Rightarrow> ('r, 'w) comp_state \<Rightarrow> (bytes \<times> ('r, 'w) comp_state) outcome" where
  "HonWSHandler lib fl wr (OnMessage op payload) st =
     bind_outcome (WriteMessage lib fl wr op payload (Some echoConfig) st) (\<lambda>(err, sent, st). Return (sent, st))"
| "HonWSHandler lib fl wr _ st = Return ([], st)"

text \<open>The events of a connection in their order; \<open>wr k\<close> is the connection as the \<open>k\<close>-th event finds it.\<close>

fun handleEvents ::
  "ws_lib \<Rightarrow> ('r, 'w) flate_lib \<Rightarrow> (nat \<Rightarrow> net_write) \<Rightarrow> nat \<Rightarrow> ws_event list \<Rightarrow> ('r, 'w) comp_state \<Rightarrow>
     (bytes list \<times> ('r, 'w) comp_state) outcome" where
  "handleEvents lib fl wr k [] st = Return ([], st)"
| "handleEvents lib fl wr k (e # es) st =
     bind_outcome (HonWSHandler lib fl (wr k) e st) (\<lambda>(sent, st).
     bind_outcome (handleEvents lib fl wr (Suc k) es st) (\<lambda>(sents, st). Return (sent # sents, st)))"

definition handed :: "bytes \<Rightarrow> ('r, 'w) conn \<Rightarrow> ('r, 'w) conn" where
  "handed d c = c\<lparr>net := (net c)\<lparr>recv := d, segs := []\<rparr>\<rparr>"

text \<open>The bytes fit into the receiver's integers, and what they decompress to into its fuel.\<close>

definition room :: "('r, 'w) flate_lib \<Rightarrow> ('r \<Rightarrow> bytes) \<Rightarrow> nat \<Rightarrow> bytes list \<Rightarrow> bool" where
  "room fl rest dfuel ws \<longleftrightarrow> int (length (concat ws)) \<le> maxInt \<and>
     (\<forall>d. length d \<le> length (concat ws) \<longrightarrow> plain_size fl rest d < dfuel)"

abbreviation message_of :: "(byte \<times> bytes) \<times> bytes \<Rightarrow> ws_event" where
  "message_of \<equiv> (\<lambda>((op, p), key). OnMessage op p)"

text \<open>A frame that is not masked needs no random bytes.\<close>

lemma write_unmasked:
  "writeMessageInternal lib fl (Inr key) wr op payload co False st = WriteMessage lib fl wr op payload co st"
  by (cases "CompressData fl payload st")
    (auto simp: WriteMessage_def writeMessageInternal_def writeFrame_def Let_def zero_header_def split: sum.split)

lemma writes_all_eq: "writes_all wr \<Longrightarrow> wr = (\<lambda>i d. (d, None))"
  by (simp add: writes_all_def fun_eq_iff)

lemma handleEvents_sendAll:
  assumes wr: "\<forall>k. writes_all (wr k)"
  shows "sendAll lib fl wr' co False msgs st = Return (None, ws, st') \<Longrightarrow> writes_all wr' \<Longrightarrow> co = Some echoConfig \<Longrightarrow>
    handleEvents lib fl wr k (map message_of msgs) st = Return (ws, st')"
proof (induction msgs arbitrary: st ws k)
  case (Cons m msgs)
  obtain op payload key where m: "m = ((op, payload), key)" by (metis surj_pair)
  have same: "writeMessageInternal lib fl (Inr key) wr' op payload co False st =
      WriteMessage lib fl (wr k) op payload (Some echoConfig) st"
    using writes_all_eq [OF wr [rule_format, of k]] writes_all_eq [OF Cons.prems(2)] Cons.prems(3) by (simp add: write_unmasked)
  from Cons.prems(1) m obtain sent st1 sents where
    s: "writeMessageInternal lib fl (Inr key) wr' op payload co False st = Return (None, sent, st1)"
    "sendAll lib fl wr' co False msgs st1 = Return (None, sents, st')" "ws = sent # sents"
    by (auto simp: bind_outcome_Return split: option.splits)
  from Cons.IH [OF s(2) Cons.prems(2,3), of "Suc k"] s(1,3) m same show ?case by simp
qed simp


text \<open>
  The echo does not ask whether compression was negotiated.  For a client that has it off, a message that
  is long enough to be compressed comes back as the compressor's output: the client's assembler
  ignores the mark of compression and tells the handler the compressed bytes as if they were the message.
\<close>

theorem echo_unnegotiated:
  fixes fl :: "('r, 'w) flate_lib" and c :: "('r, 'w) conn"
  assumes lib: "rfc6455 lib" "inflates fl final rest" "resets_readers fl final rest" "deflates fl final rest"
    and wr: "writes_all wr" and wf: "pools_wf (bufs st)"
    and op: "op < 16" "\<not> IsControl lib op" "op \<noteq> OpContinuation lib" and want: "wantsCompression lib (Some echoConfig) op payload"
    and plain: "\<not> EnableCompression (cfg (asm c))" and limit: "MaxFrameSize (cfg (asm c)) \<le> maxInt"
    and size: "\<forall>data st'. CompressData fl payload st = Return (Inr data, st') \<longrightarrow> int (slen data) \<le> bound (cfg (asm c))"
    and start: "assembles (asm c, mem c) None" and np: "isNetpoll md" "\<forall>k. IsActive np k \<and> \<not> peekErr np k" and fuel: "1 < fuel"
  shows "\<exists>data st1 w st2. CompressData fl payload st = Return (Inr data, st1) \<and>
    HonWSHandler lib fl wr (OnMessage op payload) st = Return (w, st2) \<and> (room fl rest dfuel [w] \<longrightarrow>
    (\<exists>c'. ServeConn lib fl dfuel md np fuel 0 (handed w c) = Return (None, c') \<and>
      trace c' = trace c @ [OnMessage op (content data)]))"
proof -
  have bound: "bound (cfg (asm c)) \<le> maxInt" using limit by (simp add: bound_def)
  with size have sz: "\<forall>data st'. CompressData fl payload st = Return (Inr data, st') \<longrightarrow> int (slen data) \<le> maxInt" by force
  obtain data st1 st2 where d: "CompressData fl payload st = Return (Inr data, st1)" "slen data = length (content data)"
    "writeMessageInternal lib fl (Inr []) wr op payload (Some echoConfig) False st =
       Return (None, wire lib (sent_header op True False [0, 0, 0, 0] (content data)) (content data), st2)"
    "valid_header lib (sent_header op True False [0, 0, 0, 0] (content data))"
    by (rule write_compressed [OF lib(1,4) wr wf want op(1,2) _ _ sz, of False "Inr []" "[0, 0, 0, 0]"]) (simp_all add: that)
  let ?h = "sent_header op True False [0, 0, 0, 0] (content data)" and ?cf = "cfg (asm c)"
  let ?w = "wire lib ?h (content data)" and ?m = "((op, content data), [])"
  have "Length ?h = int (length (content data))" by (simp add: sent_header_def)
  note w = wire_frame [OF lib(1) d(4) this]
  have fits: "int (length (content data)) \<le> bound ?cf" using size d(1,2) by auto
  then have f1: "\<forall>w \<in> set [?w]. frameExtent lib w = Some (length w) \<and> Length (fst (decodeFrame lib w)) \<le> bound ?cf"
    using w by (simp add: sent_header_def)
  have "spec_one lib ?cf (inflated fl final rest (MaxFrameSize ?cf)) ?h (content data) None = ([OnMessage op (content data)], None, None)"
    using op plain by (simp add: spec_one_def spec_frame_def deliver_def sent_header_def)
  then have f2: "\<forall>j \<le> length [?m]. spec_conn lib ?cf (inflated fl final rest (MaxFrameSize ?cf)) (map (decodeFrame lib) (take j [?w])) None =
      (map message_of (take j [?m]), None, None)"
    using w(2) by (auto simp: take_Cons' le_Suc_eq)
  have arrives: "\<exists>c'. ServeConn lib fl dfuel md np fuel 0 (handed ?w c) = Return (None, c') \<and>
      trace c' = trace c @ [OnMessage op (content data)]" if "room fl rest dfuel [?w]"
    using frames_arrive [OF lib(1-3) _ f1 _ f2 np, where c = "handed ?w c" and dfuel = dfuel and fuel = fuel and k = 0] start fuel that
    by (auto simp: handed_def room_def)
  have "HonWSHandler lib fl wr (OnMessage op payload) st = Return (?w, st2)" using d(3) by (simp add: WriteMessage_def)
  with d(1) arrives show ?thesis by blast
qed

section \<open>The echo over another library\<close>

text \<open>
  The goroutine of \<open>gorillaStdHandler\<close>: \<open>reads\<close> is what the other library's \<open>ReadMessage\<close> returns, call by call, and
  \<open>wr k\<close> the error of the \<open>k\<close>-th \<open>WriteMessage\<close>.  The result is what has been written and whether the loop has
  ended and closed the connection; it is still waiting when \<open>reads\<close> is used up.
\<close>

fun gorillaLoop ::
  "(nat \<Rightarrow> go_error option) \<Rightarrow> nat \<Rightarrow> (go_error + int \<times> bytes) list \<Rightarrow> (int \<times> bytes) list \<times> bool" where
  "gorillaLoop wr k [] = ([], False)"
| "gorillaLoop wr k (Inl e # rs) = ([], True)"
| "gorillaLoop wr k (Inr (mt, msg) # rs) =
     (if wr k \<noteq> None then ([(mt, msg)], True)
      else case gorillaLoop wr (Suc k) rs of (out, closed) \<Rightarrow> ((mt, msg) # out, closed))"

lemma gorilla_echo:
  assumes "\<forall>k. wr k = None"
  shows "gorillaLoop wr k (map Inr msgs) = (msgs, False)" "gorillaLoop wr k (map Inr msgs @ Inl e # rs) = (msgs, True)"
  using assms by (induction msgs arbitrary: k) auto

section \<open>The plain handler and the stream of events\<close>

text \<open>
  A handler is the sequence of calls it makes on its response writer.  \<open>ticks\<close> is what each round of
  \<open>sseHandler\<close> selects: the ticker (\<open>True\<close>) or the end of the request's context.  The writer of this server
  is a flusher, so that the branch for writers that cannot stream is never taken.
\<close>

definition rootHandler :: "rw_op list" where
  "rootHandler = [DoWrite (str ''Hon Server Running'' @ [10] @ str ''Endpoints: /ws-hon, /ws-std, /sse'' @ [10])]"

definition sseMessage :: "nat \<Rightarrow> bytes" where
  "sseMessage i = str ''data: Message '' @ itoa (int i) @ [10, 10]"

fun sseLoop :: "nat \<Rightarrow> bool list \<Rightarrow> rw_op list" where
  "sseLoop i (True # ticks) = (if i < 10 then DoWrite (sseMessage i) # DoFlush # sseLoop (Suc i) ticks else [])"
| "sseLoop i _ = []"

definition sseHandler :: "bool list \<Rightarrow> rw_op list" where
  "sseHandler ticks =
     [SetHeader (str ''Content-Type'') (str ''text/event-stream''), SetHeader (str ''Cache-Control'') (str ''no-cache''),
      SetHeader (str ''Connection'') (str ''keep-alive''), DoWriteHeader StatusOK] @ sseLoop 0 ticks"

definition honWebSocketHandler ::
  "http_env \<Rightarrow> (bytes \<Rightarrow> bytes option) \<Rightarrow> (bytes \<Rightarrow> bytes \<Rightarrow> bool) \<Rightarrow> http_request \<Rightarrow> ResponseWriter \<times> sink \<Rightarrow>
     (ws_event list \<times> Assembler option \<times> ResponseWriter \<times> sink) outcome" where
  "honWebSocketHandler env originHost hostsFold r ws =
     bind_outcome (Upgrade env originHost hostsFold True r [WithEnableCompression True] ws) (\<lambda>(err, es, a, ws). Return (es, a, ws))"

text \<open>How many events go out before the client leaves.\<close>

definition sseCount :: "bool list \<Rightarrow> nat" where
  "sseCount ticks = min 10 (length (takeWhile (\<lambda>t. t) ticks))"

definition sseHead :: "http_env \<Rightarrow> bytes" where
  "sseHead env = lines_bytes [str ''HTTP/1.1 200 OK'', str ''Date: '' @ date env, str ''Cache-Control: no-cache'',
     str ''Connection: keep-alive'', str ''Content-Type: text/event-stream'', str ''Transfer-Encoding: chunked''] @ crlf"

lemma sseLoop_events:
  "sseLoop i ticks = concat (map (\<lambda>j. [DoWrite (sseMessage j), DoFlush]) [i..<max i (min 10 (i + length (takeWhile (\<lambda>t. t) ticks)))])"
proof (induction i ticks rule: sseLoop.induct)
  case (1 i ticks)
  then show ?case by (auto simp: upt_conv_Cons max_def min_def)
qed simp_all

definition sseOps :: "nat \<Rightarrow> rw_op list" where
  "sseOps n = sseHandler [] @ concat (map (\<lambda>j. [DoWrite (sseMessage j), DoFlush]) [0..<n])"

lemma sseHandler_events: "sseHandler ticks = sseOps (sseCount ticks)"
  by (simp add: sseHandler_def sseLoop_events sseCount_def sseOps_def)

lemma sseOps_Suc: "sseOps (Suc n) = (sseOps n @ [DoWrite (sseMessage n)]) @ [DoFlush]"
  by (simp add: sseOps_def)

lemma sseOps_take: "j \<le> n \<Longrightarrow> take (4 + 2 * j) (sseOps n) = sseOps j"
proof (induction n)
  case (Suc n)
  have "length (sseOps m) = 4 + 2 * m" for m by (induction m) (simp_all add: sseOps_Suc, simp add: sseOps_def sseHandler_def)
  with Suc show ?case by (cases "j = Suc n") (simp_all add: sseOps_Suc)
qed (simp add: sseOps_def sseHandler_def)

lemma sseMessage_chunk: "i < 10 \<Longrightarrow> encodeChunk (sseMessage i) = str ''11'' @ crlf @ sseMessage i @ crlf"
proof -
  have "list_all (\<lambda>i. encodeChunk (sseMessage i) = str ''11'' @ crlf @ sseMessage i @ crlf) [0..<10]" by code_simp
  then show "i < 10 \<Longrightarrow> ?thesis" by (simp add: list_all_iff)
qed

lemma sse_head:
  assumes "0 < n"
  shows "headBytes env (headWriter env (sseOps n) fresh_writer) = sseHead env"
    and "usesChunks (headWriter env (sseOps n) fresh_writer)"
proof -
  let ?h = "[(str ''Connection'', [str ''keep-alive'']), (str ''Cache-Control'', [str ''no-cache'']),
    (str ''Content-Type'', [str ''text/event-stream''])]"
  have n: "[0..<n] = 0 # [1..<n]" using assms by (simp add: upt_conv_Cons)
  have hd: "header (sniffed env (sseMessage 0) (fresh_writer\<lparr>header := ?h, statusCode := StatusOK\<rparr>)) = ?h"
    by (simp add: sniffed_def header_get_def str_def)
  have w: "headWriter env (sseOps n) fresh_writer =
      fresh_writer\<lparr>header := ?h, statusCode := StatusOK\<rparr>"
    unfolding sseOps_def n by (simp add: sseHandler_def sseMessage_def header_set_def RW_WriteHeader_def sniffed_def header_get_def str_def StatusOK_def)
  show "headBytes env (headWriter env (sseOps n) fresh_writer) = sseHead env"
  proof -
    have "statusLine StatusOK = str ''HTTP/1.1 200 OK'' @ crlf" by code_simp
    moreover have "header_get ?h hDate = []" by code_simp
    moreover have "concat (otherPieces (fresh_writer\<lparr>header := ?h, statusCode := StatusOK\<rparr>)) =
        lines_bytes [str ''Cache-Control: no-cache'', str ''Connection: keep-alive'', str ''Content-Type: text/event-stream'',
          str ''Transfer-Encoding: chunked''] @ crlf"
      by code_simp
    ultimately show ?thesis unfolding w by (simp add: headBytes_def firstPieces_def sseHead_def lines_bytes_Cons)
  qed
  show "usesChunks (headWriter env (sseOps n) fresh_writer)"
    unfolding w by (simp add: usesChunks_def header_get_def str_def)
qed

lemma sse_pieces:
  assumes "n \<le> 10"
  shows "encodeBody True (concat (map bodyPieces (sseOps n))) =
    concat (map (\<lambda>i. str ''11'' @ crlf @ sseMessage i @ crlf) [0..<n])"
proof -
  have "concat (map bodyPieces (concat (map (\<lambda>j. [DoWrite (sseMessage j), DoFlush]) xs))) = map sseMessage xs" for xs
    by (induction xs) (simp_all add: sseMessage_def str_def)
  then have "concat (map bodyPieces (sseOps n)) = map sseMessage [0..<n]"
    unfolding sseOps_def by (simp add: sseHandler_def)
  then have "encodeBody True (concat (map bodyPieces (sseOps n))) = concat (map (encodeChunk \<circ> sseMessage) [0..<n])"
    by (simp add: encodeBody_def)
  moreover have "map (encodeChunk \<circ> sseMessage) [0..<n] = map (\<lambda>i. str ''11'' @ crlf @ sseMessage i @ crlf) [0..<n]"
    using assms by (auto simp: sseMessage_chunk)
  ultimately show ?thesis by simp
qed

lemma sse_no_hijack: "DoHijack \<notin> set (sseOps n)"
  by (auto simp: sseOps_def sseHandler_def)

lemma sse_no_trailer: "lastTrailer (sseOps n) [] = []"
proof -
  have "lastTrailer (concat (map (\<lambda>j. [DoWrite (sseMessage j), DoFlush]) xs)) [] = []" for xs by (induction xs) simp_all
  then show ?thesis by (simp add: sseOps_def sseHandler_def)
qed

text \<open>After a flush everything written so far is on the connection.\<close>

lemma headWriter_append: "list_ex sends xs \<Longrightarrow> headWriter env (xs @ ys) w = headWriter env xs w"
  by (induction xs arbitrary: w) auto

lemma sse_prefix:
  assumes env: "reliable env" "copyFrom env = None" and s: "sticky s = None" and j: "0 < j" "j \<le> 10"
  shows "\<exists>w' s'. run_ops env (sseOps j) (fresh_writer, s) = Return (w', s') \<and> flushed s' = length (accepted s') \<and>
    accepted s' = accepted s @ sseHead env @ concat (map (\<lambda>i. str ''11'' @ crlf @ sseMessage i @ crlf) [0..<j])"
proof -
  obtain k where k: "j = Suc k" using j(1) by (cases j) auto
  let ?ops = "sseOps k @ [DoWrite (sseMessage k)]"
  have sends: "list_ex sends ?ops" by (simp add: sseMessage_def str_def)
  have nohij: "DoHijack \<notin> set ?ops" using sse_no_hijack [of k] by simp
  have head: "headWriter env ?ops fresh_writer = headWriter env (sseOps j) fresh_writer"
    using headWriter_append [OF sends] by (simp add: k sseOps_Suc del: append_assoc)
  have body: "concat (map bodyPieces ?ops) = concat (map bodyPieces (sseOps j))" by (simp add: k sseOps_Suc)
  show ?thesis
    using streaming_writer [OF env s _ _ _ nohij sends refl, of fresh_writer] sse_head [OF j(1), of env] sse_pieces [OF j(2)]
    by (simp add: head body k sseOps_Suc)
qed

text \<open>
  The stream of events.  A client of \<open>/sse\<close> that stays for \<open>n > 0\<close> ticks receives the header of a chunked
  event stream and the messages \<open>0\<close> to \<open>n - 1\<close>, at most ten, one chunk each; each message is on the connection
  before the next tick is waited for; and the response ends with the last chunk.
\<close>

theorem sse_stream:
  assumes env: "reliable env" "copyFrom env = None" and s: "sticky s = None" and pool: "clean_pool pool"
    and n: "n = sseCount ticks" "0 < n"
  shows "(\<forall>j \<in> {1..n}. \<exists>w' s'. run_ops env (take (4 + 2 * j) (sseHandler ticks)) (fresh_writer, s) = Return (w', s') \<and>
      flushed s' = length (accepted s') \<and>
      accepted s' = accepted s @ sseHead env @ concat (map (\<lambda>i. str ''11'' @ crlf @ sseMessage i @ crlf) [0..<j])) \<and>
    (\<exists>pool' s'. handleRequest env (Inr req) (\<lambda>_. (sseHandler ticks, False)) (pool, s) = Return (Inr (req, False), pool', s') \<and>
      accepted s' = accepted s @ sseHead env @ concat (map (\<lambda>i. str ''11'' @ crlf @ sseMessage i @ crlf) [0..<n]) @
        str ''0'' @ headerEnd)"
proof (intro conjI ballI)
  have n10: "n \<le> 10" using n(1) by (simp add: sseCount_def)
  fix j assume "j \<in> {1..n}"
  with n10 show "\<exists>w' s'. run_ops env (take (4 + 2 * j) (sseHandler ticks)) (fresh_writer, s) = Return (w', s') \<and>
      flushed s' = length (accepted s') \<and>
      accepted s' = accepted s @ sseHead env @ concat (map (\<lambda>i. str ''11'' @ crlf @ sseMessage i @ crlf) [0..<j])"
    using sse_prefix [OF env s, of j] n(1) by (simp add: sseHandler_events sseOps_take)
next
  have n10: "n \<le> 10" using n(1) by (simp add: sseCount_def)
  obtain pool' s' where r: "handleRequest env (Inr req) (\<lambda>_. (sseHandler ticks, False)) (pool, s) = Return (Inr (req, False), pool', s')"
    "took s (responseBytes env (sseHandler ticks)) s'"
    using handleRequest_reliable [OF env s pool, where handler = "\<lambda>_. (sseHandler ticks, False)"] sse_no_hijack [of "sseCount ticks"]
    unfolding sseHandler_events by metis
  have "responseBytes env (sseHandler ticks) = sseHead env @ concat (map (\<lambda>i. str ''11'' @ crlf @ sseMessage i @ crlf) [0..<n]) @ str ''0'' @ headerEnd"
    using sse_head [OF n(2)] sse_pieces [OF n10] sse_no_trailer [of n]
    unfolding sseHandler_events n(1) [symmetric] by (simp add: responseBytes_def Let_def bodyEnd_def)
  with r show "\<exists>pool' s'. handleRequest env (Inr req) (\<lambda>_. (sseHandler ticks, False)) (pool, s) = Return (Inr (req, False), pool', s') \<and>
      accepted s' = accepted s @ sseHead env @ concat (map (\<lambda>i. str ''11'' @ crlf @ sseMessage i @ crlf) [0..<n]) @
        str ''0'' @ headerEnd"
    by (auto simp: took_def)
qed

text \<open>
  \<open>Upgrade\<close> leaves the answer to a refused request to its caller, and \<open>honWebSocketHandler\<close> only logs the
  error: the client, whatever test its request has failed, is told \<open>200 OK\<close> with an empty body.
\<close>

theorem refused_upgrade_is_ok:
  assumes env: "reliable env" and s: "sticky s = None"
    and refused: "upgradeCheck (upgradeConfig originHost hostsFold [WithEnableCompression True]) r True = Some e"
  shows "\<exists>w' s'. bind_outcome (honWebSocketHandler env originHost hostsFold r (fresh_writer, s)) (\<lambda>(es, a, ws). EndResponse env ws) =
      Return (None, w', s') \<and>
    accepted s' = accepted s @ lines_bytes [str ''HTTP/1.1 200 OK'', str ''Date: '' @ date env, str ''Content-Length: 0''] @ crlf"
proof -
  have h: "honWebSocketHandler env originHost hostsFold r (fresh_writer, s) = Return ([], None, fresh_writer, s)"
    using refused by (simp add: honWebSocketHandler_def Upgrade_def)
  have "bufWriter_set fresh_writer" by (simp add: fresh_writer_def NewResponseWriter_def)
  then obtain w' s' where e: "EndResponse env (fresh_writer, s) = Return (None, w', s')"
    "took s (headBytes env (headWriter env [] fresh_writer) @ bodyEnd (usesChunks (headWriter env [] fresh_writer)) []) s'"
    using EndResponse_unsent [OF env s, of fresh_writer] by auto
  have "statusLine StatusOK = str ''HTTP/1.1 200 OK'' @ crlf" "\<not> usesChunks (headWriter env [] fresh_writer)"
    "header_get (header (headWriter env [] fresh_writer)) hDate = []" "statusCode (headWriter env [] fresh_writer) = StatusOK"
    "concat (otherPieces (headWriter env [] fresh_writer)) = lines_bytes [str ''Content-Length: 0''] @ crlf"
    by code_simp+
  then have "headBytes env (headWriter env [] fresh_writer) =
      lines_bytes [str ''HTTP/1.1 200 OK'', str ''Date: '' @ date env, str ''Content-Length: 0''] @ crlf"
    by (simp add: headBytes_def firstPieces_def lines_bytes_Cons)
  with h e \<open>\<not> usesChunks (headWriter env [] fresh_writer)\<close> show ?thesis by (simp add: took_def bodyEnd_def)
qed

lemma root_response:
  "responseBytes env rootHandler =
    lines_bytes [str ''HTTP/1.1 200 OK'', str ''Date: '' @ date env,
      str ''Content-Type: '' @ header_value (detect env (concat (bodyPieces (hd rootHandler)))), str ''Transfer-Encoding: chunked''] @ crlf @
    encodeChunk (concat (bodyPieces (hd rootHandler))) @ str ''0'' @ headerEnd"
proof -
  let ?t = "str ''Hon Server Running'' @ [10] @ str ''Endpoints: /ws-hon, /ws-std, /sse'' @ [10]"
  have w: "headWriter env rootHandler fresh_writer = fresh_writer\<lparr>header := [(hContentType, [detect env ?t])]\<rparr>"
    by (simp add: rootHandler_def sniffed_def header_get_def header_set_def str_def)
  have "statusLine StatusOK = str ''HTTP/1.1 200 OK'' @ crlf" "statusCode fresh_writer = StatusOK" "valid_name hContentType" by code_simp+
  then have "headBytes env (headWriter env rootHandler fresh_writer) = lines_bytes [str ''HTTP/1.1 200 OK'', str ''Date: '' @ date env,
      str ''Content-Type: '' @ header_value (detect env ?t), str ''Transfer-Encoding: chunked''] @ crlf"
    unfolding w by (simp add: headBytes_def firstPieces_def otherPieces_def header_pieces_def lines_bytes_Cons header_get_def usesChunks_def str_def lines_bytes_def [of "[]"])
  moreover have "usesChunks (headWriter env rootHandler fresh_writer)" unfolding w by (simp add: usesChunks_def header_get_def str_def)
  ultimately show ?thesis by (simp add: responseBytes_def rootHandler_def bodyEnd_def encodeBody_def)
qed

section \<open>Witnesses\<close>


theorem sse_stream_witness:
  "\<exists>pool' s'. handleRequest some_env (Inr some_request) (\<lambda>_. (sseHandler [True, True, False], False)) ([], empty_sink) =
      Return (Inr (some_request, False), pool', s') \<and>
    accepted s' = sseHead some_env @ str ''11'' @ crlf @ str ''data: Message 0'' @ [10, 10] @ crlf @
      str ''11'' @ crlf @ str ''data: Message 1'' @ [10, 10] @ crlf @ str ''0'' @ headerEnd"
proof -
  have "reliable some_env" "copyFrom some_env = None" "sticky empty_sink = None" "clean_pool []" "2 = sseCount [True, True, False]"
    by (simp_all add: reliable_def some_env_def empty_sink_def sseCount_def)
  from sse_stream [OF this, of some_request] have "\<exists>pool' s'. handleRequest some_env (Inr some_request)
      (\<lambda>_. (sseHandler [True, True, False], False)) ([], empty_sink) = Return (Inr (some_request, False), pool', s') \<and>
    accepted s' = accepted empty_sink @ sseHead some_env @ concat (map (\<lambda>i. str ''11'' @ crlf @ sseMessage i @ crlf) [0..<2]) @
        str ''0'' @ headerEnd" by simp
  moreover have "accepted empty_sink @ sseHead some_env @ concat (map (\<lambda>i. str ''11'' @ crlf @ sseMessage i @ crlf) [0..<2]) @
      str ''0'' @ headerEnd = sseHead some_env @ str ''11'' @ crlf @ str ''data: Message 0'' @ [10, 10] @ crlf @
      str ''11'' @ crlf @ str ''data: Message 1'' @ [10, 10] @ crlf @ str ''0'' @ headerEnd" by code_simp
  ultimately show ?thesis by simp
qed

end
