(* ===== verification/Stress_Client.thy ===== *)
theory Stress_Client
  imports Ws_Client Sync_Objects
begin

text \<open>
  The load generator of \<open>src/ws_stress_config.go\<close>: the handler that counts the connections and keeps the
  messages going, the open-files limit, and the loop that dials, once as the sequence of its dials and once as the
  interleaved steps of \<open>main\<close> and its goroutines.
\<close>

section \<open>The handler\<close>

text \<open>
  The state that the handlers of all connections share: the counter \<open>connected\<close> (updated by atomic adds, so that
  the order in which the dials run does not matter for it), the messages that have been sent, and the timers
  that will send another.
\<close>

record stress =
  connected :: int
  sent :: "(byte \<times> bytes) list"
  timers :: nat

definition hello :: bytes where
  "hello = str ''hello hon''"

fun StressHandler :: "byte \<Rightarrow> bool \<Rightarrow> ws_event \<Rightarrow> stress \<Rightarrow> stress" where
  "StressHandler opText echo OnOpen st =
     (let st = st\<lparr>connected := connected st + 1\<rparr> in if echo then st\<lparr>sent := sent st @ [(opText, hello)]\<rparr> else st)"
| "StressHandler opText echo (OnMessage op p) st = (if echo then st\<lparr>timers := Suc (timers st)\<rparr> else st)"
| "StressHandler opText echo (OnClose e) st = st\<lparr>connected := connected st - 1\<rparr>"
| "StressHandler opText echo _ st = st"

text \<open>A timer that fires.\<close>

definition fireTimer :: "byte \<Rightarrow> stress \<Rightarrow> stress" where
  "fireTimer opText st = (if timers st = 0 then st else st\<lparr>timers := timers st - 1, sent := sent st @ [(opText, hello)]\<rparr>)"

section \<open>The loop that dials\<close>

text \<open>
  One dial after the other with the client that all of them share; a result says whether the dial
  failed and whether its connection has been reported closed.
\<close>

fun dialAll :: "byte \<Rightarrow> bool \<Rightarrow> dial_env list \<Rightarrow> int \<Rightarrow> stress \<Rightarrow> ((bool \<times> bool) list \<times> int \<times> stress) outcome" where
  "dialAll opText echo [] n st = Return ([], n, st)"
| "dialAll opText echo (env # envs) n st =
     bind_outcome (Dial env [] n) (\<lambda>(err, d).
     bind_outcome (dialAll opText echo envs (wg d) (fold (StressHandler opText echo) (told d) st)) (\<lambda>(rs, r).
     Return ((err \<noteq> None, closedOnce d) # rs, r)))"

lemma StressHandler_count:
  "connected (fold (StressHandler opText echo) es st) =
     connected st + int (length (filter ((=) OnOpen) es)) - int (length (filter is_close es))"
proof (induction es arbitrary: st)
  case (Cons e es)
  show ?case by (cases e) (simp_all add: Cons Let_def)
qed simp

text \<open>The connections that are open, and those whose handshake failed.\<close>

definition openConns :: "(bool \<times> bool) list \<Rightarrow> int" where
  "openConns rs = int (length (filter (\<lambda>(failed, closed). \<not> failed \<and> \<not> closed) rs))"

definition failedHandshakes :: "(bool \<times> bool) list \<Rightarrow> int" where
  "failedHandshakes rs = int (length (filter (\<lambda>(failed, closed). failed \<and> closed) rs))"

text \<open>
  What the counter counts.  Unless a request cannot be sent, all dials return, and the client's wait group counts
  the connections that are open; the handler's counter, which is reported as the number of active connections,
  falls by one for each failed handshake, because \<open>Dial\<close> then calls \<open>OnClose\<close> without having called
  \<open>OnOpen\<close>: it is too low from the first failure on, and negative if all handshakes fail.
\<close>

theorem stress_counter:
  "0 \<le> n \<Longrightarrow> \<forall>env \<in> set envs. setErr env = None \<and> sendErr env = None \<Longrightarrow>
    \<exists>rs n' st'. dialAll opText echo envs n st = Return (rs, n', st') \<and> length rs = length envs \<and>
      n' = n + openConns rs \<and> connected st' = connected st + openConns rs - failedHandshakes rs"
proof (induction envs arbitrary: n st)
  case (Cons env envs)
  from Cons.prems obtain err d where d: "Dial env [] n = Return (err, d)"
    "err \<noteq> None \<and> d = newDialing n \<or> dial_inv n d \<and> (err = None \<longleftrightarrow> \<not> isHandshake d) \<and> (err \<noteq> None \<longrightarrow> closedOnce d)"
    using Dial_settles [of n env "[]"] by auto
  have wg: "0 \<le> wg d" "wg d = n + (if err = None \<and> \<not> closedOnce d then 1 else 0)"
    and cn: "connected (fold (StressHandler opText echo) (told d) st) = connected st +
      (if err = None \<and> \<not> closedOnce d then 1 else 0) - (if err \<noteq> None \<and> closedOnce d then 1 else 0)"
    using d(2) Cons.prems(1) by (auto simp: dial_inv_def newDialing_def StressHandler_count)
  from Cons.IH [OF wg(1), of "fold (StressHandler opText echo) (told d) st"] Cons.prems(2) obtain rs n' st' where
    "dialAll opText echo envs (wg d) (fold (StressHandler opText echo) (told d) st) = Return (rs, n', st')"
    "length rs = length envs" "n' = wg d + openConns rs"
    "connected st' = connected (fold (StressHandler opText echo) (told d) st) + openConns rs - failedHandshakes rs" by auto
  with d(1) wg(2) cn show ?case by (auto simp: openConns_def failedHandshakes_def)
qed (simp add: openConns_def failedHandshakes_def)

section \<open>The open-files limit\<close>

text \<open>
  \<open>SetUlimit\<close> (the same function is in \<open>src/cmd/example/main.go\<close>): \<open>got\<close> is what \<open>Getrlimit\<close> returns and \<open>setrlimit\<close>
  the error of \<open>Setrlimit\<close>; the result is the error and the limit of the process afterwards, given the one before.
\<close>

record Rlimit =
  rlim_cur :: nat
  rlim_max :: nat

definition SetUlimit :: "go_error + Rlimit \<Rightarrow> (Rlimit \<Rightarrow> go_error option) \<Rightarrow> Rlimit \<Rightarrow> go_error option \<times> Rlimit" where
  "SetUlimit got setrlimit now =
     (case got of
        Inl e \<Rightarrow> (Some e, now)
      | Inr rLimit \<Rightarrow>
          let rLimit = rLimit\<lparr>rlim_cur := rlim_max rLimit\<rparr> in
          case setrlimit rLimit of Some e \<Rightarrow> (Some e, now) | None \<Rightarrow> (None, rLimit))"

lemma SetUlimit_raises:
  assumes "got = Inr now" "rlim_cur now \<le> rlim_max now"
  shows "case SetUlimit got setrlimit now of (err, l) \<Rightarrow>
    rlim_max l = rlim_max now \<and> rlim_cur now \<le> rlim_cur l \<and> rlim_cur l \<le> rlim_max l \<and> (err = None \<longrightarrow> rlim_cur l = rlim_max l) \<and> (err \<noteq> None \<longrightarrow> l = now)"
  using assms by (auto simp: SetUlimit_def Let_def split: option.split)

section \<open>The loop that dials, with its goroutines\<close>

text \<open>
  \<open>main\<close> sends to the channel \<open>dialSem\<close>, which holds at most \<open>maxDials\<close> values, adds to the wait group and starts a
  goroutine that dials; the goroutine's deferred function receives from the channel and is done.  The steps
  interleave \<open>main\<close> and its goroutines.  Where \<open>main\<close> stands: at the head of the loop, past the send, past
  \<open>Add\<close>, waiting for the goroutines, and holding the connections; where a goroutine stands: in \<open>Dial\<close>, in its
  deferred function, past the receive, and done.
\<close>

definition maxDials :: nat where
  "maxDials = 500"

datatype main_pc = MLoop | MTaken | MAdded | MWaiting | MHolding

datatype worker_pc = WDialing | WDialed | WReceived | WDone

record stress_main =
  main_at :: main_pc
  dialSem :: nat
  dialWg :: int
  workers :: "worker_pc list"

definition worker_at :: "stress_main \<Rightarrow> nat \<Rightarrow> worker_pc \<Rightarrow> bool" where
  "worker_at m j p \<longleftrightarrow> j < length (workers m) \<and> workers m ! j = p"

inductive main_step :: "int \<Rightarrow> stress_main \<Rightarrow> stress_main \<Rightarrow> bool" for num where
  take_slot: "main_at m = MLoop \<Longrightarrow> int (length (workers m)) < num \<Longrightarrow> dialSem m < maxDials \<Longrightarrow>
    main_step num m (m\<lparr>main_at := MTaken, dialSem := Suc (dialSem m)\<rparr>)"
| add: "main_at m = MTaken \<Longrightarrow> main_step num m (m\<lparr>main_at := MAdded, dialWg := dialWg m + 1\<rparr>)"
| spawn: "main_at m = MAdded \<Longrightarrow> main_step num m (m\<lparr>main_at := MLoop, workers := workers m @ [WDialing]\<rparr>)"
| leave: "main_at m = MLoop \<Longrightarrow> \<not> int (length (workers m)) < num \<Longrightarrow> main_step num m (m\<lparr>main_at := MWaiting\<rparr>)"
| wait: "main_at m = MWaiting \<Longrightarrow> dialWg m = 0 \<Longrightarrow> main_step num m (m\<lparr>main_at := MHolding\<rparr>)"
| dialed: "worker_at m j WDialing \<Longrightarrow> main_step num m (m\<lparr>workers := (workers m)[j := WDialed]\<rparr>)"
| receive: "worker_at m j WDialed \<Longrightarrow> 0 < dialSem m \<Longrightarrow>
    main_step num m (m\<lparr>workers := (workers m)[j := WReceived], dialSem := dialSem m - 1\<rparr>)"
| finish: "worker_at m j WReceived \<Longrightarrow>
    main_step num m (m\<lparr>workers := (workers m)[j := WDone], dialWg := dialWg m - 1\<rparr>)"

definition main_start :: stress_main where
  "main_start = \<lparr>main_at = MLoop, dialSem = 0, dialWg = 0, workers = []\<rparr>"

definition count_at :: "(worker_pc \<Rightarrow> bool) \<Rightarrow> stress_main \<Rightarrow> int" where
  "count_at P m = int (length (filter P (workers m)))"

abbreviation has_slot :: "worker_pc \<Rightarrow> bool" where
  "has_slot p \<equiv> p = WDialing \<or> p = WDialed"

text \<open>
  The channel holds a value for each goroutine that has not received, and one more between the send and the
  start of the goroutine; the wait group counts the goroutines that are not done.
\<close>

definition main_inv :: "int \<Rightarrow> stress_main \<Rightarrow> bool" where
  "main_inv num m \<longleftrightarrow>
     int (dialSem m) = count_at has_slot m + (if main_at m = MTaken \<or> main_at m = MAdded then 1 else 0) \<and>
     dialSem m \<le> maxDials \<and>
     dialWg m = count_at (\<lambda>p. p \<noteq> WDone) m + (if main_at m = MAdded then 1 else 0) \<and>
     int (length (workers m)) + (if main_at m = MTaken \<or> main_at m = MAdded then 1 else 0) \<le> max 0 num \<and>
     (main_at m = MWaiting \<or> main_at m = MHolding \<longrightarrow> int (length (workers m)) = max 0 num) \<and>
     (main_at m = MHolding \<longrightarrow> count_at (\<lambda>p. p \<noteq> WDone) m = 0)"

lemma count_at_move:
  "worker_at m j q \<Longrightarrow> workers m' = (workers m)[j := p] \<Longrightarrow>
     count_at P m' = count_at P m - (if P q then 1 else 0) + (if P p then 1 else 0)"
  by (auto simp: count_at_def worker_at_def count_update)

lemma count_at_spawn: "workers m' = workers m @ [p] \<Longrightarrow> count_at P m' = count_at P m + (if P p then 1 else 0)"
  by (simp add: count_at_def)

lemma count_at_same: "workers m' = workers m \<Longrightarrow> count_at P m' = count_at P m"
  by (simp add: count_at_def)

lemma count_at_pos: "worker_at m j q \<Longrightarrow> P q \<Longrightarrow> 1 \<le> count_at P m"
proof -
  assume "worker_at m j q" "P q"
  then have "q \<in> set (filter P (workers m))" by (auto simp: worker_at_def)
  then show ?thesis by (cases "filter P (workers m)") (auto simp: count_at_def)
qed

lemma count_at_none: "count_at P m = 0 \<longleftrightarrow> list_all (\<lambda>p. \<not> P p) (workers m)"
  by (auto simp: count_at_def filter_empty_conv list_all_iff)

lemma main_step_inv: "main_step num m m' \<Longrightarrow> main_inv num m \<Longrightarrow> main_inv num m'"
proof (induction rule: main_step.induct)
  case (dialed m j)
  then show ?case
    using count_at_move [OF dialed(1), of "m\<lparr>workers := (workers m)[j := WDialed]\<rparr>" WDialed has_slot]
      count_at_move [OF dialed(1), of "m\<lparr>workers := (workers m)[j := WDialed]\<rparr>" WDialed "\<lambda>p. p \<noteq> WDone"]
    by (simp add: main_inv_def)
next
  case (receive m j)
  let ?m = "m\<lparr>workers := (workers m)[j := WReceived], dialSem := dialSem m - 1\<rparr>"
  show ?case
    using receive count_at_move [OF receive(1), of ?m WReceived has_slot]
      count_at_move [OF receive(1), of ?m WReceived "\<lambda>p. p \<noteq> WDone"]
    by (simp add: main_inv_def) linarith
next
  case (finish m j)
  let ?m = "m\<lparr>workers := (workers m)[j := WDone], dialWg := dialWg m - 1\<rparr>"
  show ?case
    using finish count_at_move [OF finish(1), of ?m WDone has_slot]
      count_at_move [OF finish(1), of ?m WDone "\<lambda>p. p \<noteq> WDone"] count_at_pos [OF finish(1), of "\<lambda>p. p \<noteq> WDone"]
    by (auto simp: main_inv_def)
qed (auto simp: main_inv_def count_at_def max_def)

text \<open>What a run still has to do: three steps of \<open>main\<close> per connection, three of each goroutine, two at the end.\<close>

fun worker_left :: "worker_pc \<Rightarrow> nat" where
  "worker_left WDialing = 3"
| "worker_left WDialed = 2"
| "worker_left WReceived = 1"
| "worker_left WDone = 0"

fun main_left :: "main_pc \<Rightarrow> nat" where
  "main_left MLoop = 2"
| "main_left MTaken = 7"
| "main_left MAdded = 6"
| "main_left MWaiting = 1"
| "main_left MHolding = 0"

definition steps_left :: "int \<Rightarrow> stress_main \<Rightarrow> nat" where
  "steps_left num m = main_left (main_at m) + sum_list (map worker_left (workers m)) +
     6 * (nat (num - int (length (workers m))) - (if main_at m = MTaken \<or> main_at m = MAdded then 1 else 0))"

lemma sum_list_left: "j < length ws \<Longrightarrow> worker_left (ws ! j) = Suc (worker_left p) \<Longrightarrow>
  Suc (sum_list (map worker_left (ws[j := p]))) = sum_list (map worker_left ws)"
proof (induction ws arbitrary: j)
  case (Cons w ws)
  then show ?case by (cases j) auto
qed simp

lemma steps_left_move:
  "worker_at m j q \<Longrightarrow> worker_left q = Suc (worker_left p) \<Longrightarrow> workers m' = (workers m)[j := p] \<Longrightarrow>
     main_at m' = main_at m \<Longrightarrow> Suc (steps_left num m') = steps_left num m"
  using sum_list_left [of j "workers m" p] by (auto simp: steps_left_def worker_at_def)

lemma main_step_left: "main_step num m m' \<Longrightarrow> main_inv num m \<Longrightarrow> Suc (steps_left num m') = steps_left num m"
proof (induction rule: main_step.induct)
  case (dialed m j)
  show ?case by (rule steps_left_move [OF dialed(1)]) simp_all
next
  case (receive m j)
  show ?case by (rule steps_left_move [OF receive(1)]) simp_all
next
  case (finish m j)
  show ?case by (rule steps_left_move [OF finish(1)]) simp_all
qed (auto simp: steps_left_def main_inv_def)

text \<open>Until \<open>main\<close> holds the connections, and the goroutines are done, somebody can go on.\<close>

lemma main_progress:
  assumes inv: "main_inv num m" and left: "steps_left num m \<noteq> 0"
  shows "\<exists>m'. main_step num m m'"
proof -
  consider j where "worker_at m j WDialing" | j where "worker_at m j WDialed" | j where "worker_at m j WReceived"
    | "list_all (\<lambda>p. p = WDone) (workers m)"
    unfolding list_all_length worker_at_def using worker_pc.exhaust by blast
  then show ?thesis
  proof cases
    case 1
    then show ?thesis by (blast intro: main_step.dialed)
  next
    case 2
    then have "0 < dialSem m" using inv count_at_pos [OF 2, of has_slot] by (auto simp: main_inv_def split: if_splits)
    with 2 show ?thesis by (blast intro: main_step.receive)
  next
    case 3
    then show ?thesis by (blast intro: main_step.finish)
  next
    case 4
    then have none: "count_at has_slot m = 0" "count_at (\<lambda>p. p \<noteq> WDone) m = 0"
      by (auto simp: count_at_none list_all_iff)
    show ?thesis
    proof (cases "main_at m")
      case MLoop
      then have "dialSem m < maxDials" using inv none by (simp add: main_inv_def maxDials_def)
      with MLoop show ?thesis using main_step.take_slot main_step.leave by blast
    next
      case MWaiting
      then have "dialWg m = 0" using inv none by (simp add: main_inv_def)
      with MWaiting show ?thesis using main_step.wait by blast
    next
      case MHolding
      then have "sum_list (map worker_left (workers m)) \<noteq> 0" using left inv by (auto simp: steps_left_def main_inv_def)
      with 4 show ?thesis by (auto simp: list_all_iff)
    next
      case MTaken
      then show ?thesis using main_step.add by blast
    next
      case MAdded
      then show ?thesis using main_step.spawn by blast
    qed
  qed
qed

lemma main_start_inv: "main_inv num main_start"
  by (simp add: main_inv_def main_start_def count_at_def)

lemma main_runs_inv: "(main_step num)\<^sup>*\<^sup>* main_start m \<Longrightarrow> main_inv num m"
  by (induction rule: rtranclp_induct) (auto intro: main_start_inv main_step_inv)

lemma main_finishes: "main_inv num m \<Longrightarrow> \<exists>m'. (main_step num ^^ steps_left num m) m m' \<and> steps_left num m' = 0"
proof (induction "steps_left num m" arbitrary: m)
  case 0
  then show ?case by (intro exI [of _ m]) auto
next
  case (Suc k)
  then obtain m1 where m1: "main_step num m m1" using main_progress [of num m] by auto
  with main_step_left [OF this Suc.prems] Suc.hyps(2) have "k = steps_left num m1" by simp
  with Suc.hyps(1) [OF this main_step_inv [OF m1 Suc.prems]] Suc.hyps(2) m1 show ?case
    by (metis relpowp_Suc_I2)
qed

text \<open>
  C36: The dials of the load generator.  However \<open>main\<close> and the goroutines interleave, at most 500 dials run at the
  same time, no more goroutines are started than connections were asked for, and when \<open>main\<close> gets past its
  wait all of them have been started and are done.  No schedule gets stuck: every run can be continued until
  \<open>main\<close> holds the connections, and none is longer than \<open>6 * num + 2\<close> steps.
\<close>

theorem stress_dials:
  assumes run: "(main_step num ^^ k) main_start m"
  shows "count_at (\<lambda>p. p = WDialing) m \<le> 500 \<and> int (length (workers m)) \<le> max 0 num \<and>
    (main_at m = MHolding \<longrightarrow> workers m = replicate (nat num) WDone) \<and>
    k \<le> 6 * nat num + 2 \<and>
    (\<exists>m'. (main_step num)\<^sup>*\<^sup>* m m' \<and> main_at m' = MHolding)"
proof -
  have inv: "main_inv num m" by (rule main_runs_inv [OF relpowp_imp_rtranclp [OF run]])
  have "length (filter (\<lambda>p. p = WDialing) ws) \<le> length (filter has_slot ws)" for ws by (induction ws) auto
  then have "count_at (\<lambda>p. p = WDialing) m \<le> count_at has_slot m" by (simp add: count_at_def)
  with inv have slots: "count_at (\<lambda>p. p = WDialing) m \<le> 500" by (auto simp: main_inv_def maxDials_def split: if_splits)
  have "workers m = replicate (nat num) WDone" if "main_at m = MHolding"
  proof -
    from inv that have "list_all (\<lambda>p. p = WDone) (workers m)" "int (length (workers m)) = max 0 num"
      by (simp_all add: main_inv_def count_at_none)
    then show ?thesis by (intro replicate_eqI) (auto simp: list_all_iff)
  qed
  moreover have "k + steps_left num m = steps_left num main_start" using run
  proof (induction k arbitrary: m)
    case (Suc k)
    then obtain m0 where m0: "(main_step num ^^ k) main_start m0" "main_step num m0 m" by auto
    have "main_inv num m0" by (rule main_runs_inv [OF relpowp_imp_rtranclp [OF m0(1)]])
    from Suc.IH [OF m0(1)] main_step_left [OF m0(2) this] show ?case by simp
  qed simp
  then have "k \<le> 6 * nat num + 2" by (simp add: steps_left_def main_start_def)
  moreover obtain m' where m': "(main_step num ^^ steps_left num m) m m'" "steps_left num m' = 0"
    using main_finishes [OF inv] by blast
  have "main_at m' = MHolding" using m'(2) by (cases "main_at m'") (simp_all add: steps_left_def)
  with relpowp_imp_rtranclp [OF m'(1)] have "\<exists>m'. (main_step num)\<^sup>*\<^sup>* m m' \<and> main_at m' = MHolding" by blast
  moreover have "int (length (workers m)) \<le> max 0 num" using inv by (simp add: main_inv_def split: if_splits)
  ultimately show ?thesis using slots by blast
qed

theorem stress_dials_witness:
  "\<exists>m m'. main_step 1 main_start m \<and> dialSem m = 1 \<and> (main_step 1)\<^sup>*\<^sup>* m m' \<and> main_at m' = MHolding"
proof -
  let ?m = "main_start\<lparr>main_at := MTaken, dialSem := 1\<rparr>"
  have s: "main_step 1 main_start ?m"
    using main_step.take_slot [of main_start 1] by (simp add: main_start_def maxDials_def)
  then have "(main_step 1 ^^ 1) main_start ?m" by (simp add: relcompp_apply)
  moreover have "dialSem ?m = 1" by simp
  ultimately show ?thesis using stress_dials s by blast
qed

end
