(* ===== verification/Ws_Lifetime.thy ===== *)
theory Ws_Lifetime
  imports Ws_Client Ws_Writer Sync_Objects
begin

text \<open>
  The life of a client's connections, \<open>src/pkg/websocket/client.go\<close>: what \<open>ServeConn\<close> tells the handler after the
  handshake, seen through the close tracker, and \<open>Wait\<close> with any number of connections that share a client.
\<close>

section \<open>The client's callbacks\<close>

text \<open>
  The handler that \<open>Dial\<close> gives to \<open>ServeConn\<close> is the tracker around the application's handler: a close goes through
  \<open>tracker_OnClose\<close>, closing the connection runs its callback, and the rest is handed on.  The pong that the
  loop sends itself is no callback.
\<close>

fun track :: "ws_event \<Rightarrow> dialing \<Rightarrow> dialing outcome" where
  "track (OnClose e) d = tracker_OnClose e d"
| "track ConnClosed d = closeConn d"
| "track (ServerMessage op p) d = Return d"
| "track ev d = Return (d\<lparr>told := told d @ [ev]\<rparr>)"

fun track_all :: "ws_event list \<Rightarrow> dialing \<Rightarrow> dialing outcome" where
  "track_all [] d = Return d"
| "track_all (e # es) d = bind_outcome (track e d) (track_all es)"

text \<open>\<open>OnRequest\<close> of a connection whose handshake is done.\<close>

definition clientServe ::
  "ws_lib \<Rightarrow> ('r, 'w) flate_lib \<Rightarrow> nat \<Rightarrow> netpoll \<Rightarrow> nat \<Rightarrow> dialing \<times> ('r, 'w) conn \<Rightarrow>
     (go_error option \<times> dialing \<times> ('r, 'w) conn) outcome" where
  "clientServe lib fl dfuel np fuel = (\<lambda>(d, c).
     if \<not> conn_open d then bind_outcome (tracker_OnClose None d) (\<lambda>d. Return (None, d, c))
     else
       bind_outcome (ServeConn lib fl dfuel client_mode np fuel 0 (c\<lparr>trace := []\<rparr>)) (\<lambda>(err, c).
       bind_outcome (track_all (trace c) d) (\<lambda>d. Return (err, d, c))))"

text \<open>
  Everything that happens to a connection after it has been made: what netpoll delivers during the handshake, the
  end of \<open>Dial\<close>, the callbacks of a call of \<open>ServeConn\<close>, a request on an inactive connection, and
  the end of the connection.
\<close>

datatype conn_op =
    Handshake bytes "go_error option" bytes | Decide | Callbacks "ws_event list" | Inactive | ConnGone

fun conn_act :: "conn_op \<Rightarrow> dialing \<Rightarrow> dialing outcome" where
  "conn_act (Handshake secKey peeked available) d = deliver secKey (Data peeked available) d"
| "conn_act Decide d = bind_outcome (dialResult d) (\<lambda>(err, d). Return d)"
| "conn_act (Callbacks es) d = track_all (filter (\<lambda>e. e \<noteq> OnOpen) es) d"
| "conn_act Inactive d = tracker_OnClose None d"
| "conn_act ConnGone d = closeConn d"

text \<open>
  The invariant of one connection, whatever the wait group stands at: one report of its end, after which the tracker
  knows of it, one of its start when the handshake is over, and a closed connection has been reported.
\<close>

definition conn_inv :: "dialing \<Rightarrow> bool" where
  "conn_inv d \<longleftrightarrow> length (filter is_close (told d)) = (if closedOnce d then 1 else 0) \<and>
     length (filter ((=) OnOpen) (told d)) = (if isHandshake d then 0 else 1) \<and> (\<not> conn_open d \<longrightarrow> closedOnce d)"

text \<open>What an action does to the accounts.\<close>

definition accounts :: "dialing \<Rightarrow> dialing outcome \<Rightarrow> bool" where
  "accounts d r \<longleftrightarrow> (\<exists>d'. r = Return d' \<and> conn_inv d' \<and> (closedOnce d \<longrightarrow> closedOnce d') \<and>
     wg d' = wg d - (if \<not> closedOnce d \<and> closedOnce d' then 1 else 0))"

definition counted_in :: "dialing \<Rightarrow> bool" where
  "counted_in d \<longleftrightarrow> conn_inv d \<and> (\<not> closedOnce d \<longrightarrow> 1 \<le> wg d)"

lemma accounts_Return [simp]:
  "accounts d (Return d') \<longleftrightarrow> conn_inv d' \<and> (closedOnce d \<longrightarrow> closedOnce d') \<and>
     wg d' = wg d - (if \<not> closedOnce d \<and> closedOnce d' then 1 else 0)"
  by (simp add: accounts_def)

lemma accounts_counted: "accounts d (Return d') \<Longrightarrow> counted_in d \<Longrightarrow> counted_in d'"
  by (auto simp: counted_in_def)

lemma accounts_bind:
  assumes "accounts d r" "counted_in d" "\<And>d'. counted_in d' \<Longrightarrow> accounts d' (f d')"
  shows "accounts d (bind_outcome r f)"
proof -
  obtain d' where r: "r = Return d'" using assms(1) by (auto simp: accounts_def)
  have "accounts d' (f d')" using assms r accounts_counted by blast
  with assms(1) r show ?thesis by (auto simp: accounts_def split: if_splits)
qed

lemma tracker_accounts: "conn_inv (d\<lparr>conn_open := True\<rparr>) \<Longrightarrow> \<not> closedOnce d \<longrightarrow> 1 \<le> wg d \<Longrightarrow> accounts d (tracker_OnClose e d)"
  by (auto simp: tracker_OnClose_def wg_Done_def accounts_def conn_inv_def)

lemma conn_inv_open: "conn_inv d \<Longrightarrow> conn_inv (d\<lparr>conn_open := True\<rparr>)"
  by (simp add: conn_inv_def)

lemma closeConn_accounts: "counted_in d \<Longrightarrow> accounts d (closeConn d)"
  using tracker_accounts [of "d\<lparr>conn_open := False\<rparr>"]
  by (auto simp: closeConn_def counted_in_def conn_inv_open accounts_def)

lemma track_accounts: "counted_in d \<Longrightarrow> e \<noteq> OnOpen \<Longrightarrow> accounts d (track e d)"
  by (cases e) (auto simp: closeConn_accounts tracker_accounts conn_inv_open counted_in_def,
      auto simp: conn_inv_def)

lemma track_all_accounts: "counted_in d \<Longrightarrow> OnOpen \<notin> set es \<Longrightarrow> accounts d (track_all es d)"
proof (induction es arbitrary: d)
  case (Cons e es)
  then have "accounts d (track e d)" by (auto intro: track_accounts)
  then show ?case using Cons by (auto intro: accounts_bind)
qed (simp add: counted_in_def)

lemma deliver_open:
  "\<not> isHandshake d \<Longrightarrow> deliver secKey (Data peeked available) d = (if conn_open d then Return d else tracker_OnClose None d)"
  by (cases "tracker_OnClose None d") (simp_all add: clientOnRequest_def)

lemma deliver_handshake:
  "isHandshake d \<Longrightarrow> conn_inv d \<Longrightarrow> \<exists>d'. deliver secKey (Data peeked available) d = Return d' \<and> conn_inv d' \<and> wg d' = wg d \<and>
     closedOnce d' = closedOnce d"
  by (cases "handshakeStep peeked available secKey")
    (auto simp: clientOnRequest_def reportHandshake_def conn_inv_def)

lemma deliver_accounts: "counted_in d \<Longrightarrow> accounts d (deliver secKey (Data peeked available) d)"
proof (cases "isHandshake d")
  case True
  then show "counted_in d \<Longrightarrow> ?thesis"
    using deliver_handshake [of d secKey peeked available] unfolding counted_in_def accounts_def by auto
next
  case False
  then show "counted_in d \<Longrightarrow> ?thesis"
    using tracker_accounts [OF conn_inv_open, of d None] by (simp add: deliver_open counted_in_def del: deliver.simps)
qed

text \<open>The end of a dial that has failed.\<close>

definition shut :: "go_error \<Rightarrow> dialing \<Rightarrow> dialing outcome" where
  "shut e d = bind_outcome (closeConn d) (tracker_OnClose (Some e))"

lemma shut_accounts:
  assumes "counted_in d"
  shows "accounts d (shut e d)"
proof -
  have "accounts d' (tracker_OnClose (Some e) d')" if "counted_in d'" for d'
    using tracker_accounts [OF conn_inv_open, of d' "Some e"] that by (simp add: counted_in_def)
  with accounts_bind [OF closeConn_accounts [OF assms] assms] show ?thesis by (simp add: shut_def)
qed

lemma dialResult_shut:
  "bind_outcome (dialResult d) (\<lambda>(err, d). Return d) =
     (case handshakeDone d of
        Some None \<Rightarrow> Return d
      | Some (Some e) \<Rightarrow> shut e d
      | None \<Rightarrow> shut (Errorf ''handshake timeout'') (d\<lparr>hasOnRequest := False\<rparr>))"
proof -
  have "bind_outcome m (\<lambda>d. Return d) = m" for m :: "dialing outcome" by (cases m) simp_all
  then show ?thesis by (simp add: dialResult_def shut_def bind_outcome_assoc split: option.split)
qed

lemma dialResult_accounts:
  assumes "counted_in d"
  shows "accounts d (bind_outcome (dialResult d) (\<lambda>(err, d). Return d))"
proof -
  let ?d = "d\<lparr>hasOnRequest := False\<rparr>"
  have "accounts ?d (shut e ?d)" for e
    using assms by (intro shut_accounts) (simp add: counted_in_def conn_inv_def)
  then have "accounts d (shut e ?d)" for e by (simp add: accounts_def)
  with shut_accounts [OF assms] assms show ?thesis
    unfolding dialResult_shut by (simp add: counted_in_def split: option.split)
qed

lemma conn_act_accounts: "counted_in d \<Longrightarrow> accounts d (conn_act a d)"
proof (cases a)
  case Inactive
  then show "counted_in d \<Longrightarrow> ?thesis" using tracker_accounts [OF conn_inv_open] by (simp add: counted_in_def)
qed (simp_all only: conn_act.simps deliver_accounts dialResult_accounts closeConn_accounts track_all_accounts set_filter mem_Collect_eq simp_thms)

section \<open>The client\<close>

text \<open>
  A client with its wait group, the dials that have called \<open>wg.Add\<close> and are not connected yet, and its
  connections.  Each step is one of the steps of \<open>Dial\<close> before there is a connection, or a callback of one of the
  connections, in any order.  The two failures that \<open>dial_double_done\<close> is about, after which the wait group is
  wrong, are left out here.
\<close>

definition shared_act :: "conn_op \<Rightarrow> int \<Rightarrow> dialing \<Rightarrow> (int \<times> dialing) outcome" where
  "shared_act a n d = bind_outcome (conn_act a (d\<lparr>wg := n\<rparr>)) (\<lambda>d. Return (wg d, d))"

interpretation tracker: tracked conn_inv "\<lambda>d. \<not> closedOnce d" shared_act
proof
  fix d and n :: int and a assume "conn_inv d" "\<not> closedOnce d \<longrightarrow> 1 \<le> n"
  then have "counted_in (d\<lparr>wg := n\<rparr>)" by (simp add: counted_in_def conn_inv_def)
  from conn_act_accounts [OF this, of a] obtain d' where "conn_act a (d\<lparr>wg := n\<rparr>) = Return d'" "conn_inv d'"
    "closedOnce d \<longrightarrow> closedOnce d'" "wg d' = n - (if \<not> closedOnce d \<and> closedOnce d' then 1 else 0)"
    by (auto simp: accounts_def)
  then show "\<exists>n' d'. shared_act a n d = Return (n', d') \<and> conn_inv d' \<and>
      (\<not> closedOnce d' \<longrightarrow> \<not> closedOnce d) \<and> n' = n - (if \<not> closedOnce d \<and> \<not> \<not> closedOnce d' then 1 else 0)"
    by (intro exI [of _ "wg d'"] exI [of _ d']) (auto simp: shared_act_def)
qed

record client =
  DialTimeout :: int
  cl_wg :: int
  cl_dialling :: nat
  cl_conns :: "dialing list"
  cl_crashed :: bool

definition connected_dial :: dialing where
  "connected_dial = (newDialing 0)\<lparr>conn_open := True, hasOnRequest := True\<rparr>"

definition NewClient :: client where
  "NewClient = \<lparr>DialTimeout = 10 * 1000000000, cl_wg = 0, cl_dialling = 0, cl_conns = [], cl_crashed = False\<rparr>"

text \<open>\<open>wg.Wait\<close> returns when the counter is zero.\<close>

definition Wait_returns :: "client \<Rightarrow> bool" where
  "Wait_returns g \<longleftrightarrow> cl_wg g = 0"

inductive client_step :: "client \<Rightarrow> client \<Rightarrow> bool" where
  dial: "client_step g (g\<lparr>cl_wg := cl_wg g + 1, cl_dialling := Suc (cl_dialling g)\<rparr>)"
| dial_failed: "cl_dialling g = Suc k \<Longrightarrow> client_step g (if cl_wg g - 1 < 0 then g\<lparr>cl_crashed := True\<rparr>
    else g\<lparr>cl_wg := cl_wg g - 1, cl_dialling := k\<rparr>)"
| dial_connected: "cl_dialling g = Suc k \<Longrightarrow> client_step g (g\<lparr>cl_dialling := k, cl_conns := cl_conns g @ [connected_dial]\<rparr>)"
| callback: "i < length (cl_conns g) \<Longrightarrow> client_step g
    (case shared_act a (cl_wg g) (cl_conns g ! i) of
       Return (n, d) \<Rightarrow> g\<lparr>cl_wg := n, cl_conns := (cl_conns g)[i := d]\<rparr>
     | _ \<Rightarrow> g\<lparr>cl_crashed := True\<rparr>)"

inductive client_reachable :: "client \<Rightarrow> bool" where
  start: "client_reachable NewClient"
| step: "client_reachable g \<Longrightarrow> client_step g g' \<Longrightarrow> client_reachable g'"

definition client_inv :: "client \<Rightarrow> bool" where
  "client_inv g \<longleftrightarrow> \<not> cl_crashed g \<and> list_all conn_inv (cl_conns g) \<and>
     cl_wg g = tracker.lives (cl_conns g) + int (cl_dialling g)"

lemma client_inv_step: "client_step g g' \<Longrightarrow> client_inv g \<Longrightarrow> client_inv g'"
proof (induction rule: client_step.induct)
  case (dial_failed g k)
  have "0 \<le> tracker.lives (cl_conns g)" by (simp add: tracker.lives_def)
  with dial_failed show ?case by (auto simp: client_inv_def)
next
  case (dial_connected g k)
  have "conn_inv connected_dial" "\<not> closedOnce connected_dial" by (simp_all add: conn_inv_def connected_dial_def newDialing_def)
  with dial_connected show ?case by (auto simp: client_inv_def tracker.lives_def)
next
  case (callback i g a)
  from callback.prems have "list_all conn_inv (cl_conns g)" "cl_wg g = tracker.lives (cl_conns g) + int (cl_dialling g)"
    by (simp_all add: client_inv_def)
  from tracker.one_act [OF this callback.hyps, of a] callback.prems show ?case by (auto simp: client_inv_def)
qed (simp add: client_inv_def)

lemma client_reachable_inv: "client_reachable g \<Longrightarrow> client_inv g"
proof (induction rule: client_reachable.induct)
  case (step g g')
  then show ?case by (blast intro: client_inv_step)
qed (simp add: client_inv_def NewClient_def tracker.lives_def)

section \<open>Properties\<close>

text \<open>
  A call of \<open>ServeConn\<close> in the callback is one of these steps: what it tells the tracker never includes a start.
\<close>

lemma clientServe_callbacks:
  assumes "clientServe lib fl dfuel np fuel (d, c) = Return (err, d', c')" "conn_open d"
  shows "conn_act (Callbacks (trace c')) d = Return d' \<and> (closes (trace c') = (if err = None then 0 else 1))"
proof -
  obtain c1 where c1: "ServeConn lib fl dfuel client_mode np fuel 0 (c\<lparr>trace := []\<rparr>) = Return (err, c1)"
    "track_all (trace c1) d = Return d'" "c' = c1"
    using assms by (auto simp: clientServe_def bind_outcome_Return_iff)
  have "closes (trace c1) = (if err = None then 0 else 1)" "OnOpen \<notin> set (trace c1)"
    using ServeConn_reports [OF c1(1)] by (auto simp: reports_def)
  moreover from this(2) have "filter (\<lambda>e. e \<noteq> OnOpen) (trace c1) = trace c1" by (simp add: filter_id_conv, metis)
  ultimately show ?thesis using c1 by simp
qed


text \<open>
  After a protocol error the client's connection stays open.  \<open>ServeConn\<close> reports the end of the connection and
  returns the error, but netpoll ignores what \<open>OnRequest\<close> returns: the handler is told of the messages that follow, after
  it has been told that the connection is closed, and \<open>Wait\<close> does not wait for it any more.  Here a
  stray continuation frame comes first and then a text message.
\<close>

definition opened_dial :: dialing where
  "opened_dial = connected_dial\<lparr>wg := 1, isHandshake := False, handshakeDone := Some None, told := [OnOpen]\<rparr>"

theorem client_message_after_close:
  "case clientServe rfc_lib stored_lib 100 always_active 10 (opened_dial, some_conn [128, 0]) of
     Return (e, d, c) \<Rightarrow>
       e = Some ErrUnexpectedContinuation \<and> conn_open d \<and> wg d = 0 \<and>
       told d = [OnOpen, OnClose (Some ErrUnexpectedContinuation)] \<and>
       (case clientServe rfc_lib stored_lib 100 always_active 10 (d, c\<lparr>net := (net c)\<lparr>recv := [129, 1, 104]\<rparr>\<rparr>) of
          Return (e', d', c') \<Rightarrow> told d' = [OnOpen, OnClose (Some ErrUnexpectedContinuation), OnMessage 1 [104]]
        | _ \<Rightarrow> False)
   | _ \<Rightarrow> False"
  by code_simp

section \<open>Witnesses\<close>


end
