(* ===== verification/State_Context.thy ===== *)
theory State_Context
  imports Engine_State
begin

text \<open>
  A connection's state as the \<open>context.Context\<close> of its requests (\<open>src/pkg/engine/engine.go\<close>), and the
  goroutine of \<open>CloseNotify\<close> (\<open>src/pkg/adaptor/adaptor.go\<close>) that waits for its end.
\<close>

section \<open>The methods of a context\<close>

text \<open>
  A state has no deadline; \<open>Value\<close> compares its argument with a key that is an empty struct, and so equal to every
  other empty struct.
\<close>

datatype ctx_key = EmptyStruct | OtherKey nat

definition CtxKeyConnectionState :: ctx_key where
  "CtxKeyConnectionState = EmptyStruct"

definition state_Deadline :: "ConnectionState \<Rightarrow> int option" where
  "state_Deadline s = None"

definition state_Done :: "ConnectionState \<Rightarrow> channel" where
  "state_Done s = done_chan s"

definition state_Err :: "ConnectionState \<Rightarrow> go_error option" where
  "state_Err s = err s"

definition state_Value :: "ConnectionState \<Rightarrow> ctx_key \<Rightarrow> ConnectionState option" where
  "state_Value s key = (if key = CtxKeyConnectionState then Some s else None)"

section \<open>The contract of a context\<close>

text \<open>
  What package \<open>context\<close> asks of an implementation, for the users that are entitled to it: \<open>Err\<close> is \<open>nil\<close> until
  \<open>Done\<close> is closed and not afterwards, and an error, once there is one, stays.
\<close>

locale go_context =
  fixes entitled :: "'s \<Rightarrow> bool"
    and Done :: "'s \<Rightarrow> channel"
    and Err :: "'s \<Rightarrow> go_error option"
    and next_state :: "'s \<Rightarrow> 's \<Rightarrow> bool"
  assumes err_done: "entitled s \<Longrightarrow> Err s \<noteq> None \<longleftrightarrow> Done s = ClosedChan"
    and err_stays: "entitled s \<Longrightarrow> next_state s s' \<Longrightarrow> entitled s' \<Longrightarrow> Err s \<noteq> None \<Longrightarrow> Err s' = Err s"
begin

text \<open>A run all of whose states the user is entitled to.\<close>

inductive entitled_run :: "'s \<Rightarrow> 's \<Rightarrow> bool" where
  here: "entitled s \<Longrightarrow> entitled_run s s"
| further: "entitled_run s s' \<Longrightarrow> next_state s' s'' \<Longrightarrow> entitled s'' \<Longrightarrow> entitled_run s s''"

lemma entitled_end: "entitled_run s s' \<Longrightarrow> entitled s \<and> entitled s'"
  by (induction rule: entitled_run.induct) auto

lemma cancelled_stays: "entitled_run s s' \<Longrightarrow> Err s \<noteq> None \<Longrightarrow> Err s' = Err s"
proof (induction rule: entitled_run.induct)
  case (further s s' s'')
  then have "Err s' = Err s" by blast
  with further err_stays [of s' s''] entitled_end [OF further.hyps(1)] show ?case by simp
qed simp

lemma done_stays: "entitled_run s s' \<Longrightarrow> Done s = ClosedChan \<Longrightarrow> Done s' = ClosedChan"
  using cancelled_stays err_done entitled_end by metis

end

text \<open>Whoever holds a reference to a reachable state is entitled to it.\<close>

definition held :: "life \<Rightarrow> bool" where
  "held l \<longleftrightarrow> reachable l \<and> refs l \<noteq> 0"

lemma held_state:
  assumes "held l"
  shows "state_Err (cs l) = (if owner l = Connected then None else Some Canceled)"
    and "state_Done (cs l) = (if owner l = Connected then OpenChan else ClosedChan)"
proof -
  have "life_inv l" "refs l \<noteq> 0" using assms reachable_inv by (auto simp: held_def)
  then show "state_Err (cs l) = (if owner l = Connected then None else Some Canceled)"
    "state_Done (cs l) = (if owner l = Connected then OpenChan else ClosedChan)"
    by (auto simp: life_inv_def state_Err_def state_Done_def)
qed

lemma lstep_owner: "lstep l l' \<Longrightarrow> owner l \<noteq> Connected \<Longrightarrow> owner l' \<noteq> Connected"
  by (cases rule: lstep.cases) (auto simp: release_def split: prod.splits)

interpretation state_context: go_context held "\<lambda>l. state_Done (cs l)" "\<lambda>l. state_Err (cs l)" lstep
proof unfold_locales
  fix l l' assume "held l" "lstep l l'" "held l'" "state_Err (cs l) \<noteq> None"
  then show "state_Err (cs l') = state_Err (cs l)" using lstep_owner [of l l'] by (auto simp: held_state split: if_splits)
qed (auto simp: held_state)


text \<open>
  The contract ends with the last reference.  A goroutine that still has the context of a request whose
  connection is gone finds that the cancellation has been taken back: the release resets the state, and
  \<open>Done\<close> is a channel that never closes.
\<close>

theorem context_uncancelled:
  "\<exists>l l'. reachable l \<and> lstep l l' \<and> state_Err (cs l) = Some Canceled \<and> state_Done (cs l) = ClosedChan \<and>
     state_Err (cs l') = None \<and> state_Done (cs l') = NilChan"
proof -
  let ?l0 = "prepared_life 0 0"
  let ?l1 = "(set_cs ((cs ?l0)\<lparr>err := Some Canceled, done_chan := ClosedChan\<rparr>) ?l0)\<lparr>owner := Cancelled\<rparr>"
  have "Cancel (cs ?l0) = Return ((cs ?l0)\<lparr>err := Some Canceled, done_chan := ClosedChan\<rparr>)"
    by (simp add: Cancel_def prepared_life_def NewConnectionState_def)
  with lstep.cancel [of ?l0] have "lstep ?l0 ?l1" by (simp add: prepared_life_def)
  then have r: "reachable ?l1" using reachable.start reachable.step by blast
  have "lstep ?l1 ((release ?l1)\<lparr>owner := Gone\<rparr>)" by (rule lstep.disconnect) simp
  moreover have "cs ((release ?l1)\<lparr>owner := Gone\<rparr>) = zero_state"
    by (simp add: release_eq prepared_life_def NewConnectionState_def)
  ultimately show ?thesis using r by (intro exI [of _ ?l1] exI [of _ "(release ?l1)\<lparr>owner := Gone\<rparr>"])
    (simp add: state_Err_def state_Done_def zero_state_def)
qed

section \<open>CloseNotify\<close>

text \<open>
  \<open>CloseNotify\<close> starts a goroutine that evaluates \<open>w.ctx.Req().Done()\<close> and waits for it.  The goroutine runs on
  its own, so that what it finds in the writer is what is there when it gets to run: the writer's context may
  have been taken away by \<open>Release\<close>, or be the context of the request that uses the recycled writer now.

  Contexts are named by the connection they belong to: \<open>writer_ctx\<close> is the writer's field, \<open>req_set c\<close> says that the
  context has its request, and \<open>conn_done c\<close> is the channel of the connection's state.
\<close>

datatype watcher = Spawned | Loaded nat | Waiting nat | Told

record notify =
  writer_ctx :: "nat option"
  req_set :: "nat \<Rightarrow> bool"
  conn_done :: "nat \<Rightarrow> channel"
  watchers :: "watcher list"
  panicked :: bool

text \<open>The call itself: without a context the channel is ready at once, otherwise a goroutine is started.\<close>

definition CloseNotify :: "notify \<Rightarrow> notify" where
  "CloseNotify n = n\<lparr>watchers := watchers n @ [if writer_ctx n = None then Told else Spawned]\<rparr>"

definition watcher_at :: "notify \<Rightarrow> nat \<Rightarrow> watcher \<Rightarrow> bool" where
  "watcher_at n i w \<longleftrightarrow> i < length (watchers n) \<and> watchers n ! i = w"

text \<open>The two steps in which a goroutine reads the writer's context and its request, and the end of its wait.\<close>

definition load_ctx :: "nat \<Rightarrow> notify \<Rightarrow> notify" where
  "load_ctx i n =
     (case writer_ctx n of
        None \<Rightarrow> n\<lparr>panicked := True\<rparr>
      | Some c \<Rightarrow> n\<lparr>watchers := (watchers n)[i := Loaded c]\<rparr>)"

definition listen :: "nat \<Rightarrow> nat \<Rightarrow> notify \<Rightarrow> notify" where
  "listen i c n = (if req_set n c then n\<lparr>watchers := (watchers n)[i := Waiting c]\<rparr> else n\<lparr>panicked := True\<rparr>)"

inductive nstep :: "notify \<Rightarrow> notify \<Rightarrow> bool" where
  call: "nstep n (CloseNotify n)"
| load: "watcher_at n i Spawned \<Longrightarrow> nstep n (load_ctx i n)"
| hear: "watcher_at n i (Loaded c) \<Longrightarrow> nstep n (listen i c n)"
| tell: "watcher_at n i (Waiting c) \<Longrightarrow> conn_done n c = ClosedChan \<Longrightarrow> nstep n (n\<lparr>watchers := (watchers n)[i := Told]\<rparr>)"
| release: "nstep n (n\<lparr>writer_ctx := None\<rparr>)"
| free: "writer_ctx n \<noteq> Some c \<Longrightarrow> nstep n (n\<lparr>req_set := (req_set n)(c := False)\<rparr>)"
| take: "writer_ctx n = None \<Longrightarrow> nstep n (n\<lparr>writer_ctx := Some c, req_set := (req_set n)(c := True)\<rparr>)"
| disconnect: "nstep n (n\<lparr>conn_done := (conn_done n)(c := ClosedChan)\<rparr>)"

text \<open>A request on connection \<open>c\<close> whose handler is running, and the steps during which it goes on running.\<close>

definition handling :: "nat \<Rightarrow> notify \<Rightarrow> bool" where
  "handling c n \<longleftrightarrow> writer_ctx n = Some c \<and> req_set n c"

definition started :: "nat \<Rightarrow> notify" where
  "started c = \<lparr>writer_ctx = Some c, req_set = (\<lambda>_. False)(c := True), conn_done = (\<lambda>_. OpenChan), watchers = [], panicked = False\<rparr>"

inductive handler_runs :: "nat \<Rightarrow> notify \<Rightarrow> bool" where
  start: "handler_runs c (started c)"
| step: "handler_runs c n \<Longrightarrow> nstep n n' \<Longrightarrow> handling c n' \<Longrightarrow> handler_runs c n'"

definition watch_inv :: "nat \<Rightarrow> notify \<Rightarrow> bool" where
  "watch_inv c n \<longleftrightarrow> handling c n \<and> \<not> panicked n \<and> set (watchers n) \<subseteq> {Spawned, Loaded c, Waiting c, Told} \<and>
     (Told \<in> set (watchers n) \<longrightarrow> conn_done n c = ClosedChan)"

lemma watch_update:
  assumes "watch_inv c n" "w \<in> {Spawned, Loaded c, Waiting c, Told}" "w = Told \<longrightarrow> conn_done n c = ClosedChan"
  shows "watch_inv c (n\<lparr>watchers := (watchers n)[i := w]\<rparr>)"
  using assms set_update_subset_insert [of "watchers n" i w] by (auto simp: watch_inv_def handling_def)

lemma watch_inv_step:
  assumes "nstep n n'" "handling c n'" "watch_inv c n"
  shows "watch_inv c n'"
  using assms
proof (cases rule: nstep.cases)
  case (load i)
  then show ?thesis using assms watch_update [OF assms(3), of "Loaded c" i] by (auto simp: load_ctx_def watch_inv_def handling_def)
next
  case (hear i d)
  then have "d = c" using assms(3) by (auto simp: watch_inv_def watcher_at_def dest!: nth_mem)
  then show ?thesis using hear assms watch_update [OF assms(3), of "Waiting c" i] by (auto simp: listen_def watch_inv_def handling_def)
next
  case (tell i d)
  then have "d = c" using assms(3) by (auto simp: watch_inv_def watcher_at_def dest!: nth_mem)
  then show ?thesis using tell watch_update [OF assms(3), of Told i] by simp
qed (use assms in \<open>auto simp: watch_inv_def handling_def CloseNotify_def\<close>)

text \<open>
  While its handler runs, a request's notification is right: no goroutine panics, and one that has sent its
  value does so because the connection of the request is gone.
\<close>

theorem close_notify_running:
  assumes "handler_runs c n"
  shows "\<not> panicked n \<and> (Told \<in> set (watchers n) \<longrightarrow> conn_done n c = ClosedChan)"
proof -
  have "watch_inv c n" using assms
  proof (induction rule: handler_runs.induct)
    case (step c n n')
    then show ?case by (blast intro: watch_inv_step)
  qed (simp add: watch_inv_def handling_def started_def)
  then show ?thesis by (simp add: watch_inv_def)
qed

text \<open>
  After the handler has returned it is not.  A goroutine that gets to run only then finds no context and panics,
  which nothing recovers; or, when the writer has been recycled, it waits for the end of another connection
  and reports that one.
\<close>

theorem close_notify_late:
  "(\<exists>n. nstep\<^sup>*\<^sup>* (started 0) n \<and> panicked n) \<and>
   (\<exists>n. nstep\<^sup>*\<^sup>* (started 0) n \<and> \<not> panicked n \<and> Told \<in> set (watchers n) \<and> conn_done n 0 = OpenChan)"
proof (intro conjI)
  let ?n1 = "CloseNotify (started 0)"
  let ?n2 = "?n1\<lparr>writer_ctx := None\<rparr>"
  note go = rtranclp.rtrancl_into_rtrancl [where r = nstep]
  have 1: "nstep\<^sup>*\<^sup>* (started 0) ?n2" by (rule go [OF r_into_rtranclp [where r = nstep, OF nstep.call] nstep.release])
  have at: "watcher_at ?n2 0 Spawned" by (simp add: watcher_at_def CloseNotify_def started_def)
  have "nstep ?n2 (load_ctx 0 ?n2)" using at by (rule nstep.load)
  with 1 have "nstep\<^sup>*\<^sup>* (started 0) (load_ctx 0 ?n2)" by (rule go)
  then show "\<exists>n. nstep\<^sup>*\<^sup>* (started 0) n \<and> panicked n" by (intro exI [of _ "load_ctx 0 ?n2"]) (simp add: load_ctx_def)
  let ?n3 = "?n2\<lparr>writer_ctx := Some 1, req_set := (req_set ?n2)(1 := True)\<rparr>"
  let ?n4 = "load_ctx 0 ?n3"
  let ?n5 = "listen 0 1 ?n4"
  let ?n6 = "?n5\<lparr>conn_done := (conn_done ?n5)(1 := ClosedChan)\<rparr>"
  let ?n7 = "?n6\<lparr>watchers := (watchers ?n6)[0 := Told]\<rparr>"
  have 3: "nstep ?n2 ?n3" by (rule nstep.take) simp
  have 4: "nstep ?n3 ?n4" by (rule nstep.load) (simp add: watcher_at_def CloseNotify_def started_def)
  have 5: "nstep ?n4 ?n5" by (rule nstep.hear) (simp add: watcher_at_def load_ctx_def CloseNotify_def started_def)
  have 6: "nstep ?n5 ?n6" by (rule nstep.disconnect)
  have 7: "nstep ?n6 ?n7"
    by (rule nstep.tell [of _ _ 1]) (simp_all add: watcher_at_def load_ctx_def listen_def CloseNotify_def started_def)
  have "nstep\<^sup>*\<^sup>* (started 0) ?n7" by (rule go [OF go [OF go [OF go [OF go [OF 1 3] 4] 5] 6] 7])
  then show "\<exists>n. nstep\<^sup>*\<^sup>* (started 0) n \<and> \<not> panicked n \<and> Told \<in> set (watchers n) \<and> conn_done n 0 = OpenChan"
    by (intro exI [of _ ?n7]) (simp add: load_ctx_def listen_def CloseNotify_def started_def)
qed

section \<open>Witnesses\<close>


end
