(* ===== verification/Http_Server.thy ===== *)
theory Http_Server
  imports Engine_State
begin

text \<open>
  The server of \<open>src/pkg/server/server.go\<close>: its options, the connection limiter in netpoll's
  \<open>OnPrepare\<close> and \<open>OnDisconnect\<close> callbacks, and \<open>Serve\<close> and \<open>Shutdown\<close>.

  The callbacks run concurrently, and so do calls of \<open>Serve\<close> and \<open>Shutdown\<close>; \<open>lim_step\<close> and \<open>srv_step\<close>
  interleave them at their atomic operations.  The connection counter is an \<open>int\<close>: it stays far below
  the range of \<open>int32\<close>, since it is at most the number of open connections.
\<close>

section \<open>The server\<close>

record Server =
  eventLoop :: bool
  keepAliveTimeout :: int
  readTimeout :: int
  writeTimeout :: int
  maxConns :: int
  connsCount :: int
  shutdownRequested :: bool
  serving_flag :: bool
  started :: bool
  startedOnce :: bool
  ready_chan :: bool
  readyOnce :: bool

datatype server_option =
    WithMaxConns int | WithReadTimeout int | WithWriteTimeout int | WithKeepAliveTimeout int

fun apply_server_option :: "server_option \<Rightarrow> Server \<Rightarrow> Server" where
  "apply_server_option (WithMaxConns n) s = s\<lparr>maxConns := n\<rparr>"
| "apply_server_option (WithReadTimeout d) s = s\<lparr>readTimeout := d\<rparr>"
| "apply_server_option (WithWriteTimeout d) s = s\<lparr>writeTimeout := d\<rparr>"
| "apply_server_option (WithKeepAliveTimeout d) s = s\<lparr>keepAliveTimeout := d\<rparr>"

definition Second :: int where
  "Second = 1000000000"

definition NewServer :: "server_option list \<Rightarrow> Server" where
  "NewServer opts = fold apply_server_option opts
     \<lparr>eventLoop = False, keepAliveTimeout = 30 * Second, readTimeout = 10 * Second, writeTimeout = 10 * Second,
      maxConns = 0, connsCount = 0, shutdownRequested = False, serving_flag = False,
      started = False, startedOnce = False, ready_chan = False, readyOnce = False\<rparr>"

text \<open>\<open>started\<close> and \<open>ready_chan\<close> say whether the channels are closed; \<open>sync.Once\<close> closes them once.\<close>

definition markStarted :: "Server \<Rightarrow> Server" where
  "markStarted s = (if startedOnce s then s else s\<lparr>startedOnce := True, started := True\<rparr>)"

definition markReady :: "Server \<Rightarrow> Server" where
  "markReady s = (if readyOnce s then s else s\<lparr>readyOnce := True, ready_chan := True\<rparr>)"

section \<open>The callbacks\<close>

text \<open>The counter goes up; the result says whether the connection is over the limit.\<close>

definition countConn :: "Server \<Rightarrow> bool \<times> Server" where
  "countConn s =
     (let s = s\<lparr>connsCount := connsCount s + 1\<rparr> in (maxConns s > 0 \<and> connsCount s > maxConns s, s))"

definition uncountConn :: "Server \<Rightarrow> Server" where
  "uncountConn s = s\<lparr>connsCount := connsCount s - 1\<rparr>"

text \<open>What \<open>OnPrepare\<close> does to the connection.\<close>

datatype prepare_event = CloseConn | SetReadTimeout int | SetWriteTimeout int

text \<open>
  \<open>OnPrepare\<close>: \<open>timeoutErr\<close> is the error of \<open>SetReadTimeout\<close> and \<open>pooled\<close> the object that the pool of
  states returns; the result is the context, \<open>None\<close> for \<open>nil\<close>.
\<close>

definition OnPrepare ::
  "go_error option \<Rightarrow> ConnectionState \<Rightarrow> Server \<Rightarrow> ConnectionState option \<times> prepare_event list \<times> Server" where
  "OnPrepare timeoutErr pooled s =
     (case countConn s of
        (True, s) \<Rightarrow> (None, [CloseConn], uncountConn s)
      | (False, s) \<Rightarrow>
          if timeoutErr \<noteq> None then (None, [SetReadTimeout (readTimeout s), CloseConn], s)
          else
            (Some (NewConnectionState (readTimeout s) pooled),
             SetReadTimeout (readTimeout s) # (if writeTimeout s > 0 then [SetWriteTimeout (writeTimeout s)] else []), s))"

text \<open>
  \<open>OnDisconnect\<close>: the context is the state, or has it as a value, or has no value or one of another
  type.
\<close>

datatype conn_ctx = StateCtx ConnectionState | WrappedCtx ConnectionState | NoValue | OtherValue

fun ctx_state :: "conn_ctx \<Rightarrow> ConnectionState option" where
  "ctx_state (StateCtx st) = Some st"
| "ctx_state (WrappedCtx st) = Some st"
| "ctx_state NoValue = None"
| "ctx_state OtherValue = None"

definition OnDisconnect :: "conn_ctx \<Rightarrow> Server \<times> resources \<Rightarrow> (ConnectionState option \<times> Server \<times> resources) outcome" where
  "OnDisconnect ctx = (\<lambda>(s, r).
     let s = uncountConn s in
     case ctx_state ctx of
       None \<Rightarrow> Return (None, s, r)
     | Some st \<Rightarrow>
         bind_outcome (Cancel st) (\<lambda>st.
         let (st, r) = ReleaseConnectionState (st, r) in Return (Some st, s, r)))"

section \<open>The limiter with concurrent connections\<close>

text \<open>
  Where a connection stands: not there yet, counted and over the limit, counted and within it, served,
  refused, given up because its timeout could not be set, and gone.
\<close>

datatype conn_pc = NotYet | OverLimit | WithinLimit | Served | Refused | GivenUp | Ended

record limiter =
  lim_server :: Server
  lim_pcs :: "conn_pc list"

definition conn_at :: "limiter \<Rightarrow> nat \<Rightarrow> conn_pc \<Rightarrow> bool" where
  "conn_at l i p \<longleftrightarrow> i < length (lim_pcs l) \<and> lim_pcs l ! i = p"

definition move_conn :: "nat \<Rightarrow> conn_pc \<Rightarrow> Server \<Rightarrow> limiter \<Rightarrow> limiter" where
  "move_conn i p s l = l\<lparr>lim_server := s, lim_pcs := (lim_pcs l)[i := p]\<rparr>"

text \<open>
  netpoll calls \<open>OnDisconnect\<close> once for a connection that it serves, and not for one that \<open>OnPrepare\<close>
  has closed.
\<close>

inductive lim_step :: "limiter \<Rightarrow> limiter \<Rightarrow> bool" where
  arrive: "conn_at l i NotYet \<Longrightarrow> countConn (lim_server l) = (over, s) \<Longrightarrow>
    lim_step l (move_conn i (if over then OverLimit else WithinLimit) s l)"
| refuse: "conn_at l i OverLimit \<Longrightarrow> lim_step l (move_conn i Refused (uncountConn (lim_server l)) l)"
| serve: "conn_at l i WithinLimit \<Longrightarrow> lim_step l (move_conn i Served (lim_server l) l)"
| give_up: "conn_at l i WithinLimit \<Longrightarrow> lim_step l (move_conn i GivenUp (lim_server l) l)"
| disconnect: "conn_at l i Served \<Longrightarrow> lim_step l (move_conn i Ended (uncountConn (lim_server l)) l)"

inductive lim_reachable :: "server_option list \<Rightarrow> limiter \<Rightarrow> bool" for opts where
  start: "lim_reachable opts \<lparr>lim_server = NewServer opts, lim_pcs = replicate n NotYet\<rparr>"
| step: "lim_reachable opts l \<Longrightarrow> lim_step l l' \<Longrightarrow> lim_reachable opts l'"

definition conns :: "(conn_pc \<Rightarrow> bool) \<Rightarrow> limiter \<Rightarrow> int" where
  "conns P l = int (length (filter P (lim_pcs l)))"

fun holds_slot :: "conn_pc \<Rightarrow> bool" where
  "holds_slot WithinLimit = True"
| "holds_slot Served = True"
| "holds_slot GivenUp = True"
| "holds_slot _ = False"

definition counted :: "conn_pc \<Rightarrow> bool" where
  "counted p \<longleftrightarrow> holds_slot p \<or> p = OverLimit"

definition lim_inv :: "limiter \<Rightarrow> bool" where
  "lim_inv l \<longleftrightarrow> connsCount (lim_server l) = conns counted l \<and>
     (maxConns (lim_server l) > 0 \<longrightarrow> conns holds_slot l \<le> maxConns (lim_server l))"

lemma conns_move:
  "conn_at l i q \<Longrightarrow> conns P (move_conn i p s l) = conns P l - (if P q then 1 else 0) + (if P p then 1 else 0)"
  by (auto simp: conns_def move_conn_def conn_at_def count_update)

lemma move_conn_server [simp]: "lim_server (move_conn i p s l) = s"
  by (simp add: move_conn_def)

lemma filter_length_mono: "(\<And>x. P x \<Longrightarrow> Q x) \<Longrightarrow> length (filter P xs) \<le> length (filter Q xs)"
  by (induction xs) auto

lemma conns_mono: "(\<And>p. P p \<Longrightarrow> Q p) \<Longrightarrow> conns P l \<le> conns Q l"
  by (simp add: conns_def filter_length_mono)

lemma lim_inv_step: "lim_step l l' \<Longrightarrow> lim_inv l \<Longrightarrow> lim_inv l'"
proof (induction rule: lim_step.induct)
  case (arrive l i over s)
  have "conns holds_slot l \<le> conns counted l" by (rule conns_mono) (simp add: counted_def)
  then show ?case using arrive
    by (auto simp: lim_inv_def conns_move countConn_def counted_def Let_def)
qed (auto simp: lim_inv_def conns_move uncountConn_def counted_def)


lemma lim_reachable_inv: "lim_reachable opts l \<Longrightarrow> lim_inv l \<and> maxConns (lim_server l) = maxConns (NewServer opts)"
proof (induction rule: lim_reachable.induct)
  case (start n)
  have "connsCount (fold apply_server_option os s) = connsCount s" for os s
  proof (induction os arbitrary: s)
    case (Cons opt os)
    then show ?case by (cases opt) simp_all
  qed simp
  then show ?case by (auto simp: lim_inv_def conns_def counted_def NewServer_def)
next
  case (step l l')
  from step.hyps(2) have "maxConns (lim_server l') = maxConns (lim_server l)"
    by cases (auto simp: countConn_def uncountConn_def Let_def)
  with step lim_inv_step show ?case by simp
qed

section \<open>Serve and Shutdown\<close>

text \<open>
  Where a call of \<open>Serve\<close> stands: before \<open>markStarted\<close>, before the test of \<open>shutdownRequested\<close>, about to
  return because of it, past it, owner of the \<open>serving\<close> flag, with its event loop published,
  running it, about to return an error of its set-up, before the deferred store, and back.  A result is an error
  or \<open>None\<close>.
\<close>

datatype serve_pc =
    SBegin | SMarked | SSkip | SPassed | SOwner | SPublished | SRunning | SFailed go_error
  | SClosing "go_error option" | SReturned "go_error option"

text \<open>
  Where a call of \<open>Shutdown\<close> stands: before its look at \<open>started\<close>, about to store the request, waiting for
  \<open>ready\<close>, past it, and back, with the result of the event loop's own shutdown when it was called.
\<close>

datatype down_result = NilEarly | NilNoLoop | CtxErr | LoopShutdown

datatype down_pc = DBegin | DEarly | DWait | DReady | DReturned down_result

definition ErrServerAlreadyServing :: go_error where
  "ErrServerAlreadyServing = Errorf ''server already serving''"

record system =
  srv :: Server
  spcs :: "serve_pc list"
  dpcs :: "down_pc list"

definition s_at :: "system \<Rightarrow> nat \<Rightarrow> serve_pc \<Rightarrow> bool" where
  "s_at l i p \<longleftrightarrow> i < length (spcs l) \<and> spcs l ! i = p"

definition d_at :: "system \<Rightarrow> nat \<Rightarrow> down_pc \<Rightarrow> bool" where
  "d_at l i p \<longleftrightarrow> i < length (dpcs l) \<and> dpcs l ! i = p"

definition s_to :: "nat \<Rightarrow> serve_pc \<Rightarrow> Server \<Rightarrow> system \<Rightarrow> system" where
  "s_to i p s l = l\<lparr>srv := s, spcs := (spcs l)[i := p]\<rparr>"

definition d_to :: "nat \<Rightarrow> down_pc \<Rightarrow> Server \<Rightarrow> system \<Rightarrow> system" where
  "d_to i p s l = l\<lparr>srv := s, dpcs := (dpcs l)[i := p]\<rparr>"

inductive srv_step :: "system \<Rightarrow> system \<Rightarrow> bool" where
  s_start: "s_at l i SBegin \<Longrightarrow> srv_step l (s_to i SMarked (markStarted (srv l)) l)"
| s_skip: "s_at l i SMarked \<Longrightarrow> shutdownRequested (srv l) \<Longrightarrow> srv_step l (s_to i SSkip (srv l) l)"
| s_skip_ready: "s_at l i SSkip \<Longrightarrow> srv_step l (s_to i (SReturned None) (markReady (srv l)) l)"
| s_pass: "s_at l i SMarked \<Longrightarrow> \<not> shutdownRequested (srv l) \<Longrightarrow> srv_step l (s_to i SPassed (srv l) l)"
| s_busy: "s_at l i SPassed \<Longrightarrow> serving_flag (srv l) \<Longrightarrow>
    srv_step l (s_to i (SReturned (Some ErrServerAlreadyServing)) (srv l) l)"
| s_own: "s_at l i SPassed \<Longrightarrow> \<not> serving_flag (srv l) \<Longrightarrow>
    srv_step l (s_to i SOwner ((srv l)\<lparr>serving_flag := True\<rparr>) l)"
| s_fail: "s_at l i SOwner \<Longrightarrow> srv_step l (s_to i (SFailed e) (srv l) l)"
| s_fail_ready: "s_at l i (SFailed e) \<Longrightarrow> srv_step l (s_to i (SClosing (Some e)) (markReady (srv l)) l)"
| s_publish: "s_at l i SOwner \<Longrightarrow> srv_step l (s_to i SPublished ((srv l)\<lparr>eventLoop := True\<rparr>) l)"
| s_ready: "s_at l i SPublished \<Longrightarrow> srv_step l (s_to i SRunning (markReady (srv l)) l)"
| s_end: "s_at l i SRunning \<Longrightarrow> srv_step l (s_to i (SClosing r) (srv l) l)"
| s_close: "s_at l i (SClosing r) \<Longrightarrow> srv_step l (s_to i (SReturned r) ((srv l)\<lparr>serving_flag := False\<rparr>) l)"
| d_early: "d_at l i DBegin \<Longrightarrow> \<not> started (srv l) \<Longrightarrow> srv_step l (d_to i DEarly (srv l) l)"
| d_store: "d_at l i DEarly \<Longrightarrow>
    srv_step l (d_to i (DReturned NilEarly) ((srv l)\<lparr>shutdownRequested := True\<rparr>) l)"
| d_started: "d_at l i DBegin \<Longrightarrow> started (srv l) \<Longrightarrow> srv_step l (d_to i DWait (srv l) l)"
| d_ready: "d_at l i DWait \<Longrightarrow> ready_chan (srv l) \<Longrightarrow> srv_step l (d_to i DReady (srv l) l)"
| d_cancelled: "d_at l i DWait \<Longrightarrow> srv_step l (d_to i (DReturned CtxErr) (srv l) l)"
| d_no_loop: "d_at l i DReady \<Longrightarrow> \<not> eventLoop (srv l) \<Longrightarrow> srv_step l (d_to i (DReturned NilNoLoop) (srv l) l)"
| d_loop: "d_at l i DReady \<Longrightarrow> eventLoop (srv l) \<Longrightarrow> srv_step l (d_to i (DReturned LoopShutdown) (srv l) l)"

inductive srv_reachable :: "system \<Rightarrow> bool" where
  start: "srv_reachable \<lparr>srv = NewServer opts, spcs = replicate n SBegin, dpcs = replicate m DBegin\<rparr>"
| step: "srv_reachable l \<Longrightarrow> srv_step l l' \<Longrightarrow> srv_reachable l'"

subsection \<open>The invariant\<close>

fun owns :: "serve_pc \<Rightarrow> bool" where
  "owns SOwner = True"
| "owns SPublished = True"
| "owns SRunning = True"
| "owns (SFailed e) = True"
| "owns (SClosing r) = True"
| "owns _ = False"

text \<open>The calls of \<open>Serve\<close> that have announced that they are ready, or that they never will be.\<close>

fun announced :: "serve_pc \<Rightarrow> bool" where
  "announced SRunning = True"
| "announced (SClosing r) = True"
| "announced (SReturned r) = (r \<noteq> Some ErrServerAlreadyServing)"
| "announced _ = False"

fun has_loop :: "serve_pc \<Rightarrow> bool" where
  "has_loop SPublished = True"
| "has_loop SRunning = True"
| "has_loop _ = False"

definition chans_ok :: "Server \<Rightarrow> bool" where
  "chans_ok s \<longleftrightarrow> (started s \<longleftrightarrow> startedOnce s) \<and> (ready_chan s \<longleftrightarrow> readyOnce s)"

definition serve_ok :: "Server \<Rightarrow> serve_pc \<Rightarrow> bool" where
  "serve_ok s p \<longleftrightarrow> (p \<noteq> SBegin \<longrightarrow> started s) \<and> (announced p \<longrightarrow> ready_chan s) \<and> (has_loop p \<longrightarrow> eventLoop s)"

definition down_ok :: "Server \<Rightarrow> down_pc \<Rightarrow> bool" where
  "down_ok s p \<longleftrightarrow> (p \<in> {DReady, DReturned LoopShutdown, DReturned NilNoLoop} \<longrightarrow> ready_chan s)"

text \<open>Channels that are closed stay closed, and the event loop stays published.\<close>

definition grows :: "Server \<Rightarrow> Server \<Rightarrow> bool" where
  "grows s s' \<longleftrightarrow> (started s \<longrightarrow> started s') \<and> (ready_chan s \<longrightarrow> ready_chan s') \<and> (eventLoop s \<longrightarrow> eventLoop s')"

definition srv_inv :: "system \<Rightarrow> bool" where
  "srv_inv l \<longleftrightarrow>
     int (length (filter owns (spcs l))) = (if serving_flag (srv l) then 1 else 0) \<and>
     chans_ok (srv l) \<and> list_all (serve_ok (srv l)) (spcs l) \<and> list_all (down_ok (srv l)) (dpcs l)"

lemma serve_ok_grows: "serve_ok s p \<Longrightarrow> grows s s' \<Longrightarrow> serve_ok s' p"
  by (auto simp: serve_ok_def grows_def)

lemma down_ok_grows: "down_ok s p \<Longrightarrow> grows s s' \<Longrightarrow> down_ok s' p"
  by (auto simp: down_ok_def grows_def)

lemma list_all_update: "list_all P xs \<Longrightarrow> (\<And>x. P x \<Longrightarrow> Q x) \<Longrightarrow> Q y \<Longrightarrow> list_all Q (xs[i := y])"
  by (auto simp: list_all_iff dest!: set_update_subset_insert [THEN subsetD])

lemma s_to_fields [simp]: "srv (s_to i p s l) = s" "dpcs (s_to i p s l) = dpcs l" "spcs (s_to i p s l) = (spcs l)[i := p]"
  by (simp_all add: s_to_def)

lemma d_to_fields [simp]: "srv (d_to i p s l) = s" "spcs (d_to i p s l) = spcs l" "dpcs (d_to i p s l) = (dpcs l)[i := p]"
  by (simp_all add: d_to_def)

lemma mark_fields [simp]:
  "serving_flag (markStarted s) = serving_flag s" "eventLoop (markStarted s) = eventLoop s"
  "ready_chan (markStarted s) = ready_chan s" "readyOnce (markStarted s) = readyOnce s"
  "shutdownRequested (markStarted s) = shutdownRequested s"
  "serving_flag (markReady s) = serving_flag s" "eventLoop (markReady s) = eventLoop s"
  "started (markReady s) = started s" "startedOnce (markReady s) = startedOnce s"
  "shutdownRequested (markReady s) = shutdownRequested s"
  "startedOnce (markStarted s)" "readyOnce (markReady s)"
  by (simp_all add: markStarted_def markReady_def)

lemma mark_ok:
  "chans_ok s \<Longrightarrow> chans_ok (markStarted s) \<and> started (markStarted s) \<and> grows s (markStarted s)"
  "chans_ok s \<Longrightarrow> chans_ok (markReady s) \<and> ready_chan (markReady s) \<and> grows s (markReady s)"
  by (auto simp: chans_ok_def grows_def markStarted_def markReady_def)

lemma s_at_mem: "s_at l i p \<Longrightarrow> p \<in> set (spcs l)"
  by (auto simp: s_at_def)

lemma d_at_mem: "d_at l i p \<Longrightarrow> p \<in> set (dpcs l)"
  by (auto simp: d_at_def)

lemma owns_update:
  "s_at l i q \<Longrightarrow> int (length (filter owns ((spcs l)[i := p]))) =
     int (length (filter owns (spcs l))) - (if owns q then 1 else 0) + (if owns p then 1 else 0)"
  by (simp add: s_at_def count_update)

text \<open>\<open>serving\<close> is a flag that one call at a time holds.\<close>

interpretation serving: flag_holder srv_inv spcs owns "\<lambda>l. serving_flag (srv l)"
  by unfold_locales (simp add: srv_inv_def)

lemma owner_flag: "srv_inv l \<Longrightarrow> s_at l i p \<Longrightarrow> owns p \<Longrightarrow> serving_flag (srv l)"
  by (auto simp: s_at_def intro: serving.holder_flag)

text \<open>A call of \<open>Serve\<close> moves: what the new point of control needs has to hold of the new server.\<close>

lemma srv_inv_s_to:
  assumes inv: "srv_inv l" and at: "s_at l i q"
    and s: "chans_ok s" "grows (srv l) s" and p: "serve_ok s p"
    and flag: "(if serving_flag s then 1 else 0 :: int) =
      (if serving_flag (srv l) then 1 else 0) - (if owns q then 1 else 0) + (if owns p then 1 else 0)"
  shows "srv_inv (s_to i p s l)"
proof -
  have "list_all (serve_ok s) ((spcs l)[i := p])"
    using inv s(2) p by (intro list_all_update [of "serve_ok (srv l)"]) (auto simp: srv_inv_def intro: serve_ok_grows)
  moreover have "list_all (down_ok s) (dpcs l)"
    using inv s(2) by (auto simp: srv_inv_def list_all_iff intro: down_ok_grows)
  ultimately show ?thesis using owns_update [OF at, of p] inv flag s(1) by (simp add: srv_inv_def)
qed

lemma srv_inv_d_to:
  assumes inv: "srv_inv l" and s: "s = srv l \<or> s = (srv l)\<lparr>shutdownRequested := True\<rparr>" and p: "down_ok (srv l) p"
  shows "srv_inv (d_to i p s l)"
proof -
  have g: "grows (srv l) s" "chans_ok s" "serving_flag s = serving_flag (srv l)"
    using inv s by (auto simp: grows_def srv_inv_def chans_ok_def)
  have "list_all (down_ok s) ((dpcs l)[i := p])"
    using inv g(1) p by (intro list_all_update [of "down_ok (srv l)"]) (auto simp: srv_inv_def intro: down_ok_grows)
  moreover have "list_all (serve_ok s) (spcs l)"
    using inv g(1) by (auto simp: srv_inv_def list_all_iff intro: serve_ok_grows)
  ultimately show ?thesis using inv g by (simp add: srv_inv_def)
qed

lemma s_at_ok: "srv_inv l \<Longrightarrow> s_at l i p \<Longrightarrow> serve_ok (srv l) p \<and> chans_ok (srv l)"
  by (auto simp: srv_inv_def list_all_iff dest: s_at_mem)

lemma d_at_ok: "srv_inv l \<Longrightarrow> d_at l i p \<Longrightarrow> down_ok (srv l) p"
  by (auto simp: srv_inv_def list_all_iff dest: d_at_mem)

lemma s_move:
  assumes "srv_inv l" "s_at l i q" "q \<noteq> SBegin" "owns p = owns q" "announced p \<longrightarrow> announced q" "has_loop p \<longrightarrow> has_loop q"
  shows "srv_inv (s_to i p (srv l) l)"
  using s_at_ok [OF assms(1,2)] assms(3-)
  by (intro srv_inv_s_to [OF assms(1,2)]) (auto simp: serve_ok_def grows_def)

lemma s_move_ready:
  assumes "srv_inv l" "s_at l i q" "q \<noteq> SBegin" "owns p = owns q" "has_loop p \<longrightarrow> has_loop q"
  shows "srv_inv (s_to i p (markReady (srv l)) l)"
  using s_at_ok [OF assms(1,2)] mark_ok(2) [of "srv l"] assms(3-)
  by (intro srv_inv_s_to [OF assms(1,2)]) (auto simp: serve_ok_def)

lemma srv_inv_step: "srv_step l l' \<Longrightarrow> srv_inv l \<Longrightarrow> srv_inv l'"
proof (induction rule: srv_step.induct)
  case (s_start l i)
  then show ?case using s_at_ok [OF s_start(2,1)] mark_ok(1) [of "srv l"]
    by (intro srv_inv_s_to [OF s_start(2,1)]) (auto simp: serve_ok_def)
next
  case (s_own l i)
  then show ?case using s_at_ok [OF s_own(3,1)]
    by (intro srv_inv_s_to [OF s_own(3,1)]) (auto simp: serve_ok_def chans_ok_def grows_def)
next
  case (s_publish l i)
  then show ?case using s_at_ok [OF s_publish(2,1)]
    by (intro srv_inv_s_to [OF s_publish(2,1)]) (auto simp: serve_ok_def chans_ok_def grows_def)
next
  case (s_close l i r)
  then show ?case using s_at_ok [OF s_close(2,1)] owner_flag [OF s_close(2,1)]
    by (intro srv_inv_s_to [OF s_close(2,1)]) (auto simp: serve_ok_def chans_ok_def grows_def)
next
  case (d_no_loop l i)
  then show ?case using d_at_ok [OF d_no_loop(3,1)] by (intro srv_inv_d_to) (auto simp: down_ok_def)
next
  case (d_loop l i)
  then show ?case using d_at_ok [OF d_loop(3,1)] by (intro srv_inv_d_to) (auto simp: down_ok_def)
qed (auto intro: s_move s_move_ready srv_inv_d_to simp: down_ok_def)


lemma srv_reachable_inv: "srv_reachable l \<Longrightarrow> srv_inv l"
proof (induction rule: srv_reachable.induct)
  case (start opts n m)
  have flags: "serving_flag (fold apply_server_option os s) = serving_flag s"
    "chans_ok (fold apply_server_option os s) = chans_ok s" for os s
  proof (induction os arbitrary: s)
    case (Cons opt os)
    case 1 with Cons show ?case by (cases opt) simp_all
    case 2 with Cons show ?case by (cases opt) (simp_all add: chans_ok_def)
  qed simp_all
  show ?case
    by (simp add: srv_inv_def NewServer_def flags) (simp add: chans_ok_def list_all_iff serve_ok_def down_ok_def)
qed (rule srv_inv_step)

section \<open>Properties\<close>


text \<open>
  A connection that was prepared and is disconnected leaves no trace: the counter and the pools
  are as before and its state goes back to the pool reset; a connection over the limit gets no state
  and is not counted.
\<close>

theorem prepare_disconnect:
  assumes "\<not> (0 < maxConns s \<and> maxConns s \<le> connsCount s)"
  shows "\<exists>st evs s'. OnPrepare None zero_state s = (Some st, evs, s') \<and> CloseConn \<notin> set evs \<and> refCount st = 1 \<and>
    connsCount s' = connsCount s + 1 \<and>
    OnDisconnect (StateCtx st) (s', r) = Return (Some zero_state, s, r\<lparr>released := Suc (released r)\<rparr>)"
proof -
  let ?st = "NewConnectionState (readTimeout s) zero_state" and ?s = "s\<lparr>connsCount := connsCount s + 1\<rparr>"
  have "countConn s = (False, ?s)" using assms by (auto simp: countConn_def Let_def)
  then obtain evs where "OnPrepare None zero_state s = (Some ?st, evs, ?s)" "CloseConn \<notin> set evs"
    by (auto simp: OnPrepare_def)
  moreover have "OnDisconnect (StateCtx ?st) (?s, r) = Return (Some zero_state, s, r\<lparr>released := Suc (released r)\<rparr>)"
    by (simp add: OnDisconnect_def uncountConn_def NewConnectionState_def Cancel_def ReleaseConnectionState_def Reset_def
        zero_state_def Let_def)
  moreover have "refCount ?st = 1" by (simp add: NewConnectionState_def)
  ultimately show ?thesis by (intro exI [of _ ?st] exI [of _ evs] exI [of _ ?s]) simp
qed

text \<open>
  C24: one listener at a time.  Whatever calls of \<open>Serve\<close> and \<open>Shutdown\<close> run concurrently, at most one
  call of \<open>Serve\<close> is between winning the \<open>serving\<close> flag and giving it back.
\<close>

theorem serve_exclusive:
  assumes "srv_reachable l" "s_at l i p" "s_at l j q" "owns p" "owns q"
  shows "i = j \<and> serving_flag (srv l)"
proof -
  have inv: "srv_inv l" using srv_reachable_inv [OF assms(1)] .
  with assms(2-5) serving.exclusive [OF inv] owner_flag [OF inv assms(2,4)] show ?thesis
    by (auto simp: s_at_def)
qed

lemma ready_to_loop:
  assumes "srv_step m n" "d_at m j DReady" "eventLoop (srv m)"
  shows "d_at n j DReady \<or> d_at n j (DReturned LoopShutdown)"
  using assms by cases (auto simp: d_at_def nth_list_update)

text \<open>
  \<open>Shutdown\<close> does not wait in vain.  Once a call of \<open>Serve\<close> runs its event loop, or has returned with
  anything but \<open>ErrServerAlreadyServing\<close>, a waiting call of \<open>Shutdown\<close> can go on, and while the
  loop runs the only thing it can do next is to shut that loop down.
\<close>

theorem shutdown_proceeds:
  assumes "srv_reachable l" "s_at l i p" "announced p" "d_at l j DWait"
  shows "\<exists>l1. srv_step l l1 \<and> d_at l1 j DReady \<and>
    (p = SRunning \<longrightarrow> (\<exists>l2. srv_step l1 l2 \<and> d_at l2 j (DReturned LoopShutdown)) \<and>
       (\<forall>l2. srv_step l1 l2 \<longrightarrow> d_at l2 j DReady \<or> d_at l2 j (DReturned LoopShutdown)))"
proof -
  have "serve_ok (srv l) p" using s_at_ok [OF srv_reachable_inv [OF assms(1)] assms(2)] by simp
  then have ok: "ready_chan (srv l)" "p = SRunning \<longrightarrow> eventLoop (srv l)" using assms(3) by (auto simp: serve_ok_def)
  let ?l1 = "d_to j DReady (srv l) l"
  have at: "d_at ?l1 j DReady" using assms(4) by (simp add: d_at_def)
  let ?l2 = "d_to j (DReturned LoopShutdown) (srv ?l1) ?l1"
  have "srv_step ?l1 ?l2 \<and> d_at ?l2 j (DReturned LoopShutdown)" if "eventLoop (srv l)"
    using srv_step.d_loop [OF at] that at by (simp add: d_at_def)
  with ok srv_step.d_ready [OF assms(4) ok(1)] at ready_to_loop [OF _ at] show ?thesis by auto
qed

fun not_passed :: "serve_pc \<Rightarrow> bool" where
  "not_passed SBegin = True"
| "not_passed SMarked = True"
| "not_passed SSkip = True"
| "not_passed (SReturned r) = (r = None)"
| "not_passed _ = False"

text \<open>
  A shutdown that comes first wins.  If \<open>Shutdown\<close> has stored its request before any call of \<open>Serve\<close>
  has made its test, no call of \<open>Serve\<close> ever listens.
\<close>

theorem shutdown_before_serve:
  assumes "shutdownRequested (srv l)" "list_all not_passed (spcs l)" "srv_step\<^sup>*\<^sup>* l l'"
  shows "shutdownRequested (srv l') \<and> list_all not_passed (spcs l')"
  using assms(3,1,2)
proof (induction rule: rtranclp_induct)
  case (step m n)
  then have m: "shutdownRequested (srv m)" "list_all not_passed (spcs m)" by simp_all
  have at: "not_passed p" if "s_at m i p" for i p using m(2) s_at_mem [OF that] by (auto simp: list_all_iff)
  have upd: "list_all not_passed ((spcs m)[i := p])" if "not_passed p" for i p
    using m(2) that by (intro list_all_update [of not_passed]) simp_all
  from step.hyps(2) show ?case
    by cases (use m upd in \<open>auto dest!: at\<close>)
qed simp


text \<open>
  A shutdown that comes first can be lost.  \<open>Shutdown\<close> tests \<open>started\<close> and then stores its request; if a
  call of \<open>Serve\<close> starts and makes its test in between, \<open>Shutdown\<close> returns \<open>nil\<close> and the server goes on
  to run.
\<close>

theorem shutdown_lost:
  "\<exists>l. srv_reachable l \<and> d_at l 0 (DReturned NilEarly) \<and> s_at l 0 SRunning"
proof -
  let ?l0 = "\<lparr>srv = NewServer [], spcs = [SBegin], dpcs = [DBegin]\<rparr>"
  have r0: "srv_reachable ?l0" using srv_reachable.start [of "[]" 1 1] by simp
  define l1 where "l1 = d_to 0 DEarly (srv ?l0) ?l0"
  have r1: "srv_reachable l1" unfolding l1_def
    by (rule srv_reachable.step [OF r0 srv_step.d_early]) (simp_all add: d_at_def NewServer_def)
  define l2 where "l2 = s_to 0 SMarked (markStarted (srv l1)) l1"
  have r2: "srv_reachable l2" unfolding l2_def
    by (rule srv_reachable.step [OF r1 srv_step.s_start]) (simp add: s_at_def l1_def)
  define l3 where "l3 = s_to 0 SPassed (srv l2) l2"
  have r3: "srv_reachable l3" unfolding l3_def
    by (rule srv_reachable.step [OF r2 srv_step.s_pass]) (simp_all add: s_at_def l1_def l2_def NewServer_def)
  define l4 where "l4 = d_to 0 (DReturned NilEarly) ((srv l3)\<lparr>shutdownRequested := True\<rparr>) l3"
  have r4: "srv_reachable l4" unfolding l4_def
    by (rule srv_reachable.step [OF r3 srv_step.d_store]) (simp add: d_at_def l1_def l2_def l3_def)
  define l5 where "l5 = s_to 0 SOwner ((srv l4)\<lparr>serving_flag := True\<rparr>) l4"
  have r5: "srv_reachable l5" unfolding l5_def
    by (rule srv_reachable.step [OF r4 srv_step.s_own]) (simp_all add: s_at_def l1_def l2_def l3_def l4_def NewServer_def)
  define l6 where "l6 = s_to 0 SPublished ((srv l5)\<lparr>eventLoop := True\<rparr>) l5"
  have r6: "srv_reachable l6" unfolding l6_def
    by (rule srv_reachable.step [OF r5 srv_step.s_publish]) (simp add: s_at_def l1_def l2_def l3_def l4_def l5_def)
  define l7 where "l7 = s_to 0 SRunning (markReady (srv l6)) l6"
  have r7: "srv_reachable l7" unfolding l7_def
    by (rule srv_reachable.step [OF r6 srv_step.s_ready]) (simp add: s_at_def l1_def l2_def l3_def l4_def l5_def l6_def)
  have "d_at l7 0 (DReturned NilEarly)" "s_at l7 0 SRunning"
    by (simp_all add: d_at_def s_at_def l1_def l2_def l3_def l4_def l5_def l6_def l7_def)
  with r7 show ?thesis by blast
qed

section \<open>Witnesses\<close>

lemma running_reachable:
  "\<exists>l. srv_reachable l \<and> s_at l 0 SRunning \<and> d_at l 0 DWait"
proof -
  let ?l0 = "\<lparr>srv = NewServer [], spcs = [SBegin], dpcs = [DBegin]\<rparr>"
  have r0: "srv_reachable ?l0" using srv_reachable.start [of "[]" 1 1] by simp
  define l1 where "l1 = s_to 0 SMarked (markStarted (srv ?l0)) ?l0"
  have r1: "srv_reachable l1" unfolding l1_def
    by (rule srv_reachable.step [OF r0 srv_step.s_start]) (simp add: s_at_def)
  define l2 where "l2 = s_to 0 SPassed (srv l1) l1"
  have r2: "srv_reachable l2" unfolding l2_def
    by (rule srv_reachable.step [OF r1 srv_step.s_pass]) (simp_all add: s_at_def l1_def NewServer_def)
  define l3 where "l3 = s_to 0 SOwner ((srv l2)\<lparr>serving_flag := True\<rparr>) l2"
  have r3: "srv_reachable l3" unfolding l3_def
    by (rule srv_reachable.step [OF r2 srv_step.s_own]) (simp_all add: s_at_def l1_def l2_def NewServer_def)
  define l4 where "l4 = s_to 0 SPublished ((srv l3)\<lparr>eventLoop := True\<rparr>) l3"
  have r4: "srv_reachable l4" unfolding l4_def
    by (rule srv_reachable.step [OF r3 srv_step.s_publish]) (simp add: s_at_def l1_def l2_def l3_def)
  define l5 where "l5 = s_to 0 SRunning (markReady (srv l4)) l4"
  have r5: "srv_reachable l5" unfolding l5_def
    by (rule srv_reachable.step [OF r4 srv_step.s_ready]) (simp add: s_at_def l1_def l2_def l3_def l4_def)
  define l6 where "l6 = d_to 0 DWait (srv l5) l5"
  have "srv_reachable l6" unfolding l6_def
    by (rule srv_reachable.step [OF r5 srv_step.d_started])
      (simp_all add: d_at_def l1_def l2_def l3_def l4_def l5_def NewServer_def markStarted_def)
  moreover have "s_at l6 0 SRunning" "d_at l6 0 DWait"
    by (simp_all add: d_at_def s_at_def l1_def l2_def l3_def l4_def l5_def l6_def)
  ultimately show ?thesis by blast
qed

theorem serve_exclusive_witness: "\<exists>l. srv_reachable l \<and> s_at l 0 SRunning \<and> serving_flag (srv l)"
proof -
  obtain l where l: "srv_reachable l" "s_at l 0 SRunning" using running_reachable by blast
  with serve_exclusive [OF l(1,2,2)] show ?thesis by auto
qed

theorem shutdown_proceeds_witness: "\<exists>l l1. srv_reachable l \<and> s_at l 0 SRunning \<and> srv_step l l1 \<and> d_at l1 0 DReady"
proof -
  obtain l where l: "srv_reachable l" "s_at l 0 SRunning" "d_at l 0 DWait" using running_reachable by blast
  have "announced SRunning" by simp
  from shutdown_proceeds [OF l(1,2) this l(3)] l show ?thesis by blast
qed

theorem shutdown_before_serve_witness:
  "list_all not_passed (spcs (s_to 0 SMarked (markStarted ((NewServer [])\<lparr>shutdownRequested := True\<rparr>))
     \<lparr>srv = (NewServer [])\<lparr>shutdownRequested := True\<rparr>, spcs = [SBegin], dpcs = [DReturned NilEarly]\<rparr>))"
proof -
  let ?l = "\<lparr>srv = (NewServer [])\<lparr>shutdownRequested := True\<rparr>, spcs = [SBegin], dpcs = [DReturned NilEarly]\<rparr>"
  have "srv_step ?l (s_to 0 SMarked (markStarted (srv ?l)) ?l)" by (rule srv_step.s_start) (simp add: s_at_def)
  then have st: "srv_step\<^sup>*\<^sup>* ?l (s_to 0 SMarked (markStarted ((NewServer [])\<lparr>shutdownRequested := True\<rparr>)) ?l)" by simp
  have h: "shutdownRequested (srv ?l)" "list_all not_passed (spcs ?l)" by simp_all
  from shutdown_before_serve [OF h st] show ?thesis by blast
qed


theorem prepare_disconnect_witness:
  "\<exists>st evs s'. OnPrepare None zero_state (NewServer [WithMaxConns 1]) = (Some st, evs, s') \<and> connsCount s' = 1"
proof -
  have "\<not> (0 < maxConns (NewServer [WithMaxConns 1]) \<and> maxConns (NewServer [WithMaxConns 1]) \<le> connsCount (NewServer [WithMaxConns 1]))"
    by (simp add: NewServer_def)
  from prepare_disconnect [OF this] show ?thesis by (force simp: NewServer_def)
qed

end
