(* ===== verification/Date_Cache.thy ===== *)
theory Date_Cache
  imports Response_Writer
begin

text \<open>
  The cached \<open>Date\<close> header of \<open>src/pkg/adaptor/adaptor.go\<close>: \<open>init\<close> stores the current time in the format of
  \<open>http.TimeFormat\<close>, and a goroutine stores it again at every tick.  The clock is a number of nanoseconds since
  the first of January 1970.
\<close>

section \<open>The calendar\<close>

definition isLeap :: "nat \<Rightarrow> bool" where
  "isLeap y \<longleftrightarrow> y mod 4 = 0 \<and> (y mod 100 \<noteq> 0 \<or> y mod 400 = 0)"

definition yearDays :: "nat \<Rightarrow> nat" where
  "yearDays y = (if isLeap y then 366 else 365)"

definition monthDays :: "nat \<Rightarrow> nat list" where
  "monthDays y = [31, if isLeap y then 29 else 28, 31, 30, 31, 30, 31, 31, 30, 31, 30, 31]"

text \<open>The year, and the day of the year counted from zero, of a day counted from the start of year \<open>y\<close>.\<close>

function civilYear :: "nat \<Rightarrow> nat \<Rightarrow> nat \<times> nat" where
  "civilYear y d = (if d < yearDays y then (y, d) else civilYear (Suc y) (d - yearDays y))"
  by auto
termination by (relation "measure snd") (auto simp: yearDays_def)

declare civilYear.simps [simp del]

text \<open>The month, counted from \<open>m\<close>, and the day of the month, counted from zero.\<close>

fun civilMonth :: "nat \<Rightarrow> nat list \<Rightarrow> nat \<Rightarrow> nat \<times> nat" where
  "civilMonth m (n # ns) d = (if d < n then (m, d) else civilMonth (Suc m) ns (d - n))"
| "civilMonth m [] d = (m, d)"

lemma civilYear_exact:
  "civilYear y d = (y', r) \<Longrightarrow> y \<le> y' \<and> r < yearDays y' \<and> d = sum_list (map yearDays [y..<y']) + r"
proof (induction y d rule: civilYear.induct)
  case (1 y d)
  show ?case
  proof (cases "d < yearDays y")
    case True
    with 1(2) show ?thesis by (simp add: civilYear.simps [of y d])
  next
    case False
    with 1(2) have "civilYear (Suc y) (d - yearDays y) = (y', r)" by (simp add: civilYear.simps [of y d])
    from 1(1) [OF False this] have ih: "Suc y \<le> y'" "r < yearDays y'"
      "d - yearDays y = sum_list (map yearDays [Suc y..<y']) + r" by auto
    then have "[y..<y'] = y # [Suc y..<y']" by (simp add: upt_conv_Cons)
    with ih False show ?thesis by auto
  qed
qed

lemma civilMonth_exact:
  "civilMonth m ns d = (m', r) \<Longrightarrow> d < sum_list ns \<Longrightarrow>
    m \<le> m' \<and> m' < m + length ns \<and> r < ns ! (m' - m) \<and> d = sum_list (take (m' - m) ns) + r"
proof (induction m ns d rule: civilMonth.induct)
  case (1 m n ns d)
  show ?case
  proof (cases "d < n")
    case False
    with 1 have "Suc m \<le> m' \<and> m' < Suc m + length ns \<and> r < ns ! (m' - Suc m) \<and> d - n = sum_list (take (m' - Suc m) ns) + r"
      by auto
    moreover from this have "m' - m = Suc (m' - Suc m)" by auto
    ultimately show ?thesis using False by auto
  qed (use 1 in auto)
qed simp

lemma monthDays_sum: "sum_list (monthDays y) = yearDays y"
  by (simp add: monthDays_def yearDays_def)

section \<open>The format\<close>

definition weekdays :: "bytes list" where
  "weekdays = map str [''Sun'', ''Mon'', ''Tue'', ''Wed'', ''Thu'', ''Fri'', ''Sat'']"

definition months :: "bytes list" where
  "months = map str [''Jan'', ''Feb'', ''Mar'', ''Apr'', ''May'', ''Jun'', ''Jul'', ''Aug'', ''Sep'', ''Oct'', ''Nov'', ''Dec'']"

definition padded :: "nat \<Rightarrow> nat \<Rightarrow> bytes" where
  "padded w n = (let s = append_radix 10 n in replicate (w - length s) 48 @ s)"

text \<open>\<open>time.Unix(t, 0).UTC().Format(http.TimeFormat)\<close>; the first day was a Thursday.\<close>

definition httpTime :: "nat \<Rightarrow> bytes" where
  "httpTime t =
     (let d = t div 86400; s = t mod 86400; (y, yd) = civilYear 1970 d; (m, md) = civilMonth 0 (monthDays y) yd in
      weekdays ! ((d + 4) mod 7) @ str '', '' @ padded 2 (md + 1) @ str '' '' @ months ! m @ str '' '' @ padded 4 y @ str '' '' @
      padded 2 (s div 3600) @ str '':'' @ padded 2 (s mod 3600 div 60) @ str '':'' @ padded 2 (s mod 60) @ str '' GMT'')"

lemma padded_plain: "c \<in> set (padded w n) \<Longrightarrow> c \<noteq> 13 \<and> c \<noteq> 10"
proof -
  have "digit_char d \<noteq> 13 \<and> digit_char d \<noteq> 10" if "d < 10" for d
  proof -
    have "list_all (\<lambda>d. digit_char d \<noteq> 13 \<and> digit_char d \<noteq> 10) [0..<10]" by code_simp
    with that show ?thesis by (simp add: list_all_iff)
  qed
  then show "c \<in> set (padded w n) \<Longrightarrow> c \<noteq> 13 \<and> c \<noteq> 10"
    using append_radix_digits [of 10 "\<lambda>c. c \<noteq> 13 \<and> c \<noteq> 10" c n] by (auto simp: padded_def Let_def)
qed

lemma names_plain: "x \<in> set (weekdays @ months) \<Longrightarrow> c \<in> set x \<Longrightarrow> c \<noteq> 13 \<and> c \<noteq> 10"
proof -
  have "list_all (\<lambda>x. 13 \<notin> set x \<and> 10 \<notin> set x) (weekdays @ months)" by code_simp
  then show "x \<in> set (weekdays @ months) \<Longrightarrow> c \<in> set x \<Longrightarrow> c \<noteq> 13 \<and> c \<noteq> 10" by (auto simp: list_all_iff)
qed

text \<open>The fields of a time: their ranges, and that they denote it.\<close>

lemma civil_fields:
  assumes "civilYear 1970 d = (y, yd)" "civilMonth 0 (monthDays y) yd = (m, md)"
  shows "m < 12" "md < monthDays y ! m"
    and "d = sum_list (map yearDays [1970..<y]) + sum_list (take m (monthDays y)) + md"
proof -
  have yd: "yd < sum_list (monthDays y)" "d = sum_list (map yearDays [1970..<y]) + yd"
    using civilYear_exact [OF assms(1)] by (simp_all add: monthDays_sum)
  with civilMonth_exact [OF assms(2)] show "m < 12" "md < monthDays y ! m"
    "d = sum_list (map yearDays [1970..<y]) + sum_list (take m (monthDays y)) + md"
    by (simp_all add: monthDays_def)
qed

lemma httpTime_plain: "13 \<notin> set (httpTime t) \<and> 10 \<notin> set (httpTime t)"
proof -
  obtain y yd where y: "civilYear 1970 (t div 86400) = (y, yd)" by fastforce
  obtain m md where m: "civilMonth 0 (monthDays y) yd = (m, md)" by fastforce
  have "m < length months" using civil_fields(1) [OF y m] by (simp add: months_def)
  then have "months ! m \<in> set (weekdays @ months)" by simp
  moreover have "(t div 86400 + 4) mod 7 < length weekdays" by (simp add: weekdays_def)
  then have "weekdays ! ((t div 86400 + 4) mod 7) \<in> set (weekdays @ months)" by simp
  ultimately have "\<forall>c \<in> set (months ! m) \<union> set (weekdays ! ((t div 86400 + 4) mod 7)). c \<noteq> 13 \<and> c \<noteq> 10"
    using names_plain by blast
  then show ?thesis using y m padded_plain by (auto simp: httpTime_def str_def Let_def)
qed

section \<open>The cache\<close>

record date_cache =
  clock :: nat
  currentDate :: bytes

text \<open>\<open>Truncate(time.Second)\<close> and the format.\<close>

definition stamp :: "nat \<Rightarrow> bytes" where
  "stamp ns = httpTime (ns div 1000000000)"

inductive date_step :: "date_cache \<Rightarrow> date_cache \<Rightarrow> bool" where
  pass: "date_step c (c\<lparr>clock := clock c + ns\<rparr>)"
| tick: "date_step c (c\<lparr>currentDate := stamp (clock c)\<rparr>)"

inductive date_reachable :: "nat \<Rightarrow> date_cache \<Rightarrow> bool" for start where
  init: "date_reachable start \<lparr>clock = start, currentDate = stamp start\<rparr>"
| step: "date_reachable start c \<Longrightarrow> date_step c c' \<Longrightarrow> date_reachable start c'"

lemma date_reachable_stamp:
  "date_reachable start c \<Longrightarrow> start \<le> clock c \<and> (\<exists>ns. start \<le> ns \<and> ns \<le> clock c \<and> currentDate c = stamp ns)"
proof (induction rule: date_reachable.induct)
  case (step c c')
  from step.hyps(2) step.IH show ?case by cases (auto intro: le_trans [OF _ le_add1])
qed auto

text \<open>
  C19: Every response is dated and whole.  Whenever a header block is written, its date is the time, to the second, of the start
  of the program or of a later tick, and, whatever names and values the handler has put into the header, the
  block is a sequence of lines without line breaks in them whose first empty line is its end.
\<close>

theorem dated_response:
  assumes "date_reachable start c"
  shows "(\<exists>ns. start \<le> ns \<and> ns \<le> clock c \<and> currentDate c = httpTime (ns div 1000000000)) \<and>
    list_all line_ok (headLines (env\<lparr>date := currentDate c\<rparr>) w) \<and>
    headBytes (env\<lparr>date := currentDate c\<rparr>) w = lines_bytes (headLines (env\<lparr>date := currentDate c\<rparr>) w) @ crlf \<and>
    Index (headBytes (env\<lparr>date := currentDate c\<rparr>) w @ rest) headerEnd = Some (length (headBytes (env\<lparr>date := currentDate c\<rparr>) w) - 4) \<and>
    (header_get (header w) hDate = [] \<longrightarrow> str ''Date: '' @ currentDate c \<in> set (headLines (env\<lparr>date := currentDate c\<rparr>) w))"
proof -
  obtain ns where ns: "start \<le> ns" "ns \<le> clock c" "currentDate c = stamp ns"
    using date_reachable_stamp [OF assms] by blast
  then have "13 \<notin> set (date (env\<lparr>date := currentDate c\<rparr>))" "10 \<notin> set (date (env\<lparr>date := currentDate c\<rparr>))"
    using httpTime_plain by (simp_all add: stamp_def)
  from headLines_ok [OF this] have ok: "list_all line_ok (headLines (env\<lparr>date := currentDate c\<rparr>) w)" .
  have "headLines (env\<lparr>date := currentDate c\<rparr>) w \<noteq> []" by (simp add: headLines_def)
  from Index_lines [OF ok this, of rest] ok ns show ?thesis
    by (auto simp: stamp_def headBytes_lines) (auto simp: headLines_def)
qed

section \<open>Witnesses\<close>

lemma some_time: "httpTime 784111777 = str ''Sun, 06 Nov 1994 08:49:37 GMT''"
  by (simp add: httpTime_def civilYear.simps yearDays_def isLeap_def monthDays_def weekdays_def months_def padded_def
      append_radix.simps digit_char_def str_def Let_def)

theorem dated_response_witness:
  "str ''Date: '' @ str ''Sun, 06 Nov 1994 08:49:37 GMT'' \<in>
     set (headLines (some_env\<lparr>date := str ''Sun, 06 Nov 1994 08:49:37 GMT''\<rparr>) zero_writer)"
proof -
  let ?c = "\<lparr>clock = 784111777000000000, currentDate = stamp 784111777000000000\<rparr>"
  have "stamp 784111777000000000 = str ''Sun, 06 Nov 1994 08:49:37 GMT''" by (simp add: stamp_def some_time)
  moreover have "header_get (header zero_writer) hDate = []" by (simp add: zero_writer_def header_get_def)
  ultimately show ?thesis using dated_response [OF date_reachable.init, of 784111777000000000 some_env zero_writer] by auto
qed

end
