(* ===== verification/Spec2Isabelle.thy ===== *)
theory Spec2Isabelle
  imports Example_Server Stress_Client Ws_Lifetime State_Context Http_Server Date_Cache
begin

text \<open>
  Verification of \<open>hon\<close>, an HTTP and WebSocket library in Go over the network library netpoll.

  \<^bold>\<open>The program.\<close>  A server (\<open>src/pkg/server\<close>) listens with netpoll and gives each connection a state object,
  which is also the context of its requests.  netpoll calls the engine (\<open>src/pkg/engine\<close>) when bytes arrive.  The engine asks the
  request parser (\<open>engine/parser\<close>) whether a request is whole, reads it, runs the application's handler on a
  response writer (\<open>src/pkg/adaptor\<close>) and goes on with the next request.  A handler can take the connection over:
  \<open>Upgrade\<close> (\<open>src/pkg/websocket\<close>) answers a WebSocket handshake and installs a read handler, and from then on the engine calls
  \<open>ServeConn\<close>, which reads frames, assembles and decompresses messages and calls the application.  The client
  (\<open>client.go\<close>) dials, makes the handshake and serves its connection with the same loop.  Contexts, writers,
  states, buffers and compressors are recycled through pools.

  \<^bold>\<open>The theories.\<close>  Each models one source file or one part of it, with the names of the source.

  \<^item> \<open>Go_Base\<close> is the prelude: bytes, Go's errors and integers, results (\<open>Return\<close>, \<open>Panic\<close>, and \<open>NoFuel\<close> for a loop
    that was cut off), searching in byte slices, and the collections of facts.  \<open>Sync_Objects\<close>, \<open>Radix\<close> and
    \<open>Framing\<close> hold the interfaces below; \<open>Sha1_Base64\<close> the two functions of the accept key.
  \<^item> \<open>Http_Parser\<close> (\<open>parser.go\<close>): \<open>CheckRequest\<close> with its header scan and chunk loop, \<open>parseInt\<close>, \<open>parseHexInt\<close>.
    A whole request is decided by its own bytes, segments do not matter, fixed and chunked bodies are found
    to the byte, header blocks are bounded.
  \<^item> \<open>Response_Writer\<close> (\<open>adaptor.go\<close>): the writer as a record, its calls on a buffered writer that can fail at any
    call.  No calls make it panic, the bytes are the header block and the body in the announced framing,
    headers cannot be split, a flush puts what was written on the connection.  \<open>Hijacked_Conn\<close>: the connection after \<open>Hijack\<close>.
    \<open>Date_Cache\<close>: the cached date, its format and its refresh at every tick.
  \<^item> \<open>App_Context\<close> (\<open>appcontext.go\<close>): the request context, its accessors and its pool.
  \<^item> \<open>Engine_State\<close> (\<open>engine.go\<close>): the state object with reference count, flag and cancellation, and \<open>lstep\<close>, the
    atomic steps of any number of concurrent calls of \<open>ServeConn\<close> and of the disconnect.  The invariant gives
    one release after the last reference, one call at a time at work, and no close of a closed channel.
    \<open>State_Context\<close>: the state as a \<open>context.Context\<close>, and the goroutine of \<open>CloseNotify\<close> (\<open>adaptor.go\<close>).
  \<^item> \<open>Engine_Serve\<close> (\<open>engine.go\<close>): the test for a request, \<open>handleRequest\<close>, the loop \<open>serveHTTP\<close> and the call
    \<open>ServeConn\<close> (here \<open>EngineServeConn\<close>).  Pipelined requests are answered in order, a panicking handler is answered,
    every call gives back what it took, and each call is a run of the atomic steps of \<open>Engine_State\<close>.
  \<^item> \<open>Http_Server\<close> (\<open>server.go\<close>): options, the connection limiter, and \<open>Serve\<close> and \<open>Shutdown\<close> as interleaved atomic steps.
  \<^item> \<open>Payload_Pool\<close> (\<open>pool.go\<close>), with arrays kept by address so that sharing shows, \<open>Ws_Compression\<close>
    (\<open>compression.go\<close>), \<open>Ws_Frame\<close> (the header functions of \<open>websocket.go\<close>), \<open>Ws_Assembler\<close> (\<open>assembler.go\<close>),
    \<open>Ws_Conn\<close> (\<open>ServeConn\<close> and \<open>processFrame\<close>) and \<open>Ws_Writer\<close> (\<open>writer.go\<close>, \<open>handler.go\<close>).  The assembler and the connection
    loop implement abstract ones, \<open>spec_frame\<close> and \<open>spec_conn\<close>, that know neither buffers nor segments;
    what one side sends is what the other side's handler is told.
  \<^item> \<open>Ws_Handshake\<close> (\<open>Upgrade\<close> of \<open>websocket.go\<close>; the request and the test of the response of \<open>client.go\<close>), \<open>Ws_Client\<close>
    (\<open>Dial\<close>), \<open>Ws_Lifetime\<close> (the callbacks of a client's connections after the handshake, and \<open>Wait\<close>, as the steps of any
    number of connections that share a wait group), \<open>Ws_Session\<close> (a client's request in the server's parser).
  \<^item> \<open>Example_Server\<close> (\<open>cmd/example/main.go\<close>) and \<open>Stress_Client\<close> (\<open>ws_stress_config.go\<close>): the handlers of the two programs,
    with the first the way of a message from a client to the server's handler and back, with the second the
    interleaved steps of \<open>main\<close> and of the goroutines that dial.
  \<^item> This theory puts the components together: the handshake from the client's request to the assembler that
    \<open>Upgrade\<close> sets up, the messages on an upgraded connection, and an upgraded connection in the engine.

  \<^bold>\<open>Interfaces.\<close>  They are locales, interpreted on the definitions of the model: \<open>framing\<close> (an incremental check for a
  whole message; requests and frames), \<open>radix_loop\<close> (the two digit loops of the parser), \<open>buffer_pool\<close> (the payload pools),
  \<open>recycling\<close> (the pools of contexts, states and writers), \<open>flag_holder\<close> (the flags \<open>Processing\<close> and \<open>serving\<close>),
  \<open>tracked\<close> (the connections that a client's wait group counts) and \<open>go_context\<close> (the contract of \<open>context.Context\<close>).

  \<^bold>\<open>State and effects.\<close>  Stateful code takes and returns its state.  Calls into the application are a trace of events
  (WebSocket) or the list of calls a handler makes on its writer (HTTP).  Concurrent code is a step
  relation whose steps are the atomic operations of the code.  Errors are values, nil dereferences, slices out of
  range, closed channels and negative counters are \<open>Panic\<close>.  64-bit sums and lengths wrap where the code lets them.

  \<^bold>\<open>Parameters.\<close>  Code outside the repository is an argument of the definitions, and what the code relies on is a named
  hypothesis that an instance in the witnesses meets: netpoll's answers (\<open>netpoll\<close>, the segments of a \<open>stream\<close>),
  package \<open>gobwas/ws\<close> (\<open>rfc6455\<close>: header layout and masking), \<open>compress/flate\<close> (\<open>inflates\<close>, \<open>deflates\<close>,
  \<open>resets_readers\<close>), \<open>http.ReadRequest\<close>, the URL parser, the random source, the network's errors (\<open>reliable\<close>
  and \<open>writes_all\<close> say that there are none).

  \<^bold>\<open>Loops and fuel.\<close>  \<open>ServeConn\<close> of the WebSocket package can run for ever on a peer that keeps sending, so it takes
  fuel, one unit a round: more than there are bytes to come is always enough (\<open>serve_conn_total\<close>), and for whole frames
  more than their number (\<open>serve_conn_refines\<close>).  The read
  loop of \<open>DecompressData\<close> takes \<open>dfuel\<close>, and more than the size of the plain data is enough
  (\<open>decompress_limit_exact\<close>).  \<open>serveHTTP\<close> recurs over what the connection shows in its rounds, and returns as soon as one
  of them finds it inactive.  All other loops are total functions.

  \<^bold>\<open>Not modelled.\<close>  The Go scheduler and memory model beyond the atomic steps; timeouts, but for the branch that a timeout
  takes.  Of the two programs: logging, the monitors, profiling, signals and flags, which are effects without
  a result that the programs use; the branch of the example that runs the server of \<open>net/http\<close>, and the routing
  of \<open>http.ServeMux\<close>, which are not code of the repository; in \<open>main\<close> of the load generator a dial is one step, and what
  it does to the counters is the subject of \<open>dialAll\<close>.
\<close>



section \<open>Upgraded connections in the engine\<close>

text \<open>
  The read handler that \<open>Upgrade\<close> installs, as the engine sees it: the error that \<open>ServeConn\<close> returns, or its panic.
\<close>

definition upgradedHandler ::
  "ws_lib \<Rightarrow> ('r, 'w) flate_lib \<Rightarrow> nat \<Rightarrow> netpoll \<Rightarrow> nat \<Rightarrow> ('r, 'w) conn \<Rightarrow> go_error option outcome" where
  "upgradedHandler lib fl dfuel np fuel c =
     bind_outcome (ServeConn lib fl dfuel server_mode np fuel 0 c) (\<lambda>(e, c). Return e)"

lemma EngineServeConn_read_handler:
  assumes "ReadHandler (cc_state call)" "\<not> Processing (cc_state call)"
  shows "\<exists>call'. EngineServeConn e env handler onData rds True call = Return (None, call') \<and>
    cc_log call' = cc_log call @ (if onData = Return None then [] else [ConnClose])"
proof -
  obtain s r where tb: "takeBuffers ((AcquireConnectionState (cc_state call))\<lparr>Processing := True\<rparr>, cc_res call) = (s, r)" by fastforce
  have "ReadHandler s" using tb assms(1) by (auto simp: takeBuffers_def AcquireConnectionState_def)
  then have "EngineServeConn e env handler onData rds True call =
      Return (None, releaseCall (callReadHandler onData (call\<lparr>cc_state := s, cc_res := r\<rparr>)))"
    by (simp add: EngineServeConn_working [OF assms(2) tb] Let_def)
  moreover have "cc_log (releaseCall c) = cc_log c" for c by (simp add: releaseCall_def split: prod.split)
  ultimately show ?thesis
    by (auto simp: callReadHandler_def Let_def split: outcome.split option.split)
qed

text \<open>
  C32: The server closes what the handler is told is closed.  When a call of the engine serves an upgraded
  connection, the engine closes the connection exactly if \<open>ServeConn\<close> has reported its end to the handler, which is at
  most once a call; the other reason for closing it is a panic.
\<close>

theorem server_close_agrees:
  assumes "ReadHandler (cc_state call)" "\<not> Processing (cc_state call)"
  shows "\<exists>call'. EngineServeConn e env handler (upgradedHandler lib fl dfuel np fuel c) rds True call = Return (None, call') \<and>
    (case ServeConn lib fl dfuel server_mode np fuel 0 c of
       Return (er, c') \<Rightarrow> \<exists>es. trace c' = trace c @ es \<and> Ws_Conn.closes es \<le> 1 \<and>
         cc_log call' = cc_log call @ (if Ws_Conn.closes es = 1 then [ConnClose] else [])
     | Panic \<Rightarrow> cc_log call' = cc_log call @ [ConnClose]
     | NoFuel \<Rightarrow> True)"
proof -
  obtain call' where c: "EngineServeConn e env handler (upgradedHandler lib fl dfuel np fuel c) rds True call = Return (None, call')"
    "cc_log call' = cc_log call @ (if upgradedHandler lib fl dfuel np fuel c = Return None then [] else [ConnClose])"
    using EngineServeConn_read_handler [OF assms] by blast
  show ?thesis
  proof (cases "ServeConn lib fl dfuel server_mode np fuel 0 c")
    case (Return r)
    obtain er c' where r: "r = (er, c')" by (cases r)
    from ServeConn_reports [OF Return [unfolded r]] obtain es where
      "trace c' = trace c @ es" "Ws_Conn.closes es = (if er = None then 0 else 1)" by (auto simp: reports_def)
    with c Return r show ?thesis by (auto simp: upgradedHandler_def)
  qed (use c in \<open>simp_all add: upgradedHandler_def\<close>)
qed

theorem server_close_agrees_witness:
  "\<exists>call'. EngineServeConn (NewEngine []) some_env greeter (upgradedHandler rfc_lib stored_lib 100 always_active 10 (some_conn [136, 0]))
      [] True (some_call\<lparr>cc_state := (cc_state some_call)\<lparr>ReadHandler := True\<rparr>\<rparr>) = Return (None, call') \<and>
    cc_log call' = [ConnClose]"
proof -
  let ?call = "some_call\<lparr>cc_state := (cc_state some_call)\<lparr>ReadHandler := True\<rparr>\<rparr>"
  have h: "ReadHandler (cc_state ?call)" "\<not> Processing (cc_state ?call)"
    by (simp_all add: some_call_def NewConnectionState_def zero_state_def)
  have "case ServeConn rfc_lib stored_lib 100 server_mode always_active 10 0 (some_conn [136, 0]) of
      Return (e, c') \<Rightarrow> trace c' = [OnClose None, ConnClosed] | _ \<Rightarrow> False" by code_simp
  then obtain e c' where c': "ServeConn rfc_lib stored_lib 100 server_mode always_active 10 0 (some_conn [136, 0]) = Return (e, c')"
    "trace c' = [OnClose None, ConnClosed]" by (auto split: outcome.splits)
  from server_close_agrees [OF h, of "NewEngine []" some_env greeter rfc_lib stored_lib 100 always_active 10 "some_conn [136, 0]" "[]"]
  show ?thesis using c' by (auto simp: some_conn_def some_call_def)
qed

text \<open>
  C11: from the handshake to the messages.  On a connection that \<open>Upgrade\<close> has taken over, with the assembler that it has set
  up, the server's handler is told exactly the messages that the client sends, in order, if they are
  within the size limit of the upgrade's configuration and are sent compressed only if compression was
  negotiated in the handshake.
\<close>

theorem upgraded_session:
  fixes fl :: "('r, 'w) flate_lib" and c :: "('r, 'w) conn"
  assumes lib: "rfc6455 lib" "inflates fl final rest" "resets_readers fl final rest" "deflates fl final rest"
    and w: "rw_inv w" "\<not> hijacked w" "reliable env" "sticky s = None"
    and uc: "uc = upgradeConfig originHost hostsFold opts" "0 < MaxFrameSize uc" "MaxFrameSize uc \<le> maxInt"
    and passed: "upgradeCheck uc r True = None"
    and net: "writes_all wr" "pools_wf (bufs st)" "pools_wf (bufs (mem c))" "\<forall>k. IsActive np k \<and> \<not> peekErr np k"
    and msgs: "\<forall>((op, p), key) \<in> set msgs. op < 16 \<and> \<not> IsControl lib op \<and> op \<noteq> OpContinuation lib \<and>
      int (length p) \<le> MaxFrameSize uc \<and> length key = 4"
    and comp: "\<forall>((op, p), key) \<in> set msgs. wantsCompression lib co op p \<longrightarrow> negotiated uc r \<and>
      (\<forall>st data st'. CompressData fl p st = Return (Inr data, st') \<longrightarrow> int (slen data) \<le> MaxFrameSize uc)"
    and fuel: "length msgs < fuel"
  shows "\<exists>a w' s' ws st'. Upgrade env originHost hostsFold True r opts (w, s) = Return (None, [OnOpen], Some a, w', s') \<and>
    sendAll lib fl wr co True msgs st = Return (None, ws, st') \<and> (room fl rest dfuel ws \<longrightarrow>
    (\<exists>c'. ServeConn lib fl dfuel server_mode np fuel 0 (handed (concat ws) (c\<lparr>asm := a\<rparr>)) = Return (None, c') \<and>
      trace c' = trace c @ map (\<lambda>((op, p), key). OnMessage op p) msgs))"
proof -
  let ?cf = "\<lparr>MaxFrameSize = MaxFrameSize uc, EnableCompression = negotiated uc r\<rparr> :: Config"
  obtain w' s' where up: "Upgrade env originHost hostsFold True r opts (w, s) = Return (None, [OnOpen], Some (NewAssembler ?cf), w', s')"
    using Upgrade_result [OF w uc(1) refl, where canHijack = True and r = r] passed by auto
  have bound: "bound ?cf = MaxFrameSize uc" using uc(2) by (simp add: bound_def)
  have m: "\<forall>m \<in> set msgs. deliverable lib fl co ?cf (fst m) \<and> length (snd m) = 4"
    using msgs comp by (fastforce simp: deliverable_def bound)
  have lim: "MaxFrameSize ?cf \<le> maxInt" using uc(3) by simp
  obtain ws st' where ws: "sendAll lib fl wr co True msgs st = Return (None, ws, st')"
    "\<forall>w \<in> set ws. frameExtent lib w = Some (length w) \<and> Length (fst (decodeFrame lib w)) \<le> bound ?cf"
    "length ws = length msgs"
    "\<forall>j \<le> length msgs. spec_conn lib ?cf (inflated fl final rest (MaxFrameSize ?cf))
       (map (decodeFrame lib) (take j ws)) None = (map (\<lambda>((op, p), key). OnMessage op p) (take j msgs), None, None)"
    using sendAll_wire [OF lib net(1) lim net(2) m, of True] by auto
  have "\<exists>c'. ServeConn lib fl dfuel server_mode np fuel 0 (handed (concat ws) (c\<lparr>asm := NewAssembler ?cf\<rparr>)) = Return (None, c') \<and>
      trace c' = trace c @ map (\<lambda>((op, p), key). OnMessage op p) msgs" if "room fl rest dfuel ws"
    using frames_arrive [OF lib(1-3) _ ws(2-4) _ net(4), where c = "handed (concat ws) (c\<lparr>asm := NewAssembler ?cf\<rparr>)"
        and dfuel = dfuel and fuel = fuel and k = 0 and md = server_mode] net(3) fuel that
    by (auto simp: handed_def room_def NewAssembler_def assembles_def)
  with up ws(1) show ?thesis by blast
qed

text \<open>A masked text message on an upgraded connection.\<close>

theorem upgraded_session_witness:
  "\<exists>a w' s' c'. Upgrade some_env (\<lambda>_. None) (\<lambda>a b. a = b) True some_upgrade [] (fst (NewResponseWriter []), empty_sink) =
      Return (None, [OnOpen], Some a, w', s') \<and>
    ServeConn rfc_lib stored_lib 100 server_mode always_active 10 0 ((some_conn [129, 130, 1, 2, 3, 4, 105, 107])\<lparr>asm := a\<rparr>) =
      Return (None, c') \<and> trace c' = [OnMessage 1 [104, 105]]"
proof -
  let ?w = "fst (NewResponseWriter [])" and ?c = "upgradeConfig (\<lambda>_. None) (\<lambda>a b. a = b) []"
  let ?msgs = "[((1, [104, 105]), [1, 2, 3, 4])] :: ((byte \<times> bytes) \<times> bytes) list"
  let ?wr = "\<lambda>i d. (d, None)" and ?st = "empty_comp :: (bytes, unit) comp_state"
  have w: "rw_inv ?w" "\<not> hijacked ?w" "reliable some_env" "sticky empty_sink = None"
    by (simp_all add: NewResponseWriter_inv reliable_def some_env_def empty_sink_def)
      (simp add: NewResponseWriter_def zero_writer_def)
  have max: "MaxFrameSize ?c = DefaultMaxFrameSize" by (simp add: upgradeConfig_def)
  have lim: "0 < MaxFrameSize ?c" "MaxFrameSize ?c \<le> maxInt" unfolding max by (simp_all add: DefaultMaxFrameSize_def maxInt_def)
  have passed: "upgradeCheck ?c some_upgrade True = None" by code_simp
  have net: "writes_all ?wr" "pools_wf (bufs ?st)" "pools_wf (bufs (mem (some_conn [])))"
    "\<forall>k. IsActive always_active k \<and> \<not> peekErr always_active k"
    by (simp_all add: writes_all_def) (code_simp, code_simp)
  have msgs: "\<forall>((op, p), key) \<in> set ?msgs. op < 16 \<and> \<not> IsControl rfc_lib op \<and> op \<noteq> OpContinuation rfc_lib \<and>
      int (length p) \<le> MaxFrameSize ?c \<and> length key = 4"
    unfolding max by (simp add: rfc_lib_def DefaultMaxFrameSize_def)
  have comp: "\<forall>((op, p), key) \<in> set ?msgs. wantsCompression rfc_lib None op p \<longrightarrow> negotiated ?c some_upgrade \<and>
      (\<forall>st data st'. CompressData stored_lib p st = Return (Inr data, st') \<longrightarrow> int (slen data) \<le> MaxFrameSize ?c)"
    by (simp add: wantsCompression_def)
  have fuel: "length ?msgs < 10" by simp
  have sent: "case sendAll rfc_lib stored_lib ?wr None True ?msgs ?st of
      Return (e, ws, st) \<Rightarrow> ws = [[129, 130, 1, 2, 3, 4, 105, 107]] | _ \<Rightarrow> False" by code_simp
  have room: "room stored_lib (\<lambda>r. r) 100 [[129, 130, 1, 2, 3, 4, 105, 107]]"
    using stored_lib_size by (auto simp: room_def maxInt_def)
  from upgraded_session [OF rfc_lib_rfc6455 stored_lib_inflates stored_lib_resets stored_lib_deflates w refl lim passed net msgs comp fuel, of 100]
  obtain a w' s' ws st' where u: "Upgrade some_env (\<lambda>_. None) (\<lambda>a b. a = b) True some_upgrade [] (?w, empty_sink) =
      Return (None, [OnOpen], Some a, w', s')" "sendAll rfc_lib stored_lib ?wr None True ?msgs ?st = Return (None, ws, st')"
    "room stored_lib (\<lambda>r. r) 100 ws \<longrightarrow> (\<exists>c'. ServeConn rfc_lib stored_lib 100 server_mode always_active 10 0
        (handed (concat ws) ((some_conn [])\<lparr>asm := a\<rparr>)) = Return (None, c') \<and>
      trace c' = trace (some_conn []) @ map (\<lambda>((op, p), key). OnMessage op p) ?msgs)" by metis
  from u(2) sent have ws: "ws = [[129, 130, 1, 2, 3, 4, 105, 107]]" by simp
  from u(1) u(3) [unfolded ws] room show ?thesis by (auto simp: handed_def some_conn_def)
qed

end
